(* ===== verification/Prelude.thy ===== *)
theory Prelude
  imports Main "HOL-Library.Word" "HOL-Library.Char_ord" "HOL-Library.Monad_Syntax"
begin

text \<open>
  Shared vocabulary of the development: names for the C integer types, the
  memory block a C pointer addresses (a list of bytes) with its two primitive
  accesses, and the generic lemmas on lists and words that several components
  use.  A \<open>size_t\<close> is a natural number: every length and offset the program
  computes stays at or below the length of a block that exists, so no addition
  of the program wraps; where a width does matter (\<open>uint64_t\<close> values, the
  \<open>unsigned\<close> nesting counter, \<open>int32_t\<close> field numbers) the model uses words.
\<close>

unbundle bit_operations_syntax

type_synonym u8 = "8 word"
type_synonym u32 = "32 word"
type_synonym u64 = "64 word"
type_synonym bytes = "u8 list"

named_theorems wire_simps \<open>evaluation of the wire runtime on concrete bytes\<close>
named_theorems text_simps \<open>evaluation of the parser on concrete text\<close>

section \<open>Memory blocks\<close>

text \<open>
  \<open>store mem i b\<close> is the assignment \<open>mem[i] = b\<close>.  A write outside the block
  is undefined behaviour in C; the model makes it the value \<open>None\<close>, so that a
  theorem whose conclusion is \<open>Some\<close> states memory safety too.
\<close>

definition store :: "bytes \<Rightarrow> nat \<Rightarrow> u8 \<Rightarrow> bytes option" where
  "store mem i b = (if i < length mem then Some (mem[i := b]) else None)"

fun store_list :: "bytes \<Rightarrow> nat \<Rightarrow> bytes \<Rightarrow> bytes option" where
  "store_list mem i [] = Some mem"
| "store_list mem i (b # bs) =
     (case store mem i b of None \<Rightarrow> None | Some mem' \<Rightarrow> store_list mem' (Suc i) bs)"

text \<open>\<open>blit mem i bs\<close> is the block with \<open>bs\<close> laid over position \<open>i\<close>.\<close>

definition blit :: "bytes \<Rightarrow> nat \<Rightarrow> bytes \<Rightarrow> bytes" where
  "blit mem i bs = take i mem @ bs @ drop (i + length bs) mem"

lemma length_blit [simp]:
  "i + length bs \<le> length mem \<Longrightarrow> length (blit mem i bs) = length mem"
  by (simp add: blit_def)

lemma blit_Nil [simp]: "blit mem i [] = mem"
  by (simp add: blit_def)

lemma blit_Cons:
  assumes "i < length mem"
  shows "blit (mem[i := b]) (Suc i) bs = blit mem i (b # bs)"
proof -
  have "take (Suc i) (mem[i := b]) = take i mem @ [b]"
    using assms by (simp add: take_Suc_conv_app_nth)
  then show ?thesis by (simp add: blit_def)
qed

lemma take_blit [simp]: "i \<le> length mem \<Longrightarrow> take i (blit mem i bs) = take i mem"
  by (simp add: blit_def)

lemma drop_blit_at:
  "i \<le> length mem \<Longrightarrow> drop i (blit mem i bs) = bs @ drop (i + length bs) mem"
  by (simp add: blit_def)

lemma drop_blit [simp]:
  "i + length bs \<le> length mem \<Longrightarrow>
   drop (i + length bs) (blit mem i bs) = drop (i + length bs) mem"
  by (simp add: blit_def)

lemma nth_blit_in:
  "i + length bs \<le> length mem \<Longrightarrow> k < length bs \<Longrightarrow> blit mem i bs ! (i + k) = bs ! k"
  by (simp add: blit_def nth_append)

lemma nth_blit_out:
  "i + length bs \<le> length mem \<Longrightarrow> k < i \<or> i + length bs \<le> k \<Longrightarrow>
   blit mem i bs ! k = mem ! k"
  by (auto simp: blit_def nth_append)

lemma blit_blit_adjacent:
  assumes "i + length xs + length ys \<le> length mem"
  shows "blit (blit mem i xs) (i + length xs) ys = blit mem i (xs @ ys)"
  using assms by (simp add: blit_def ac_simps)

lemma store_list_blit:
  "i + length bs \<le> length mem \<Longrightarrow> store_list mem i bs = Some (blit mem i bs)"
proof (induction bs arbitrary: mem i)
  case Nil
  then show ?case by simp
next
  case (Cons b bs)
  then show ?case by (simp add: store_def blit_Cons)
qed

lemma store_list_overrun:
  "length mem < i + length bs \<Longrightarrow> bs \<noteq> [] \<Longrightarrow> store_list mem i bs = None"
proof (induction bs arbitrary: mem i)
  case Nil
  then show ?case by simp
next
  case (Cons b bs)
  then show ?case
    by (cases "bs = []") (auto simp: store_def split: option.splits)
qed

lemma store_list_append:
  "store_list mem i (xs @ ys) =
     (case store_list mem i xs of None \<Rightarrow> None
      | Some mem' \<Rightarrow> store_list mem' (i + length xs) ys)"
  by (induction xs arbitrary: mem i) (auto split: option.splits)

lemma store_list_SomeD:
  "store_list mem i bs = Some mem' \<Longrightarrow> length mem' = length mem"
  by (induction bs arbitrary: mem i) (auto simp: store_def split: if_splits)

section \<open>Words\<close>

lemma bit_unat_iff: "bit (unat (w :: 'a::len word)) n \<longleftrightarrow> bit w n"
  by (simp add: bit_unsigned_iff)

lemma bit_word_div_iff: "bit (w :: 'a::len word) n \<longleftrightarrow> odd (unat w div 2 ^ n)"
  by (simp add: bit_unat_iff [symmetric] bit_iff_odd)

lemma or_push_bit_disjoint:
  fixes v x :: "'a::len word"
  assumes "unat v < 2 ^ s"
  shows "v OR push_bit s x = v + push_bit s x"
proof -
  have "\<not> bit v n" if "s \<le> n" for n
  proof -
    have "unat v < 2 ^ n"
      using assms that by (meson less_le_trans one_le_numeral power_increasing)
    then show ?thesis by (simp add: bit_word_div_iff)
  qed
  then have "v AND push_bit s x = 0"
    by (intro bit_word_eqI) (auto simp: bit_simps not_le)
  then show ?thesis by (simp add: disjunctive_add_eq_or)
qed

lemma unat_ucast_up:
  fixes x :: "'a::len word"
  assumes "LENGTH('a) \<le> LENGTH('b)"
  shows "unat (ucast x :: 'b::len word) = unat x"
proof -
  have "unat x < 2 ^ LENGTH('b)"
    using assms by (meson less_le_trans one_le_numeral power_increasing unsigned_less)
  then show ?thesis by (simp add: unsigned_ucast_eq take_bit_nat_eq_self_iff)
qed

lemma and_mask7_eq: "(b :: u8) AND 0x7F = b mod 128"
  by (simp add: word_mod_2p_is_mask [where n = 7, simplified] mask_eq_exp_minus_1 flip: take_bit_eq_mask take_bit_eq_mod)

lemma unat_and_mask7: "unat ((b :: u8) AND 0x7F) = unat b mod 128"
  by (simp add: and_mask7_eq unat_mod)

lemma and_bit7_zero_iff: "(b :: u8) AND 0x80 = 0 \<longleftrightarrow> unat b < 128"
proof -
  have "b AND 0x80 = 0 \<longleftrightarrow> \<not> bit b 7"
    using and_exp_eq_0_iff_not_bit [of b 7] by simp
  also have "\<dots> \<longleftrightarrow> unat b < 128"
    proof -
    have "unat b < 256" using unsigned_less [of b] by simp
    then have "unat b div 128 = (if unat b < 128 then 0 else 1)"
      by (simp add: div_nat_eqI)
    then show ?thesis by (simp add: bit_word_div_iff)
  qed
  finally show ?thesis .
qed

end
