(* ===== verification/Wire_Spec.thy ===== *)
theory Wire_Spec
  imports Prelude
begin

text \<open>
  The reference definitions of the protobuf wire format that the runtime is
  measured against, all on unbounded naturals and integers: the logic functions
  of the ACSL annotations of \<open>gremlin.h\<close> (\<open>varint_size\<close>, \<open>varint_byte\<close>,
  \<open>le32_value\<close>, \<open>le64_value\<close>, \<open>enum_wire\<close>, \<open>zigzag_encode\<close>), the canonical
  base-128 byte string \<open>leb128\<close> and its reader \<open>leb128_decode\<close>, and the
  little-endian byte string \<open>le_bytes\<close>.
\<close>

section \<open>Errors and wire types\<close>

datatype gremlin_error =
    GREMLIN_ERROR_TRUNCATED
  | GREMLIN_ERROR_OVERFLOW
  | GREMLIN_ERROR_INVALID_WIRE_TYPE
  | GREMLIN_ERROR_INVALID_FIELD_NUM

text \<open>
  A result struct \<open>{ value, consumed, error }\<close> is a sum: \<open>Inl\<close> the error
  (its other members are then 0 in the code) or \<open>Inr\<close> the members of a success.
\<close>

type_synonym 'a decoded = "gremlin_error + 'a \<times> nat"

datatype gremlin_wire_type =
    GREMLIN_WIRE_VARINT
  | GREMLIN_WIRE_FIXED64
  | GREMLIN_WIRE_LEN_PREFIX
  | GREMLIN_WIRE_SGROUP
  | GREMLIN_WIRE_EGROUP
  | GREMLIN_WIRE_FIXED32

section \<open>Variable-length integers\<close>

definition varint_size :: "nat \<Rightarrow> nat" where
  "varint_size v =
     (if v < 0x80 then 1 else
      if v < 0x4000 then 2 else
      if v < 0x200000 then 3 else
      if v < 0x10000000 then 4 else
      if v < 0x800000000 then 5 else
      if v < 0x40000000000 then 6 else
      if v < 0x2000000000000 then 7 else
      if v < 0x100000000000000 then 8 else
      if v < 0x8000000000000000 then 9 else 10)"

fun varint_byte :: "nat \<Rightarrow> nat \<Rightarrow> nat" where
  "varint_byte v 0 = (if v < 128 then v else 128 + v mod 128)"
| "varint_byte v (Suc k) = varint_byte (v div 128) k"

fun leb128 :: "nat \<Rightarrow> bytes" where
  "leb128 v = (if v < 128 then [word_of_nat v]
               else word_of_nat (128 + v mod 128) # leb128 (v div 128))"

declare leb128.simps [simp del]

lemma leb128_small [simp]: "v < 128 \<Longrightarrow> leb128 v = [word_of_nat v]"
  by (simp add: leb128.simps)

lemma leb128_cont:
  "128 \<le> v \<Longrightarrow> leb128 v = word_of_nat (128 + v mod 128) # leb128 (v div 128)"
  by (simp add: leb128.simps [of v])

lemma leb128_nonempty [simp]: "leb128 v \<noteq> []" "0 < length (leb128 v)"
  by (subst leb128.simps, simp)+

lemma length_leb128_cont: "128 \<le> v \<Longrightarrow> length (leb128 v) = Suc (length (leb128 (v div 128)))"
  by (simp add: leb128_cont)

lemma length_leb128_le:
  "v < 128 ^ Suc k \<Longrightarrow> length (leb128 v) \<le> Suc k"
proof (induction k arbitrary: v)
  case 0
  then show ?case by simp
next
  case (Suc k)
  show ?case
  proof (cases "v < 128")
    case False
    have "v div 128 < 128 ^ Suc k"
      using Suc.prems by (simp add: less_mult_imp_div_less mult.commute)
    then show ?thesis using Suc.IH [of "v div 128"] False
      by (simp add: length_leb128_cont)
  qed simp
qed

lemma length_leb128_gt:
  "128 ^ k \<le> v \<Longrightarrow> k < length (leb128 v)"
proof (induction k arbitrary: v)
  case 0
  then show ?case by simp
next
  case (Suc k)
  have big: "128 \<le> v"
    using Suc.prems by (meson dual_order.trans one_le_numeral self_le_power zero_less_Suc)
  have "128 ^ k \<le> v div 128"
    using Suc.prems by (simp add: less_eq_div_iff_mult_less_eq mult.commute)
  then show ?case using Suc.IH [of "v div 128"] big by (simp add: length_leb128_cont)
qed

lemma length_leb128_eq:
  assumes "128 ^ k \<le> v" and "v < 128 ^ Suc k"
  shows "length (leb128 v) = Suc k"
  using length_leb128_le [OF assms(2)] length_leb128_gt [OF assms(1)] by simp

text \<open>The case table of \<open>varint_size\<close> is the length of the canonical encoding.\<close>

lemma length_leb128:
  assumes "v < 2 ^ 64"
  shows "length (leb128 v) = varint_size v"
proof -
  consider "v < 0x80" | "0x80 \<le> v" "v < 0x4000" | "0x4000 \<le> v" "v < 0x200000"
    | "0x200000 \<le> v" "v < 0x10000000" | "0x10000000 \<le> v" "v < 0x800000000"
    | "0x800000000 \<le> v" "v < 0x40000000000" | "0x40000000000 \<le> v" "v < 0x2000000000000"
    | "0x2000000000000 \<le> v" "v < 0x100000000000000"
    | "0x100000000000000 \<le> v" "v < 0x8000000000000000" | "0x8000000000000000 \<le> v"
    by linarith
  then show ?thesis
  proof cases
    case 1 then show ?thesis by (simp add: varint_size_def)
  next
    case 2 then show ?thesis using length_leb128_eq [of 1 v] by (simp add: varint_size_def)
  next
    case 3 then show ?thesis using length_leb128_eq [of 2 v] by (simp add: varint_size_def)
  next
    case 4 then show ?thesis using length_leb128_eq [of 3 v] by (simp add: varint_size_def)
  next
    case 5 then show ?thesis using length_leb128_eq [of 4 v] by (simp add: varint_size_def)
  next
    case 6 then show ?thesis using length_leb128_eq [of 5 v] by (simp add: varint_size_def)
  next
    case 7 then show ?thesis using length_leb128_eq [of 6 v] by (simp add: varint_size_def)
  next
    case 8 then show ?thesis using length_leb128_eq [of 7 v] by (simp add: varint_size_def)
  next
    case 9 then show ?thesis using length_leb128_eq [of 8 v] by (simp add: varint_size_def)
  next
    case 10 then show ?thesis using length_leb128_eq [of 9 v] assms by (simp add: varint_size_def)
  qed
qed

lemma varint_size_bounds: "1 \<le> varint_size v" "varint_size v \<le> 10"
  by (simp_all add: varint_size_def)

lemma varint_size_32: "v < 2 ^ 32 \<Longrightarrow> varint_size v \<le> 5"
  by (simp add: varint_size_def)

text \<open>Byte by byte, the canonical encoding is the logic function \<open>varint_byte\<close>.\<close>

lemma nth_leb128:
  "k < length (leb128 v) \<Longrightarrow> leb128 v ! k = word_of_nat (varint_byte v k)"
proof (induction v k rule: varint_byte.induct)
  case (1 v)
  then show ?case by (cases "v < 128") (simp_all add: leb128_cont)
next
  case (2 v k)
  then show ?case by (cases "v < 128") (simp_all add: leb128_cont)
qed

text \<open>The reader: at most \<open>k\<close> bytes, least significant group first.\<close>

fun leb128_decode :: "nat \<Rightarrow> bytes \<Rightarrow> nat decoded" where
  "leb128_decode 0 bs = Inl GREMLIN_ERROR_OVERFLOW"
| "leb128_decode (Suc k) [] = Inl GREMLIN_ERROR_TRUNCATED"
| "leb128_decode (Suc k) (b # bs) =
     (if unat b < 128 then Inr (unat b, 1)
      else case leb128_decode k bs of Inl e \<Rightarrow> Inl e
           | Inr (v, n) \<Rightarrow> Inr (unat b mod 128 + 128 * v, Suc n))"

lemma leb128_decode_leb128:
  "length (leb128 v) \<le> k \<Longrightarrow> leb128_decode k (leb128 v @ rest) = Inr (v, length (leb128 v))"
proof (induction v arbitrary: k rule: leb128.induct)
  case (1 v)
  show ?case
  proof (cases "v < 128")
    case True
    then show ?thesis using "1.prems" by (cases k) (simp_all add: unat_of_nat)
  next
    case False
    then obtain k' where k: "k = Suc k'" "length (leb128 (v div 128)) \<le> k'"
      using "1.prems" by (cases k) (simp_all add: length_leb128_cont)
    have b: "unat (word_of_nat (128 + v mod 128) :: u8) = 128 + v mod 128"
      by (subst unat_of_nat) simp
    have "leb128_decode k' (leb128 (v div 128) @ rest)
            = Inr (v div 128, length (leb128 (v div 128)))"
      using False k(2) by (intro "1.IH") auto
    then show ?thesis using False by (simp add: leb128_cont k(1) b del: of_nat_add)
  qed
qed

lemma leb128_decode_consumed:
  "leb128_decode k bs = Inr (v, n) \<Longrightarrow> 1 \<le> n \<and> n \<le> k \<and> n \<le> length bs \<and> v < 128 ^ n"
proof (induction k bs arbitrary: v n rule: leb128_decode.induct)
  case (3 k b bs)
  show ?case
  proof (cases "unat b < 128")
    case False
    with "3.prems" obtain v' n' where r: "leb128_decode k bs = Inr (v', n')"
        and v: "v = unat b mod 128 + 128 * v'" and n: "n = Suc n'"
      by (auto split: sum.splits)
    have "n' \<le> k \<and> n' \<le> length bs" and "v' < 128 ^ n'"
      using "3.IH" [OF False r] by auto
    moreover have "unat b mod 128 + 128 * v' < 128 * 128 ^ n'"
      using \<open>v' < 128 ^ n'\<close> mod_less_divisor [of 128 "unat b"] by linarith
    ultimately show ?thesis by (simp add: v n)
  qed (use "3.prems" in auto)
qed auto

lemma leb128_decode_truncated:
  "leb128_decode k bs = Inl GREMLIN_ERROR_TRUNCATED \<Longrightarrow> length bs < k"
  by (induction k bs rule: leb128_decode.induct) (auto split: if_splits sum.splits)

lemma leb128_decode_overflow:
  "leb128_decode k bs = Inl GREMLIN_ERROR_OVERFLOW \<Longrightarrow> k \<le> length bs"
  by (induction k bs rule: leb128_decode.induct) (auto split: if_splits sum.splits)

lemma leb128_decode_errors:
  "leb128_decode k bs = Inl e \<Longrightarrow>
   e = GREMLIN_ERROR_TRUNCATED \<or> e = GREMLIN_ERROR_OVERFLOW"
  by (induction k bs rule: leb128_decode.induct) (auto split: if_splits sum.splits)

text \<open>Only the bytes that were consumed matter.\<close>

lemma leb128_decode_prefix:
  "leb128_decode k bs = Inr (v, n) \<Longrightarrow> leb128_decode k (take n bs @ rest) = Inr (v, n)"
proof (induction k bs arbitrary: v n rule: leb128_decode.induct)
  case (3 k b bs)
  then show ?case by (auto split: if_splits sum.splits)
qed auto

section \<open>Little-endian integers\<close>

definition le32_value :: "bytes \<Rightarrow> nat" where
  "le32_value bs = unat (bs ! 0) + 256 * unat (bs ! 1) + 65536 * unat (bs ! 2)
                     + 16777216 * unat (bs ! 3)"

definition le64_value :: "bytes \<Rightarrow> nat" where
  "le64_value bs = unat (bs ! 0) + 256 * unat (bs ! 1) + 65536 * unat (bs ! 2)
                     + 16777216 * unat (bs ! 3) + 4294967296 * unat (bs ! 4)
                     + 1099511627776 * unat (bs ! 5) + 281474976710656 * unat (bs ! 6)
                     + 72057594037927936 * unat (bs ! 7)"

fun le_bytes :: "nat \<Rightarrow> nat \<Rightarrow> bytes" where
  "le_bytes 0 v = []"
| "le_bytes (Suc k) v = word_of_nat (v mod 256) # le_bytes k (v div 256)"

lemma length_le_bytes [simp]: "length (le_bytes k v) = k"
  by (induction k arbitrary: v) auto

section \<open>Signed integers on the wire\<close>

definition enum_wire :: "int \<Rightarrow> int" where
  "enum_wire v = (if v < 0 then v + 18446744073709551616
                  else if v \<ge> 2147483648 then v + 18446744069414584320 else v)"

definition zigzag_encode :: "int \<Rightarrow> int" where
  "zigzag_encode v = (if v \<ge> 0 then 2 * v else -2 * v - 1)"

definition zigzag_decode :: "int \<Rightarrow> int" where
  "zigzag_decode u = (if u mod 2 = 0 then u div 2 else - (u div 2) - 1)"

lemma zigzag_decode_encode: "zigzag_decode (zigzag_encode v) = v"
  by (simp add: zigzag_encode_def zigzag_decode_def) presburger

lemma zigzag_encode_nonneg: "0 \<le> zigzag_encode v"
  by (simp add: zigzag_encode_def)

end
