(* ===== verification/Wire_Codec.thy ===== *)
theory Wire_Codec
  imports Wire_Spec
begin

text \<open>
  The interface every encodable value of the runtime offers to generated code:
  a size, an encoder that writes at a caller-held offset and returns the next
  one, and a decoder of a slice.  \<open>wire_codec\<close> states what the caller relies on;
  its lemmas are what a generated \<open>_encode_at\<close>/reader pair does with it: write
  a value over a buffer and read it back, write a run of values (the packed
  repeated fields) and read the run back.  The theories of the single value
  kinds interpret it on the models of the code.
\<close>

text \<open>A run of values, each written where the previous one ended.\<close>

fun encode_run ::
  "(bytes \<Rightarrow> nat \<Rightarrow> 'v \<Rightarrow> (bytes \<times> nat) option) \<Rightarrow> bytes \<Rightarrow> nat \<Rightarrow> 'v list
     \<Rightarrow> (bytes \<times> nat) option" where
  "encode_run enc mem off [] = Some (mem, off)"
| "encode_run enc mem off (v # vs) =
     (case enc mem off v of None \<Rightarrow> None
      | Some (mem', off') \<Rightarrow> encode_run enc mem' off' vs)"

text \<open>\<open>n\<close> values read one after the other; the result carries the bytes consumed.\<close>

fun decode_run :: "(bytes \<Rightarrow> 'v decoded) \<Rightarrow> nat \<Rightarrow> bytes \<Rightarrow> 'v list decoded" where
  "decode_run dec 0 bs = Inr ([], 0)"
| "decode_run dec (Suc n) bs =
     (case dec bs of Inl e \<Rightarrow> Inl e
      | Inr (v, c) \<Rightarrow>
          (case decode_run dec n (drop c bs) of Inl e \<Rightarrow> Inl e
           | Inr (vs, c') \<Rightarrow> Inr (v # vs, c + c')))"

locale wire_codec =
  fixes good :: "'v \<Rightarrow> bool"
    and image :: "'v \<Rightarrow> bytes"
    and vsize :: "'v \<Rightarrow> nat"
    and enc :: "bytes \<Rightarrow> nat \<Rightarrow> 'v \<Rightarrow> (bytes \<times> nat) option"
    and dec :: "bytes \<Rightarrow> 'v decoded"
  assumes vsize_image: "good v \<Longrightarrow> vsize v = length (image v)"
    and enc_image: "good v \<Longrightarrow> off + vsize v \<le> length mem \<Longrightarrow>
          enc mem off v = Some (blit mem off (image v), off + vsize v)"
    and enc_overrun: "good v \<Longrightarrow> length mem < off + vsize v \<Longrightarrow> enc mem off v = None"
    and dec_image: "good v \<Longrightarrow> dec (image v @ rest) = Inr (v, vsize v)"
    and dec_consumed: "dec bs = Inr (v, n) \<Longrightarrow> 0 < n \<and> n \<le> length bs"
begin

lemma vsize_pos: "good v \<Longrightarrow> 0 < vsize v"
  using dec_image [of v "[]"] dec_consumed by blast

lemma roundtrip_at:
  assumes "good v" and "off + vsize v \<le> length mem"
  obtains mem' where "enc mem off v = Some (mem', off + vsize v)"
    and "length mem' = length mem" and "take off mem' = take off mem"
    and "drop (off + vsize v) mem' = drop (off + vsize v) mem"
    and "dec (drop off mem') = Inr (v, vsize v)"
proof
  have fits: "off + length (image v) \<le> length mem"
    using assms by (simp add: vsize_image)
  show "enc mem off v = Some (blit mem off (image v), off + vsize v)"
    using assms by (rule enc_image)
  show "length (blit mem off (image v)) = length mem"
    using fits by simp
  show "take off (blit mem off (image v)) = take off mem"
    using fits by simp
  show "drop (off + vsize v) (blit mem off (image v)) = drop (off + vsize v) mem"
    using fits assms(1) by (simp add: vsize_image)
  show "dec (drop off (blit mem off (image v))) = Inr (v, vsize v)"
    using fits assms(1) by (simp add: drop_blit_at dec_image)
qed

lemma encode_run_image:
  "\<lbrakk>list_all good vs; off + sum_list (map vsize vs) \<le> length mem\<rbrakk> \<Longrightarrow>
   encode_run enc mem off vs
     = Some (blit mem off (concat (map image vs)), off + sum_list (map vsize vs))"
proof (induction vs arbitrary: mem off)
  case Nil
  then show ?case by simp
next
  case (Cons v vs)
  then have "enc mem off v = Some (blit mem off (image v), off + vsize v)"
    by (simp add: enc_image)
  moreover have "length (concat (map image vs)) = sum_list (map vsize vs)"
    using Cons.prems(1) by (induction vs) (auto simp: vsize_image)
  ultimately show ?case
    using Cons by (simp add: vsize_image blit_blit_adjacent add.assoc)
qed

lemma decode_run_image:
  "list_all good vs \<Longrightarrow>
   decode_run dec (length vs) (concat (map image vs) @ rest)
     = Inr (vs, sum_list (map vsize vs))"
proof (induction vs)
  case Nil
  then show ?case by simp
next
  case (Cons v vs)
  then have "dec (image v @ concat (map image vs) @ rest) = Inr (v, vsize v)"
    by (simp add: dec_image)
  with Cons show ?case by (simp add: vsize_image)
qed

lemma run_roundtrip:
  assumes "list_all good vs" and "off + sum_list (map vsize vs) \<le> length mem"
  shows "\<exists>mem'. encode_run enc mem off vs = Some (mem', off + sum_list (map vsize vs)) \<and>
           length mem' = length mem \<and> take off mem' = take off mem \<and>
           decode_run dec (length vs) (drop off mem') = Inr (vs, sum_list (map vsize vs))"
proof -
  have len: "length (concat (map image vs)) = sum_list (map vsize vs)"
    using assms(1) by (induction vs) (auto simp: vsize_image)
  show ?thesis
    using assms encode_run_image [OF assms]
    by (simp add: len drop_blit_at decode_run_image)
qed

text \<open>Distinct values have distinct images, and no image is a prefix of another's.\<close>

lemma image_prefix_free:
  assumes "good v" "good w" and "image v @ r = image w @ s"
  shows "v = w \<and> r = s"
proof -
  have "Inr (v, vsize v) = dec (image w @ s)"
    using dec_image [OF assms(1), of r] assms(3) by simp
  then have "v = w" using dec_image [OF assms(2), of s] by simp
  with assms(3) show ?thesis by simp
qed

end

end
