(* ===== verification/Runtime_Varint.thy ===== *)
theory Runtime_Varint
  imports Wire_Codec
begin

text \<open>
  The variable-length integers of \<open>runtime/include/gremlin.h\<close>: the two size
  functions (comparison cascade and leading-zero count), the encoders on a
  writer and on a caller-held offset, the bounded decoders, each in its 64-bit
  and its 32-bit version.  A pointer with its length is the list of the bytes
  it addresses; \<open>src + off, len - off\<close> is \<open>drop off src\<close>.
\<close>

section \<open>The writer\<close>

record gremlin_writer =
  gw_buf :: bytes
  gw_cap :: nat
  gw_offset :: nat

definition gremlin_writer_init :: "bytes \<Rightarrow> nat \<Rightarrow> gremlin_writer" where
  "gremlin_writer_init mem cap = \<lparr>gw_buf = mem, gw_cap = cap, gw_offset = 0\<rparr>"

text \<open>The annotation \<open>valid_writer\<close>: the cursor is inside a capacity the block has.\<close>

definition valid_writer :: "gremlin_writer \<Rightarrow> bool" where
  "valid_writer w \<longleftrightarrow> gw_offset w \<le> gw_cap w \<and> gw_cap w \<le> length (gw_buf w)"

text \<open>The writer after an operation that left the block and the cursor so.\<close>

definition writer_at :: "gremlin_writer \<Rightarrow> (bytes \<times> nat) option \<Rightarrow> gremlin_writer option" where
  "writer_at w r = map_option (\<lambda>(mem, off). w\<lparr>gw_buf := mem, gw_offset := off\<rparr>) r"

lemma writer_at_simps [simp]:
  "writer_at w None = None"
  "writer_at w (Some (mem, off)) = Some (w\<lparr>gw_buf := mem, gw_offset := off\<rparr>)"
  by (simp_all add: writer_at_def)

section \<open>Sizes\<close>

definition gremlin_varint_size_cascade :: "u64 \<Rightarrow> nat" where
  "gremlin_varint_size_cascade v =
     (if v < 0x80 then 1 else
      if v < 0x4000 then 2 else
      if v < 0x200000 then 3 else
      if v < 0x10000000 then 4 else
      if v < 0x800000000 then 5 else
      if v < 0x40000000000 then 6 else
      if v < 0x2000000000000 then 7 else
      if v < 0x100000000000000 then 8 else
      if v < 0x8000000000000000 then 9 else 10)"

text \<open>The compiler intrinsic: the number of clear bits above the highest set one.\<close>

definition builtin_clzll :: "u64 \<Rightarrow> nat" where
  "builtin_clzll v = length (takeWhile (\<lambda>i. \<not> bit v i) (rev [0..<64]))"

definition gremlin_varint_size_clz :: "u64 \<Rightarrow> nat" where
  "gremlin_varint_size_clz v =
     (if v = 0 then 1
      else let bits = 64 - builtin_clzll v in (bits + 6) div 7)"

text \<open>The dispatch; \<open>gnu\<close> is the preprocessor condition.\<close>

definition gremlin_varint_size :: "bool \<Rightarrow> u64 \<Rightarrow> nat" where
  "gremlin_varint_size gnu v =
     (if gnu then gremlin_varint_size_clz v else gremlin_varint_size_cascade v)"

definition gremlin_varint32_size :: "u32 \<Rightarrow> nat" where
  "gremlin_varint32_size v =
     (if v < 0x80 then 1 else
      if v < 0x4000 then 2 else
      if v < 0x200000 then 3 else
      if v < 0x10000000 then 4 else 5)"

lemma cascade_varint_size: "gremlin_varint_size_cascade v = varint_size (unat v)"
  by (simp add: gremlin_varint_size_cascade_def varint_size_def word_less_nat_alt)

lemma varint32_size_spec: "gremlin_varint32_size v = varint_size (unat v)"
proof -
  have "unat v < 2 ^ LENGTH(32)" by (rule unsigned_less)
  then have "unat v < 4294967296" by simp
  then show ?thesis
    by (simp add: gremlin_varint32_size_def varint_size_def word_less_nat_alt)
qed

lemma builtin_clzll_bounds:
  assumes "2 ^ n \<le> unat v" and "unat v < 2 ^ Suc n" and "n < 64"
  shows "builtin_clzll v = 63 - n"
proof -
  have "rev [0..<64] = rev [Suc n..<64] @ n # rev [0..<n]"
    using assms(3) upt_add_eq_append [of 0 n "64 - n"] upt_conv_Cons [of n 64] by simp
  moreover have "bit v n"
  proof -
    have "unat v div 2 ^ n = 1" using assms(1,2) by (intro div_nat_eqI) simp_all
    then show ?thesis by (simp add: bit_word_div_iff)
  qed
  moreover have "\<not> bit v k" if "Suc n \<le> k" for k
  proof -
    have "unat v < 2 ^ k"
      using assms(2) that by (meson less_le_trans one_le_numeral power_increasing)
    then show ?thesis by (simp add: bit_word_div_iff)
  qed
  then have "takeWhile (\<lambda>i. \<not> bit v i) (rev [Suc n..<64] @ n # rev [0..<n])
               = rev [Suc n..<64]"
    using \<open>bit v n\<close> by (subst takeWhile_append2) auto
  ultimately show ?thesis by (simp add: builtin_clzll_def)
qed

lemma nat_band:
  fixes m :: nat
  assumes "0 < m" and "m < 2 ^ b"
  obtains n where "2 ^ n \<le> m" "m < 2 ^ Suc n" "n < b"
proof -
  obtain n where n: "2 ^ n \<le> m" "m < 2 ^ Suc n"
    using assms(1) ex_power_ivl1 [of 2 m] by auto
  then have "(2::nat) ^ n < 2 ^ b" using assms(2) by linarith
  then have "n < b" by simp
  with n show thesis by (rule that)
qed

lemma clz_varint_size: "gremlin_varint_size_clz v = varint_size (unat v)"
proof (cases "v = 0")
  case True
  then show ?thesis by (simp add: gremlin_varint_size_clz_def varint_size_def)
next
  case False
  have lim: "unat v < 2 ^ 64" using unsigned_less [of v] by simp
  have "0 < unat v" using False by (simp add: unat_gt_0)
  then obtain n where n: "2 ^ n \<le> unat v" "unat v < 2 ^ Suc n" "n < 64"
    using lim by (rule nat_band)
  define k where "k = n div 7"
  have k: "7 * k \<le> n" "Suc n \<le> 7 * Suc k" "(64 - (63 - n) + 6) div 7 = Suc k"
  proof -
    show "7 * k \<le> n" "Suc n \<le> 7 * Suc k" unfolding k_def by presburger+
    have "64 - (63 - n) + 6 = n + 7" using n(3) by linarith
    then show "(64 - (63 - n) + 6) div 7 = Suc k" unfolding k_def by simp
  qed
  have p: "(128::nat) ^ j = 2 ^ (7 * j)" for j
    by (simp add: power_mult)
  have "(128::nat) ^ k \<le> 2 ^ n"
    unfolding p by (rule power_increasing [OF k(1)]) simp
  moreover have "(2::nat) ^ Suc n \<le> 128 ^ Suc k"
    unfolding p by (rule power_increasing [OF k(2)]) simp
  ultimately have "length (leb128 (unat v)) = Suc k"
    using n by (intro length_leb128_eq) linarith+
  then show ?thesis
    using False k(3) length_leb128 [OF lim]
    by (simp add: gremlin_varint_size_clz_def builtin_clzll_bounds [OF n])
qed

lemma varint_size_spec: "gremlin_varint_size gnu v = varint_size (unat v)"
  by (simp add: gremlin_varint_size_def cascade_varint_size clz_varint_size)

section \<open>Encoding at an offset\<close>

function varint_encode_at_loop :: "bytes \<Rightarrow> nat \<Rightarrow> u64 \<Rightarrow> (bytes \<times> nat) option" where
  "varint_encode_at_loop mem off v =
     (if 128 \<le> v then
        do { mem' \<leftarrow> store mem off (ucast (128 + v mod 128));
             varint_encode_at_loop mem' (off + 1) (v div 128) }
      else
        do { mem' \<leftarrow> store mem off (ucast v);
             Some (mem', off + 1) })"
  by pat_completeness auto
termination
  by (relation "measure (\<lambda>(mem, off, v). unat v)")
     (auto simp: word_le_nat_alt unat_div intro!: div_less_dividend)

declare varint_encode_at_loop.simps [simp del]

definition gremlin_varint_encode_at ::
  "bytes \<Rightarrow> nat \<Rightarrow> u64 \<Rightarrow> (bytes \<times> nat) option" where
  "gremlin_varint_encode_at mem off v =
     (if v < 128 then do { mem' \<leftarrow> store mem off (ucast v); Some (mem', off + 1) }
      else varint_encode_at_loop mem off v)"

function varint32_encode_at_loop :: "bytes \<Rightarrow> nat \<Rightarrow> u32 \<Rightarrow> (bytes \<times> nat) option" where
  "varint32_encode_at_loop mem off v =
     (if 128 \<le> v then
        do { mem' \<leftarrow> store mem off (ucast (128 + v mod 128));
             varint32_encode_at_loop mem' (off + 1) (v div 128) }
      else
        do { mem' \<leftarrow> store mem off (ucast v);
             Some (mem', off + 1) })"
  by pat_completeness auto
termination
  by (relation "measure (\<lambda>(mem, off, v). unat v)")
     (auto simp: word_le_nat_alt unat_div intro!: div_less_dividend)

declare varint32_encode_at_loop.simps [simp del]

definition gremlin_varint32_encode_at ::
  "bytes \<Rightarrow> nat \<Rightarrow> u32 \<Rightarrow> (bytes \<times> nat) option" where
  "gremlin_varint32_encode_at mem off v =
     (if v < 128 then do { mem' \<leftarrow> store mem off (ucast v); Some (mem', off + 1) }
      else varint32_encode_at_loop mem off v)"

text \<open>Both loops write the canonical bytes, or run over the end of the block.\<close>

lemma ucast_byte: "ucast (x :: 'a::len word) = (word_of_nat (unat x) :: u8)"
  by simp

lemma ucast_cont_byte:
  fixes v :: "'a::len word"
  assumes "128 \<le> unat v" and "8 \<le> LENGTH('a)"
  shows "ucast (128 + v mod 128) = (word_of_nat (128 + unat v mod 128) :: u8)"
proof -
  have "(256::nat) \<le> 2 ^ LENGTH('a)"
    using power_increasing [OF assms(2), of "2::nat"] by simp
  then have "take_bit LENGTH('a) (128::nat) = 128" and "128 + unat v mod 128 < 2 ^ LENGTH('a)"
    by (simp_all add: take_bit_nat_eq_self_iff less_le_trans [of _ 256])
  then have "unat (128 + v mod 128) = 128 + unat v mod 128"
    by (simp add: unat_word_ariths unat_mod)
  then show ?thesis by (metis ucast_byte)
qed

lemma varint_encode_at_loop_store:
  "varint_encode_at_loop mem off v =
     do { mem' \<leftarrow> store_list mem off (leb128 (unat v));
          Some (mem', off + length (leb128 (unat v))) }"
proof (induction mem off v rule: varint_encode_at_loop.induct)
  case (1 mem off v)
  show ?case
  proof (cases "128 \<le> v")
    case True
    then have big: "128 \<le> unat v" by (simp add: word_le_nat_alt)
    then show ?thesis
      using True "1" by (subst varint_encode_at_loop.simps)
        (simp add: leb128_cont unat_div ucast_cont_byte Option.bind_eq_None_conv
             split: option.split Option.bind_split)
  next
    case False
    then have "unat v < 128" by (simp add: word_le_nat_alt)
    then show ?thesis using False
      by (subst varint_encode_at_loop.simps) (simp split: Option.bind_split)
  qed
qed

lemma varint32_encode_at_loop_store:
  "varint32_encode_at_loop mem off v =
     do { mem' \<leftarrow> store_list mem off (leb128 (unat v));
          Some (mem', off + length (leb128 (unat v))) }"
proof (induction mem off v rule: varint32_encode_at_loop.induct)
  case (1 mem off v)
  show ?case
  proof (cases "128 \<le> v")
    case True
    then have big: "128 \<le> unat v" by (simp add: word_le_nat_alt)
    then show ?thesis
      using True "1" by (subst varint32_encode_at_loop.simps)
        (simp add: leb128_cont unat_div ucast_cont_byte Option.bind_eq_None_conv
             split: option.split Option.bind_split)
  next
    case False
    then have "unat v < 128" by (simp add: word_le_nat_alt)
    then show ?thesis using False
      by (subst varint32_encode_at_loop.simps) (simp split: Option.bind_split)
  qed
qed

lemma varint_encode_at_store:
  "gremlin_varint_encode_at mem off v =
     do { mem' \<leftarrow> store_list mem off (leb128 (unat v));
          Some (mem', off + varint_size (unat v)) }"
proof -
  have "length (leb128 (unat v)) = varint_size (unat v)"
    using unsigned_less [of v] by (intro length_leb128) simp
  moreover have "unat v < 128" if "v < 128" using that by (simp add: word_less_nat_alt)
  ultimately show ?thesis
    by (auto simp: gremlin_varint_encode_at_def varint_encode_at_loop_store
             split: option.split Option.bind_split)
qed

lemma varint32_encode_at_store:
  "gremlin_varint32_encode_at mem off v =
     do { mem' \<leftarrow> store_list mem off (leb128 (unat v));
          Some (mem', off + varint_size (unat v)) }"
proof -
  have "unat v < 2 ^ LENGTH(32)" by (rule unsigned_less)
  then have "length (leb128 (unat v)) = varint_size (unat v)"
    by (intro length_leb128) simp
  moreover have "unat v < 128" if "v < 128" using that by (simp add: word_less_nat_alt)
  ultimately show ?thesis
    by (auto simp: gremlin_varint32_encode_at_def varint32_encode_at_loop_store
             split: option.split Option.bind_split)
qed

section \<open>Encoding through a writer\<close>

function varint_encode_loop :: "gremlin_writer \<Rightarrow> u64 \<Rightarrow> gremlin_writer option" where
  "varint_encode_loop w v =
     (if 128 \<le> v then
        do { mem \<leftarrow> store (gw_buf w) (gw_offset w) (ucast (128 + v mod 128));
             varint_encode_loop (w\<lparr>gw_buf := mem, gw_offset := gw_offset w + 1\<rparr>) (v div 128) }
      else
        do { mem \<leftarrow> store (gw_buf w) (gw_offset w) (ucast v);
             Some (w\<lparr>gw_buf := mem, gw_offset := gw_offset w + 1\<rparr>) })"
  by pat_completeness auto
termination
  by (relation "measure (\<lambda>(w, v). unat v)")
     (auto simp: word_le_nat_alt unat_div intro!: div_less_dividend)

declare varint_encode_loop.simps [simp del]

definition gremlin_varint_encode :: "gremlin_writer \<Rightarrow> u64 \<Rightarrow> gremlin_writer option" where
  "gremlin_varint_encode w v =
     (if v < 128 then
        do { mem \<leftarrow> store (gw_buf w) (gw_offset w) (ucast v);
             Some (w\<lparr>gw_buf := mem, gw_offset := gw_offset w + 1\<rparr>) }
      else varint_encode_loop w v)"

function varint32_encode_loop :: "gremlin_writer \<Rightarrow> u32 \<Rightarrow> gremlin_writer option" where
  "varint32_encode_loop w v =
     (if 128 \<le> v then
        do { mem \<leftarrow> store (gw_buf w) (gw_offset w) (ucast (128 + v mod 128));
             varint32_encode_loop (w\<lparr>gw_buf := mem, gw_offset := gw_offset w + 1\<rparr>) (v div 128) }
      else
        do { mem \<leftarrow> store (gw_buf w) (gw_offset w) (ucast v);
             Some (w\<lparr>gw_buf := mem, gw_offset := gw_offset w + 1\<rparr>) })"
  by pat_completeness auto
termination
  by (relation "measure (\<lambda>(w, v). unat v)")
     (auto simp: word_le_nat_alt unat_div intro!: div_less_dividend)

declare varint32_encode_loop.simps [simp del]

definition gremlin_varint32_encode :: "gremlin_writer \<Rightarrow> u32 \<Rightarrow> gremlin_writer option" where
  "gremlin_varint32_encode w v =
     (if v < 128 then
        do { mem \<leftarrow> store (gw_buf w) (gw_offset w) (ucast v);
             Some (w\<lparr>gw_buf := mem, gw_offset := gw_offset w + 1\<rparr>) }
      else varint32_encode_loop w v)"

text \<open>The writer versions do what the versions at an offset do.\<close>

lemma varint_encode_loop_at:
  "varint_encode_loop w v = writer_at w (varint_encode_at_loop (gw_buf w) (gw_offset w) v)"
proof (induction w v rule: varint_encode_loop.induct)
  case (1 w v)
  then show ?case
    by (subst varint_encode_loop.simps, subst varint_encode_at_loop.simps)
       (simp add: writer_at_def option.map_comp o_def case_prod_beta
          split: Option.bind_split option.split)
qed

lemma varint32_encode_loop_at:
  "varint32_encode_loop w v
     = writer_at w (varint32_encode_at_loop (gw_buf w) (gw_offset w) v)"
proof (induction w v rule: varint32_encode_loop.induct)
  case (1 w v)
  then show ?case
    by (subst varint32_encode_loop.simps, subst varint32_encode_at_loop.simps)
       (simp add: writer_at_def option.map_comp o_def case_prod_beta
          split: Option.bind_split option.split)
qed

lemma varint_encode_at_writer:
  "gremlin_varint_encode w v
     = writer_at w (gremlin_varint_encode_at (gw_buf w) (gw_offset w) v)"
  by (simp add: gremlin_varint_encode_def gremlin_varint_encode_at_def varint_encode_loop_at
        split: Option.bind_split)

lemma varint32_encode_at_writer:
  "gremlin_varint32_encode w v
     = writer_at w (gremlin_varint32_encode_at (gw_buf w) (gw_offset w) v)"
  by (simp add: gremlin_varint32_encode_def gremlin_varint32_encode_at_def
        varint32_encode_loop_at split: Option.bind_split)

section \<open>Decoding\<close>

function varint_decode_loop :: "bytes \<Rightarrow> nat \<Rightarrow> nat \<Rightarrow> u64 \<Rightarrow> u64 decoded" where
  "varint_decode_loop src i shift v =
     (if i < length src \<and> i < 10 then
        let b = src ! i; v' = v OR push_bit shift (ucast (b AND 0x7F)); i' = i + 1 in
        if b AND 0x80 = 0 then Inr (v', i')
        else varint_decode_loop src i' (shift + 7) v'
      else Inl (if i = 10 then GREMLIN_ERROR_OVERFLOW else GREMLIN_ERROR_TRUNCATED))"
  by pat_completeness auto
termination
  by (relation "measure (\<lambda>(src, i, shift, v). 10 - i)") auto

declare varint_decode_loop.simps [simp del]

definition gremlin_varint_decode :: "bytes \<Rightarrow> u64 decoded" where
  "gremlin_varint_decode src =
     (if length src \<ge> 1 \<and> src ! 0 < 128 then Inr (ucast (src ! 0), 1)
      else varint_decode_loop src 0 0 0)"

function varint32_decode_loop :: "bytes \<Rightarrow> nat \<Rightarrow> nat \<Rightarrow> u32 \<Rightarrow> u32 decoded" where
  "varint32_decode_loop src i shift v =
     (if i < length src \<and> i < 5 then
        let b = src ! i; v' = v OR push_bit shift (ucast (b AND 0x7F)); i' = i + 1 in
        if b AND 0x80 = 0 then Inr (v', i')
        else varint32_decode_loop src i' (shift + 7) v'
      else Inl (if i = 5 then GREMLIN_ERROR_OVERFLOW else GREMLIN_ERROR_TRUNCATED))"
  by pat_completeness auto
termination
  by (relation "measure (\<lambda>(src, i, shift, v). 5 - i)") auto

declare varint32_decode_loop.simps [simp del]

definition gremlin_varint32_decode :: "bytes \<Rightarrow> u32 decoded" where
  "gremlin_varint32_decode src =
     (if length src \<ge> 1 \<and> src ! 0 < 128 then Inr (ucast (src ! 0), 1)
      else varint32_decode_loop src 0 0 0)"

text \<open>
  One step of either loop: the next seven bits land above the ones gathered so
  far, so the bitwise or is an addition at weight \<open>128 ^ i\<close>.
\<close>

lemma gather_bits:
  fixes b :: u8
  assumes "a < 128 ^ i" and "7 * i \<le> LENGTH('a::len)" and "8 \<le> LENGTH('a)"
  shows "(word_of_nat a :: 'a word) OR push_bit (7 * i) (ucast (b AND 0x7F))
           = word_of_nat (a + 128 ^ i * (unat b mod 128))"
proof -
  have p: "(128::nat) ^ i = 2 ^ (7 * i)" by (simp add: power_mult)
  have "unat (word_of_nat a :: 'a word) \<le> a" by (simp add: unsigned_of_nat)
  then have "unat (word_of_nat a :: 'a word) < 2 ^ (7 * i)"
    using assms(1) p by simp
  then have "(word_of_nat a :: 'a word) OR push_bit (7 * i) (word_of_nat (unat b mod 128))
      = word_of_nat a + push_bit (7 * i) (word_of_nat (unat b mod 128))"
    by (rule or_push_bit_disjoint)
  moreover have "(ucast (b AND 0x7F) :: 'a word) = word_of_nat (unat b mod 128)"
    by (simp flip: unat_and_mask7)
  ultimately show ?thesis
    by (simp only:) (simp add: push_bit_eq_mult p mult.commute)
qed

text \<open>The value a decoder reports for a number the reference reader gives.\<close>

definition as_word :: "nat decoded \<Rightarrow> 'a::len word decoded" where
  "as_word r = map_sum id (map_prod word_of_nat id) r"

lemma as_word_simps [simp]:
  "as_word (Inl e) = Inl e"
  "as_word (Inr (v, n)) = Inr (word_of_nat v, n)"
  by (simp_all add: as_word_def)

lemma gathered_bound:
  fixes a :: nat
  assumes "a < 128 ^ i"
  shows "a + 128 ^ i * (k mod 128) < 128 ^ Suc i"
proof -
  have "128 ^ i * (k mod 128) \<le> 128 ^ i * (127 :: nat)"
    using mod_less_divisor [of 128 k] by (intro mult_le_mono2) linarith
  then have "a + 128 ^ i * (k mod 128) < 128 ^ i + 128 ^ i * 127"
    using assms by linarith
  also have "128 ^ i + 128 ^ i * 127 = (128 :: nat) ^ Suc i" by simp
  finally show ?thesis .
qed

lemma varint_decode_loop_leb128:
  assumes "a < 128 ^ i" and "i \<le> 10"
  shows "varint_decode_loop src i (7 * i) (word_of_nat a) =
           (case leb128_decode (10 - i) (drop i src) of Inl e \<Rightarrow> Inl e
            | Inr (v, n) \<Rightarrow> Inr (word_of_nat (a + 128 ^ i * v), i + n))"
  using assms
proof (induction "10 - i" arbitrary: i a)
  case 0
  then show ?case by (subst varint_decode_loop.simps) simp
next
  case (Suc k)
  show ?case
  proof (cases "i < length src")
    case False
    moreover have "i \<noteq> 10" using Suc.hyps(2) by simp
    ultimately show ?thesis
      by (subst varint_decode_loop.simps) (simp flip: Suc.hyps(2))
  next
    case True
    have k: "k = 10 - Suc i" using Suc.hyps(2) by simp
    have bits: "word_of_nat a OR push_bit (7 * i) (ucast (src ! i AND 0x7F))
        = (word_of_nat (a + 128 ^ i * (unat (src ! i) mod 128)) :: u64)"
      using Suc.prems Suc.hyps(2) by (intro gather_bits) auto
    have rest: "varint_decode_loop src (Suc i) (7 * Suc i)
          (word_of_nat (a + 128 ^ i * (unat (src ! i) mod 128)))
        = (case leb128_decode k (drop (Suc i) src) of Inl e \<Rightarrow> Inl e
           | Inr (v, n) \<Rightarrow> Inr (word_of_nat
               (a + 128 ^ i * (unat (src ! i) mod 128) + 128 ^ Suc i * v), Suc i + n))"
      using Suc.hyps(1) [of "Suc i", OF k gathered_bound [OF Suc.prems(1)]] Suc.hyps(2)
      by (simp only: k [symmetric])
    have "i < 10" and "10 - i = Suc k" using Suc.hyps(2) by simp_all
    moreover have "drop i src = src ! i # drop (Suc i) src"
      using True by (simp add: Cons_nth_drop_Suc)
    moreover have "varint_decode_loop src i (7 * i) (word_of_nat a) =
        (if unat (src ! i) < 128
         then Inr (word_of_nat (a + 128 ^ i * (unat (src ! i) mod 128)), Suc i)
         else varint_decode_loop src (Suc i) (7 * Suc i)
                (word_of_nat (a + 128 ^ i * (unat (src ! i) mod 128))))"
      using True \<open>i < 10\<close> and_bit7_zero_iff [of "src ! i"]
      by (subst varint_decode_loop.simps) (simp only: bits Let_def if_True simp_thms
           Suc_eq_plus1 distrib_left mult_1_right)
    ultimately show ?thesis
      by (simp only: rest) (simp add: algebra_simps split: sum.split del: of_nat_add of_nat_mult)
  qed
qed

lemma varint32_decode_loop_leb128:
  assumes "a < 128 ^ i" and "i \<le> 5"
  shows "varint32_decode_loop src i (7 * i) (word_of_nat a) =
           (case leb128_decode (5 - i) (drop i src) of Inl e \<Rightarrow> Inl e
            | Inr (v, n) \<Rightarrow> Inr (word_of_nat (a + 128 ^ i * v), i + n))"
  using assms
proof (induction "5 - i" arbitrary: i a)
  case 0
  then show ?case by (subst varint32_decode_loop.simps) simp
next
  case (Suc k)
  show ?case
  proof (cases "i < length src")
    case False
    moreover have "i \<noteq> 5" using Suc.hyps(2) by simp
    ultimately show ?thesis
      by (subst varint32_decode_loop.simps) (simp flip: Suc.hyps(2))
  next
    case True
    have k: "k = 5 - Suc i" using Suc.hyps(2) by simp
    have bits: "word_of_nat a OR push_bit (7 * i) (ucast (src ! i AND 0x7F))
        = (word_of_nat (a + 128 ^ i * (unat (src ! i) mod 128)) :: u32)"
      using Suc.prems Suc.hyps(2) by (intro gather_bits) auto
    have rest: "varint32_decode_loop src (Suc i) (7 * Suc i)
          (word_of_nat (a + 128 ^ i * (unat (src ! i) mod 128)))
        = (case leb128_decode k (drop (Suc i) src) of Inl e \<Rightarrow> Inl e
           | Inr (v, n) \<Rightarrow> Inr (word_of_nat
               (a + 128 ^ i * (unat (src ! i) mod 128) + 128 ^ Suc i * v), Suc i + n))"
      using Suc.hyps(1) [of "Suc i", OF k gathered_bound [OF Suc.prems(1)]] Suc.hyps(2)
      by (simp only: k [symmetric])
    have "i < 5" and "5 - i = Suc k" using Suc.hyps(2) by simp_all
    moreover have "drop i src = src ! i # drop (Suc i) src"
      using True by (simp add: Cons_nth_drop_Suc)
    moreover have "varint32_decode_loop src i (7 * i) (word_of_nat a) =
        (if unat (src ! i) < 128
         then Inr (word_of_nat (a + 128 ^ i * (unat (src ! i) mod 128)), Suc i)
         else varint32_decode_loop src (Suc i) (7 * Suc i)
                (word_of_nat (a + 128 ^ i * (unat (src ! i) mod 128))))"
      using True \<open>i < 5\<close> and_bit7_zero_iff [of "src ! i"]
      by (subst varint32_decode_loop.simps) (simp only: bits Let_def if_True simp_thms
           Suc_eq_plus1 distrib_left mult_1_right)
    ultimately show ?thesis
      by (simp only: rest) (simp add: algebra_simps split: sum.split del: of_nat_add of_nat_mult)
  qed
qed

lemma fast_path:
  "length src \<ge> 1 \<and> src ! 0 < 128 \<Longrightarrow>
   as_word (leb128_decode (Suc k) src) = (Inr (ucast (src ! 0), 1) :: 'a::len word decoded)"
  by (cases src) (auto simp: word_less_nat_alt)

lemma varint_decode_leb128: "gremlin_varint_decode src = as_word (leb128_decode 10 src)"
proof (cases "length src \<ge> 1 \<and> src ! 0 < 128")
  case True
  have "as_word (leb128_decode (Suc 9) src) = (Inr (ucast (src ! 0), 1) :: u64 decoded)"
    by (rule fast_path [OF True])
  with True show ?thesis by (simp add: gremlin_varint_decode_def)
next
  case False
  then have "gremlin_varint_decode src = varint_decode_loop src 0 0 0"
    unfolding gremlin_varint_decode_def by (rule if_not_P)
  then show ?thesis
    using varint_decode_loop_leb128 [of 0 0 src] by (simp add: as_word_def split: sum.split)
qed

lemma varint32_decode_leb128: "gremlin_varint32_decode src = as_word (leb128_decode 5 src)"
proof (cases "length src \<ge> 1 \<and> src ! 0 < 128")
  case True
  have "as_word (leb128_decode (Suc 4) src) = (Inr (ucast (src ! 0), 1) :: u32 decoded)"
    by (rule fast_path [OF True])
  with True show ?thesis by (simp add: gremlin_varint32_decode_def)
next
  case False
  then have "gremlin_varint32_decode src = varint32_decode_loop src 0 0 0"
    unfolding gremlin_varint32_decode_def by (rule if_not_P)
  then show ?thesis
    using varint32_decode_loop_leb128 [of 0 0 src] by (simp add: as_word_def split: sum.split)
qed

text \<open>What the callers of the decoders rely on.\<close>

lemma as_word_InrD:
  "as_word r = Inr (w, n) \<Longrightarrow> \<exists>v. r = Inr (v, n) \<and> w = word_of_nat v"
  by (cases r) auto

lemma varint_decode_consumed:
  "gremlin_varint_decode src = Inr (w, n) \<Longrightarrow> 1 \<le> n \<and> n \<le> 10 \<and> n \<le> length src"
  unfolding varint_decode_leb128
  by (drule as_word_InrD) (auto dest: leb128_decode_consumed)

lemma varint32_decode_consumed:
  "gremlin_varint32_decode src = Inr (w, n) \<Longrightarrow> 1 \<le> n \<and> n \<le> 5 \<and> n \<le> length src"
  unfolding varint32_decode_leb128
  by (drule as_word_InrD) (auto dest: leb128_decode_consumed)

lemma as_word_InlD: "as_word r = Inl e \<Longrightarrow> r = Inl e"
  by (cases r) auto

lemma varint_decode_errors:
  "gremlin_varint_decode src = Inl e \<Longrightarrow>
   (e = GREMLIN_ERROR_TRUNCATED \<and> length src < 10) \<or>
   (e = GREMLIN_ERROR_OVERFLOW \<and> 10 \<le> length src)"
  unfolding varint_decode_leb128
  using leb128_decode_errors leb128_decode_truncated leb128_decode_overflow
  by (metis as_word_InlD)

lemma varint_decode_image:
  "gremlin_varint_decode (leb128 (unat v) @ rest) = Inr (v, varint_size (unat v))"
proof -
  have "length (leb128 (unat v)) = varint_size (unat v)"
    using unsigned_less [of v] by (intro length_leb128) simp
  then show ?thesis
    using varint_size_bounds(2) [of "unat v"]
    by (simp add: varint_decode_leb128 leb128_decode_leb128)
qed

lemma varint32_decode_image:
  "gremlin_varint32_decode (leb128 (unat v) @ rest) = Inr (v, varint_size (unat v))"
proof -
  have lim: "unat v < 2 ^ 32" using unsigned_less [of v] by simp
  then have "length (leb128 (unat v)) = varint_size (unat v)"
    by (intro length_leb128) simp
  then show ?thesis
    using varint_size_32 [OF lim] by (simp add: varint32_decode_leb128 leb128_decode_leb128)
qed

interpretation varint: wire_codec "\<lambda>_. True" "\<lambda>v. leb128 (unat v)" "gremlin_varint_size gnu"
    gremlin_varint_encode_at gremlin_varint_decode
  for gnu
proof unfold_locales
  fix v :: u64
  have len: "length (leb128 (unat v)) = varint_size (unat v)"
    using unsigned_less [of v] by (intro length_leb128) simp
  then show "gremlin_varint_size gnu v = length (leb128 (unat v))"
    by (simp add: varint_size_spec)
  show "gremlin_varint_encode_at mem off v
      = Some (blit mem off (leb128 (unat v)), off + gremlin_varint_size gnu v)"
    if "off + gremlin_varint_size gnu v \<le> length mem" for mem off
    using that by (simp add: varint_encode_at_store varint_size_spec store_list_blit len)
  show "gremlin_varint_encode_at mem off v = None"
    if "length mem < off + gremlin_varint_size gnu v" for mem off
    using that by (simp add: varint_encode_at_store varint_size_spec store_list_overrun len)
  show "gremlin_varint_decode (leb128 (unat v) @ rest) = Inr (v, gremlin_varint_size gnu v)"
    for rest by (simp add: varint_decode_image varint_size_spec)
qed (use varint_decode_consumed in force)

interpretation varint32: wire_codec "\<lambda>_. True" "\<lambda>v. leb128 (unat v)" gremlin_varint32_size
    gremlin_varint32_encode_at gremlin_varint32_decode
proof unfold_locales
  fix v :: u32
  have "unat v < 2 ^ 32" using unsigned_less [of v] by simp
  then have len: "length (leb128 (unat v)) = varint_size (unat v)"
    by (intro length_leb128) simp
  then show "gremlin_varint32_size v = length (leb128 (unat v))"
    by (simp add: varint32_size_spec)
  show "gremlin_varint32_encode_at mem off v
      = Some (blit mem off (leb128 (unat v)), off + gremlin_varint32_size v)"
    if "off + gremlin_varint32_size v \<le> length mem" for mem off
    using that by (simp add: varint32_encode_at_store varint32_size_spec store_list_blit len)
  show "gremlin_varint32_encode_at mem off v = None"
    if "length mem < off + gremlin_varint32_size v" for mem off
    using that by (simp add: varint32_encode_at_store varint32_size_spec store_list_overrun len)
  show "gremlin_varint32_decode (leb128 (unat v) @ rest) = Inr (v, gremlin_varint32_size v)"
    for rest by (simp add: varint32_decode_image varint32_size_spec)
qed (use varint32_decode_consumed in force)

section \<open>Properties\<close>

text \<open>C23. Both size functions, the comparison cascade and the leading-zero count, give
  the length of the canonical base-128 encoding of every 64-bit value, so the preprocessor
  choice between them does not show; the 32-bit cascade agrees with them.\<close>
theorem varint_size_correct:
  "gremlin_varint_size gnu v = length (leb128 (unat v)) \<and>
   gremlin_varint_size_clz v = gremlin_varint_size_cascade v \<and>
   1 \<le> gremlin_varint_size gnu v \<and> gremlin_varint_size gnu v \<le> 10 \<and>
   gremlin_varint32_size w = length (leb128 (unat w)) \<and> gremlin_varint32_size w \<le> 5"
  using varint.vsize_image [of gnu v] varint32.vsize_image [of w]
    varint_size_bounds [of "unat v"]
    varint_size_32 [of "unat w"] unsigned_less [of w]
  by (simp add: clz_varint_size cascade_varint_size varint32_size_spec varint_size_spec)

text \<open>C22. Given room for the size, \<open>gremlin_varint_encode_at\<close> writes exactly the bytes
  \<open>varint_byte\<close> prescribes, changes no other byte, stays inside the block and returns the
  next offset.\<close>
theorem varint_encode_at_writes:
  assumes "off + varint_size (unat v) \<le> length mem"
  shows "\<exists>mem'. gremlin_varint_encode_at mem off v = Some (mem', off + varint_size (unat v)) \<and>
    length mem' = length mem \<and>
    (\<forall>k. k < varint_size (unat v) \<longrightarrow> mem' ! (off + k) = word_of_nat (varint_byte (unat v) k)) \<and>
    (\<forall>k. k < off \<or> off + varint_size (unat v) \<le> k \<longrightarrow> mem' ! k = mem ! k)"
proof -
  have len: "length (leb128 (unat v)) = varint_size (unat v)"
    using varint.vsize_image [of True v] by (simp add: varint_size_spec)
  have "gremlin_varint_encode_at mem off v
      = Some (blit mem off (leb128 (unat v)), off + varint_size (unat v))"
    using varint.enc_image [of off True v mem] assms by (simp add: varint_size_spec)
  with len assms show ?thesis
    by (auto simp: nth_blit_in nth_blit_out nth_leb128)
qed

theorem varint_encode_at_writes_witness:
  "\<exists>mem'. gremlin_varint_encode_at [1, 2, 3, 4] 1 300 = Some (mem', 3) \<and>
     mem' ! 1 = 0xAC \<and> mem' ! 2 = 0x02 \<and> mem' ! 3 = 4"
proof -
  have s: "varint_size (unat (300 :: u64)) = 2" by (simp add: varint_size_def)
  have room: "1 + 2 \<le> length ([1, 2, 3, 4] :: bytes)" by simp
  obtain mem' where m: "gremlin_varint_encode_at [1, 2, 3, 4] 1 300 = Some (mem', 1 + 2)"
      and inside: "\<And>k. k < 2 \<Longrightarrow> mem' ! (1 + k) = word_of_nat (varint_byte (unat (300 :: u64)) k)"
      and outside: "\<And>k. k < 1 \<or> 1 + 2 \<le> k \<Longrightarrow> mem' ! k = [1, 2, 3, 4] ! k"
    using varint_encode_at_writes [of 1 300 "[1, 2, 3, 4]", unfolded s, OF room] by blast
  show ?thesis
    using m inside [of 0] inside [of 1] outside [of 3]
    by (simp add: numeral_2_eq_2 [symmetric] varint_byte.simps(2) [of _ 0, simplified])
qed

text \<open>C2. \<open>gremlin_varint_decode\<close> is the reference base-128 reader limited to ten bytes,
  its value taken modulo \<open>2 ^ 64\<close>: the shifts and bitwise ors of the loop, the one-byte
  fast path and the two error codes are that function.  The 32-bit decoder is the same
  reader limited to five bytes.\<close>
theorem varint_decode_correct:
  "gremlin_varint_decode src = as_word (leb128_decode 10 src) \<and>
   gremlin_varint32_decode src = as_word (leb128_decode 5 src)"
  by (simp add: varint_decode_leb128 varint32_decode_leb128)

text \<open>C3. What is encoded is read back: after \<open>gremlin_varint_encode_at\<close> with room, decoding
  at the same offset gives the value and the size, whatever bytes follow; 64 and 32 bit.\<close>
theorem varint_roundtrip:
  assumes "off + gremlin_varint_size gnu v \<le> length mem"
    and "off32 + gremlin_varint32_size w \<le> length mem"
  shows "(\<exists>mem'. gremlin_varint_encode_at mem off v = Some (mem', off + gremlin_varint_size gnu v) \<and>
            gremlin_varint_decode (drop off mem') = Inr (v, gremlin_varint_size gnu v)) \<and>
         (\<exists>mem'. gremlin_varint32_encode_at mem off32 w = Some (mem', off32 + gremlin_varint32_size w) \<and>
            gremlin_varint32_decode (drop off32 mem') = Inr (w, gremlin_varint32_size w))"
  using varint.roundtrip_at [OF _ assms(1)] varint32.roundtrip_at [OF _ assms(2)] by metis

theorem varint_roundtrip_witness:
  "\<exists>mem'. gremlin_varint_encode_at (replicate 12 0) 2 0xFFFFFFFFFFFFFFFF = Some (mem', 12) \<and>
     gremlin_varint_decode (drop 2 mem') = Inr (0xFFFFFFFFFFFFFFFF, 10)"
  using varint_roundtrip [of 2 False "0xFFFFFFFFFFFFFFFF" "replicate 12 0" 0 0]
  by (simp add: gremlin_varint_size_def gremlin_varint_size_cascade_def
      gremlin_varint32_size_def)


text \<open>The encoders that take a \<open>struct gremlin_writer\<close> do to the writer's block and
  cursor what the versions at an offset do, faults included.\<close>
theorem varint_writer_equiv:
  "gremlin_varint_encode w v = writer_at w (gremlin_varint_encode_at (gw_buf w) (gw_offset w) v) \<and>
   gremlin_varint32_encode w u = writer_at w (gremlin_varint32_encode_at (gw_buf w) (gw_offset w) u)"
  by (simp add: varint_encode_at_writer varint32_encode_at_writer)

text \<open>A run of varints, the payload of a packed repeated field, is written into a
  block that holds the sum of the sizes and read back value by value.\<close>
theorem packed_varints_roundtrip:
  assumes "off + sum_list (map (gremlin_varint_size gnu) vs) \<le> length mem"
  shows "\<exists>mem'. encode_run gremlin_varint_encode_at mem off vs
             = Some (mem', off + sum_list (map (gremlin_varint_size gnu) vs)) \<and>
           length mem' = length mem \<and> take off mem' = take off mem \<and>
           decode_run gremlin_varint_decode (length vs) (drop off mem')
             = Inr (vs, sum_list (map (gremlin_varint_size gnu) vs))"
  by (rule varint.run_roundtrip) (simp_all add: assms list_all_iff)

theorem packed_varints_roundtrip_witness:
  "\<exists>mem'. encode_run gremlin_varint_encode_at (replicate 8 0) 1 [3, 270, 86942] = Some (mem', 7) \<and>
     decode_run gremlin_varint_decode 3 (drop 1 mem') = Inr ([3, 270, 86942], 6)"
  using packed_varints_roundtrip [of 1 False "[3, 270, 86942]" "replicate 8 0"]
  by (auto simp: gremlin_varint_size_def gremlin_varint_size_cascade_def numeral_3_eq_3
      simp del: encode_run.simps decode_run.simps)

end
