(* ===== verification/Runtime_Bytes.thy ===== *)
theory Runtime_Bytes
  imports Runtime_Varint
begin

text \<open>
  The length-prefixed byte sequences of \<open>runtime/include/gremlin.h\<close>: the copies
  into a writer or at an offset (both branches of the preprocessor condition)
  and the zero-copy decoders.  A \<open>struct gremlin_bytes\<close> points into the decoded
  slice: its \<open>data\<close> is the offset there.
\<close>

section \<open>Operations\<close>

record gremlin_bytes =
  gb_data :: nat
  gb_len :: nat

text \<open>\<open>memcpy\<close> of the standard library, on disjoint blocks.\<close>

definition builtin_memcpy :: "bytes \<Rightarrow> nat \<Rightarrow> bytes \<Rightarrow> bytes option" where
  "builtin_memcpy mem off src =
     (if off + length src \<le> length mem then Some (blit mem off src) else None)"

function write_bytes_at_loop :: "bytes \<Rightarrow> nat \<Rightarrow> bytes \<Rightarrow> nat \<Rightarrow> bytes option" where
  "write_bytes_at_loop mem off src i =
     (if i < length src then
        do { mem' \<leftarrow> store mem (off + i) (src ! i);
             write_bytes_at_loop mem' off src (i + 1) }
      else Some mem)"
  by pat_completeness auto
termination by (relation "measure (\<lambda>(mem, off, src, i). length src - i)") auto

declare write_bytes_at_loop.simps [simp del]

definition gremlin_write_bytes_at ::
  "bool \<Rightarrow> bytes \<Rightarrow> nat \<Rightarrow> bytes \<Rightarrow> (bytes \<times> nat) option" where
  "gremlin_write_bytes_at gnu mem off src =
     (if gnu then do { mem' \<leftarrow> builtin_memcpy mem off src; Some (mem', off + length src) }
      else do { mem' \<leftarrow> write_bytes_at_loop mem off src 0; Some (mem', off + length src) })"

function write_bytes_loop :: "gremlin_writer \<Rightarrow> bytes \<Rightarrow> nat \<Rightarrow> gremlin_writer option" where
  "write_bytes_loop w src i =
     (if i < length src then
        do { mem \<leftarrow> store (gw_buf w) (gw_offset w) (src ! i);
             write_bytes_loop (w\<lparr>gw_buf := mem, gw_offset := gw_offset w + 1\<rparr>) src (i + 1) }
      else Some w)"
  by pat_completeness auto
termination by (relation "measure (\<lambda>(w, src, i). length src - i)") auto

declare write_bytes_loop.simps [simp del]

definition gremlin_write_bytes ::
  "bool \<Rightarrow> gremlin_writer \<Rightarrow> bytes \<Rightarrow> gremlin_writer option" where
  "gremlin_write_bytes gnu w src =
     (if gnu then
        do { mem \<leftarrow> builtin_memcpy (gw_buf w) (gw_offset w) src;
             Some (w\<lparr>gw_buf := mem, gw_offset := gw_offset w + length src\<rparr>) }
      else write_bytes_loop w src 0)"

definition gremlin_bytes_decode :: "bytes \<Rightarrow> gremlin_bytes decoded" where
  "gremlin_bytes_decode src =
     (case gremlin_varint_decode src of Inl e \<Rightarrow> Inl e
      | Inr (v, n) \<Rightarrow>
          if unat v > length src - n then Inl GREMLIN_ERROR_TRUNCATED
          else Inr (\<lparr>gb_data = n, gb_len = unat v\<rparr>, n + unat v))"

definition gremlin_bytes_decode_at :: "bytes \<Rightarrow> nat \<Rightarrow> gremlin_bytes decoded" where
  "gremlin_bytes_decode_at src off =
     (if off = length src then gremlin_bytes_decode []
      else map_sum id (\<lambda>(b, n). (b\<lparr>gb_data := off + gb_data b\<rparr>, n))
             (gremlin_bytes_decode (drop off src)))"

section \<open>Copies\<close>

lemma write_bytes_at_loop_store:
  "write_bytes_at_loop mem off src i = store_list mem (off + i) (drop i src)"
proof (induction mem off src i rule: write_bytes_at_loop.induct)
  case (1 mem off src i)
  show ?case
  proof (cases "i < length src")
    case True
    then have "drop i src = src ! i # drop (Suc i) src"
      by (simp add: Cons_nth_drop_Suc)
    with 1 True show ?thesis
      by (subst write_bytes_at_loop.simps) (simp split: option.split Option.bind_split)
  qed (subst write_bytes_at_loop.simps, simp)
qed

lemma write_bytes_loop_store:
  "write_bytes_loop w src i =
     do { mem \<leftarrow> store_list (gw_buf w) (gw_offset w) (drop i src);
          Some (w\<lparr>gw_buf := mem, gw_offset := gw_offset w + length (drop i src)\<rparr>) }"
proof (induction w src i rule: write_bytes_loop.induct)
  case (1 w src i)
  show ?case
  proof (cases "i < length src")
    case True
    then have "drop i src = src ! i # drop (Suc i) src"
      by (simp add: Cons_nth_drop_Suc)
    with 1 True show ?thesis
      by (subst write_bytes_loop.simps) (simp split: option.split Option.bind_split)
  qed (subst write_bytes_loop.simps, simp)
qed

lemma builtin_memcpy_store:
  "src \<noteq> [] \<or> off \<le> length mem \<Longrightarrow> builtin_memcpy mem off src = store_list mem off src"
  by (cases "src = []"; cases "off + length src \<le> length mem")
     (auto simp: builtin_memcpy_def store_list_blit store_list_overrun)

lemma write_bytes_at_blit:
  "off + length src \<le> length mem \<Longrightarrow>
   gremlin_write_bytes_at gnu mem off src = Some (blit mem off src, off + length src)"
  by (simp add: gremlin_write_bytes_at_def builtin_memcpy_def write_bytes_at_loop_store
        store_list_blit)

lemma write_bytes_at_overrun:
  "length mem < off + length src \<Longrightarrow> src \<noteq> [] \<Longrightarrow>
   gremlin_write_bytes_at gnu mem off src = None"
  by (simp add: gremlin_write_bytes_at_def builtin_memcpy_def write_bytes_at_loop_store
        store_list_overrun)

lemma write_bytes_at_writer:
  "src \<noteq> [] \<or> gw_offset w \<le> length (gw_buf w) \<Longrightarrow>
   gremlin_write_bytes gnu w src
     = writer_at w (gremlin_write_bytes_at gnu' (gw_buf w) (gw_offset w) src)"
  by (simp add: gremlin_write_bytes_def gremlin_write_bytes_at_def builtin_memcpy_store
        write_bytes_loop_store write_bytes_at_loop_store split: Option.bind_split)

section \<open>Slices\<close>

definition span_in :: "gremlin_bytes \<Rightarrow> bytes \<Rightarrow> bool" where
  "span_in b src \<longleftrightarrow> gb_data b + gb_len b \<le> length src"

definition span_bytes :: "gremlin_bytes \<Rightarrow> bytes \<Rightarrow> bytes" where
  "span_bytes b src = take (gb_len b) (drop (gb_data b) src)"

lemma bytes_decode_layout:
  assumes "gremlin_bytes_decode src = Inr (b, n)"
  shows "gb_len b < n \<and> n \<le> length src \<and> gb_data b = n - gb_len b \<and>
         gremlin_varint_decode src = Inr (word_of_nat (gb_len b), gb_data b)"
proof -
  obtain v c where d: "gremlin_varint_decode src = Inr (v, c)"
      and le: "unat v \<le> length src - c" and b: "b = \<lparr>gb_data = c, gb_len = unat v\<rparr>"
      and n: "n = c + unat v"
    using assms by (auto simp: gremlin_bytes_decode_def split: sum.splits if_splits)
  then show ?thesis
    using varint_decode_consumed [OF d] by auto
qed

lemma bytes_decode_at_span:
  assumes "off \<le> length src" and "gremlin_bytes_decode_at src off = Inr (b, n)"
  shows "0 < n \<and> n \<le> length src - off \<and> span_in b src"
proof -
  have ne: "off \<noteq> length src"
    using assms(2) by (auto simp: gremlin_bytes_decode_at_def gremlin_bytes_decode_def
        varint_decode_leb128 leb128_decode.simps(2) [of 9, simplified])
  then obtain b' where d: "gremlin_bytes_decode (drop off src) = Inr (b', n)"
      and b: "b = b'\<lparr>gb_data := off + gb_data b'\<rparr>"
    using assms(2) by (auto simp: gremlin_bytes_decode_at_def map_sum_def split: sum.splits)
  show ?thesis
    using bytes_decode_layout [OF d] assms(1) ne by (auto simp: b span_in_def)
qed

lemma bytes_decode_image:
  assumes "length bs < 2 ^ 64"
  shows "gremlin_bytes_decode (leb128 (length bs) @ bs @ rest) =
    Inr (\<lparr>gb_data = varint_size (length bs), gb_len = length bs\<rparr>,
         varint_size (length bs) + length bs)"
proof -
  have u: "unat (word_of_nat (length bs) :: u64) = length bs"
    using assms by (simp add: unat_of_nat)
  have "length (leb128 (length bs)) = varint_size (length bs)"
    using assms by (rule length_leb128)
  then show ?thesis
    using varint_decode_image [of "word_of_nat (length bs)" "bs @ rest"]
    by (simp add: gremlin_bytes_decode_def u del: unsigned_of_nat)
qed

section \<open>A length prefix and its payload\<close>

text \<open>
  The way a string, bytes or message field is written and read: the length as a
  varint, the payload behind it.
\<close>

definition len_prefixed_size :: "bool \<Rightarrow> bytes \<Rightarrow> nat" where
  "len_prefixed_size gnu bs = gremlin_varint_size gnu (word_of_nat (length bs)) + length bs"

definition len_prefixed_encode_at ::
  "bool \<Rightarrow> bytes \<Rightarrow> nat \<Rightarrow> bytes \<Rightarrow> (bytes \<times> nat) option" where
  "len_prefixed_encode_at gnu mem off bs =
     do { (mem', off') \<leftarrow> gremlin_varint_encode_at mem off (word_of_nat (length bs));
          gremlin_write_bytes_at gnu mem' off' bs }"

definition len_prefixed_read :: "bytes \<Rightarrow> bytes decoded" where
  "len_prefixed_read src =
     map_sum id (\<lambda>(b, n). (span_bytes b src, n)) (gremlin_bytes_decode src)"

lemma len_prefixed_encode_at_blit:
  assumes "length bs < 2 ^ 64" and "off + varint_size (length bs) + length bs \<le> length mem"
  shows "len_prefixed_encode_at gnu mem off bs =
    Some (blit mem off (leb128 (length bs) @ bs), off + varint_size (length bs) + length bs)"
proof -
  have u: "unat (word_of_nat (length bs) :: u64) = length bs"
    using assms by (simp add: unat_of_nat)
  have l: "length (leb128 (length bs)) = varint_size (length bs)"
    using assms(1) by (rule length_leb128)
  then show ?thesis
    using assms(2) blit_blit_adjacent [of off "leb128 (length bs)" bs mem]
    by (simp add: len_prefixed_encode_at_def varint_encode_at_store u store_list_blit
          write_bytes_at_blit del: unsigned_of_nat)
qed

lemma len_prefixed_encode_at_overrun:
  assumes "length bs < 2 ^ 64" and "length mem < off + varint_size (length bs) + length bs"
  shows "len_prefixed_encode_at gnu mem off bs = None"
proof -
  have u: "unat (word_of_nat (length bs) :: u64) = length bs"
    using assms by (simp add: unat_of_nat)
  have l: "length (leb128 (length bs)) = varint_size (length bs)"
    using assms(1) by (rule length_leb128)
  show ?thesis
  proof (cases "off + varint_size (length bs) \<le> length mem")
    case True
    then show ?thesis
      using assms(2) l by (simp add: len_prefixed_encode_at_def varint_encode_at_store u
          store_list_blit write_bytes_at_overrun del: unsigned_of_nat)
         (subst write_bytes_at_overrun, auto)
  next
    case False
    then show ?thesis
      using l by (simp add: len_prefixed_encode_at_def varint_encode_at_store u
          store_list_overrun del: unsigned_of_nat)
  qed
qed

interpretation payload: wire_codec "\<lambda>bs. length bs < 2 ^ 64" "\<lambda>bs. leb128 (length bs) @ bs"
    "len_prefixed_size gnu" "len_prefixed_encode_at gnu" len_prefixed_read
  for gnu
proof unfold_locales
  fix bs :: bytes
  assume lim: "length bs < 2 ^ 64"
  have l: "length (leb128 (length bs)) = varint_size (length bs)"
    using lim by (rule length_leb128)
  have s: "len_prefixed_size gnu bs = varint_size (length bs) + length bs"
    using lim by (simp add: len_prefixed_size_def varint_size_spec unat_of_nat)
  show "len_prefixed_size gnu bs = length (leb128 (length bs) @ bs)"
    by (simp add: s l)
  show "len_prefixed_encode_at gnu mem off bs
      = Some (blit mem off (leb128 (length bs) @ bs), off + len_prefixed_size gnu bs)"
    if "off + len_prefixed_size gnu bs \<le> length mem" for mem off
    using that lim by (simp add: s len_prefixed_encode_at_blit add.assoc)
  show "len_prefixed_encode_at gnu mem off bs = None"
    if "length mem < off + len_prefixed_size gnu bs" for mem off
    using that lim by (simp add: s len_prefixed_encode_at_overrun add.assoc)
  show "len_prefixed_read ((leb128 (length bs) @ bs) @ rest) = Inr (bs, len_prefixed_size gnu bs)"
    for rest
    using bytes_decode_image [OF lim, of rest]
    by (simp add: len_prefixed_read_def span_bytes_def s flip: l)
next
  fix src bs n
  assume "len_prefixed_read src = Inr (bs, n)"
  then obtain b where "gremlin_bytes_decode src = Inr (b, n)"
    by (auto simp: len_prefixed_read_def map_sum_def split: sum.splits)
  then show "0 < n \<and> n \<le> length src" using bytes_decode_layout by fastforce
qed

section \<open>Properties\<close>

text \<open>The span \<open>gremlin_bytes_decode_at\<close> reports lies inside the source slice, and the
  read consumes at least one byte and no more than the slice has left.\<close>
theorem bytes_decode_at_contained:
  assumes "off \<le> length src" and "gremlin_bytes_decode_at src off = Inr (b, n)"
  shows "0 < n \<and> off + n \<le> length src \<and> span_in b src \<and> gb_data b + gb_len b = off + n"
proof -
  have ne: "off \<noteq> length src"
    using assms(2) bytes_decode_layout [of "[]" b n]
    by (auto simp: gremlin_bytes_decode_at_def)
  then obtain b' where d: "gremlin_bytes_decode (drop off src) = Inr (b', n)"
      and b: "b = b'\<lparr>gb_data := off + gb_data b'\<rparr>"
    using assms(2) by (auto simp: gremlin_bytes_decode_at_def map_sum_def split: sum.splits)
  show ?thesis
    using bytes_decode_layout [OF d] bytes_decode_at_span [OF assms] by (auto simp: b)
qed

theorem bytes_decode_at_contained_witness:
  "0 < (3::nat) \<and> 1 + 3 \<le> length ([9, 2, 7, 8] :: bytes) \<and>
   span_in \<lparr>gb_data = 2, gb_len = 2\<rparr> [9, 2, 7, 8]"
proof -
  have "gremlin_varint_decode [2, 7, 8] = Inr (2, 1)"
    by (simp add: gremlin_varint_decode_def)
  then have "gremlin_bytes_decode_at [9, 2, 7, 8] 1 = Inr (\<lparr>gb_data = 2, gb_len = 2\<rparr>, 3)"
    by (simp add: gremlin_bytes_decode_at_def gremlin_bytes_decode_def)
  then show ?thesis
    using bytes_decode_at_contained [of 1 "[9, 2, 7, 8]" "\<lparr>gb_data = 2, gb_len = 2\<rparr>" 3] by simp
qed

text \<open>C24. A payload written behind its length prefix is read back whole, by either branch of
  the copy, and the bytes in front of it are untouched.\<close>
theorem payload_roundtrip:
  assumes "length bs < 2 ^ 64" and "off + len_prefixed_size gnu bs \<le> length mem"
  shows "\<exists>mem' mid. gremlin_varint_encode_at mem off (word_of_nat (length bs)) = Some (mid, off + gremlin_varint_size gnu (word_of_nat (length bs))) \<and>
    gremlin_write_bytes_at gnu mid (off + gremlin_varint_size gnu (word_of_nat (length bs))) bs
      = Some (mem', off + len_prefixed_size gnu bs) \<and>
    take off mem' = take off mem \<and>
    (\<exists>b. gremlin_bytes_decode (drop off mem') = Inr (b, len_prefixed_size gnu bs) \<and>
         span_bytes b (drop off mem') = bs)"
proof -
  obtain mem' where e: "len_prefixed_encode_at gnu mem off bs = Some (mem', off + len_prefixed_size gnu bs)"
      and t: "take off mem' = take off mem"
      and d: "len_prefixed_read (drop off mem') = Inr (bs, len_prefixed_size gnu bs)"
    by (rule payload.roundtrip_at [OF assms])
  have "off + gremlin_varint_size gnu (word_of_nat (length bs)) \<le> length mem"
    using assms(2) by (simp add: len_prefixed_size_def)
  then obtain mid where "gremlin_varint_encode_at mem off (word_of_nat (length bs))
      = Some (mid, off + gremlin_varint_size gnu (word_of_nat (length bs)))"
    using varint.enc_image [of off gnu "word_of_nat (length bs)" mem] by simp
  with e t d show ?thesis
    by (auto simp: len_prefixed_encode_at_def len_prefixed_read_def map_sum_def split: sum.splits)
qed

theorem payload_roundtrip_witness:
  "\<exists>mem'. (\<exists>b. gremlin_bytes_decode (drop 1 mem') = Inr (b, 4) \<and>
             span_bytes b (drop 1 mem') = [7, 8, 9])"
proof -
  have s: "len_prefixed_size False [7, 8, 9] = 4"
    by (simp add: len_prefixed_size_def gremlin_varint_size_def gremlin_varint_size_cascade_def)
  show ?thesis
    using payload_roundtrip [of "[7, 8, 9]" 1 False "replicate 6 0", unfolded s] by auto
qed

text \<open>Copying bytes through the writer is the copy at an offset; the compiler builtin and
  the byte loop are the same copy whenever the target address exists.\<close>
theorem write_bytes_equiv:
  assumes "off \<le> length mem" and "gw_offset w \<le> length (gw_buf w)"
  shows "gremlin_write_bytes_at True mem off src = gremlin_write_bytes_at False mem off src \<and>
    gremlin_write_bytes gnu w src
      = writer_at w (gremlin_write_bytes_at gnu' (gw_buf w) (gw_offset w) src) \<and>
    (off + length src \<le> length mem \<longrightarrow>
       gremlin_write_bytes_at gnu mem off src = Some (blit mem off src, off + length src))"
  using assms write_bytes_at_writer [of src w gnu gnu']
  by (simp add: write_bytes_at_blit gremlin_write_bytes_at_def builtin_memcpy_store
      write_bytes_at_loop_store store_list_blit)

theorem write_bytes_equiv_witness:
  "gremlin_write_bytes_at True [1, 2, 3] 1 [7, 8] = Some ([1, 7, 8], 3)"
  using write_bytes_equiv [of 1 "[1, 2, 3]" "gremlin_writer_init [0] 1" "[7, 8]" True True]
  by (auto simp: gremlin_writer_init_def blit_def eval_nat_numeral)

end
