(* ===== verification/Runtime_Skip.thy ===== *)
theory Runtime_Skip
  imports Runtime_Bytes
begin

text \<open>
  \<open>gremlin_skip_data\<close> of \<open>runtime/include/gremlin.h\<close>: advance past the payload of a
  field whose tag has been read, with the iteration over the fields of a group
  (wire types 3 and 4) and its \<open>unsigned\<close> nesting counter; and the reference
  syntax of wire fields, groups nested at will, that it is measured against.
\<close>

section \<open>Operation\<close>

fun wire_number :: "gremlin_wire_type \<Rightarrow> nat" where
  "wire_number GREMLIN_WIRE_VARINT = 0"
| "wire_number GREMLIN_WIRE_FIXED64 = 1"
| "wire_number GREMLIN_WIRE_LEN_PREFIX = 2"
| "wire_number GREMLIN_WIRE_SGROUP = 3"
| "wire_number GREMLIN_WIRE_EGROUP = 4"
| "wire_number GREMLIN_WIRE_FIXED32 = 5"

function skip_group_loop :: "bytes \<Rightarrow> u32 \<Rightarrow> nat \<Rightarrow> gremlin_error + nat" where
  "skip_group_loop src depth off =
     (if depth > 0 then
        (case gremlin_varint_decode (drop off src) of
           Inl e \<Rightarrow> Inl e
         | Inr (t, c) \<Rightarrow>
             (let off' = off + c; inner_wt = unat (t mod 8) in
              if inner_wt = 6 \<or> inner_wt = 7 then Inl GREMLIN_ERROR_INVALID_WIRE_TYPE
              else if inner_wt = wire_number GREMLIN_WIRE_SGROUP
              then skip_group_loop src (depth + 1) off'
              else if inner_wt = wire_number GREMLIN_WIRE_EGROUP
              then skip_group_loop src (depth - 1) off'
              else
                (let remain = length src - off' in
                 if inner_wt = wire_number GREMLIN_WIRE_VARINT then
                   (case gremlin_varint_decode (drop off' src) of
                      Inl e \<Rightarrow> Inl e
                    | Inr (_, d) \<Rightarrow> skip_group_loop src depth (off' + d))
                 else if inner_wt = wire_number GREMLIN_WIRE_FIXED32 then
                   (if remain < 4 then Inl GREMLIN_ERROR_TRUNCATED
                    else skip_group_loop src depth (off' + 4))
                 else if inner_wt = wire_number GREMLIN_WIRE_FIXED64 then
                   (if remain < 8 then Inl GREMLIN_ERROR_TRUNCATED
                    else skip_group_loop src depth (off' + 8))
                 else
                   (case gremlin_varint_decode (drop off' src) of
                      Inl e \<Rightarrow> Inl e
                    | Inr (v, d) \<Rightarrow>
                        if unat v > remain - d then Inl GREMLIN_ERROR_TRUNCATED
                        else skip_group_loop src depth (off' + d + unat v)))))
      else Inr off)"
  by pat_completeness auto
termination
proof (relation "measure (\<lambda>(src, depth, off). length src - off)")
qed (auto dest!: varint_decode_consumed)

declare skip_group_loop.simps [simp del]

definition gremlin_skip_data :: "bytes \<Rightarrow> gremlin_wire_type \<Rightarrow> gremlin_error + nat" where
  "gremlin_skip_data src wt =
     (if wt = GREMLIN_WIRE_VARINT then
        (case gremlin_varint_decode src of Inl e \<Rightarrow> Inl e | Inr (_, d) \<Rightarrow> Inr d)
      else if wt = GREMLIN_WIRE_FIXED32 then
        (if length src < 4 then Inl GREMLIN_ERROR_TRUNCATED else Inr 4)
      else if wt = GREMLIN_WIRE_FIXED64 then
        (if length src < 8 then Inl GREMLIN_ERROR_TRUNCATED else Inr 8)
      else if wt = GREMLIN_WIRE_LEN_PREFIX then
        (case gremlin_varint_decode src of
           Inl e \<Rightarrow> Inl e
         | Inr (v, d) \<Rightarrow>
             if unat v > length src - d then Inl GREMLIN_ERROR_TRUNCATED
             else Inr (d + unat v))
      else if wt = GREMLIN_WIRE_SGROUP then skip_group_loop src 1 0
      else Inl GREMLIN_ERROR_INVALID_WIRE_TYPE)"

section \<open>The iteration, one tag at a time\<close>

lemma unat_mod8: "unat ((t :: u64) mod 8) = unat t mod 8"
  by (simp add: unat_mod)

lemma skip_group_done: "skip_group_loop src 0 off = Inr off"
  by (subst skip_group_loop.simps) simp

lemma skip_group_tag_error:
  "0 < depth \<Longrightarrow> gremlin_varint_decode (drop off src) = Inl e \<Longrightarrow>
   skip_group_loop src depth off = Inl e"
  by (subst skip_group_loop.simps) simp

lemma skip_group_reserved:
  "\<lbrakk>0 < depth; gremlin_varint_decode (drop off src) = Inr (t, c); 6 \<le> unat t mod 8\<rbrakk> \<Longrightarrow>
   skip_group_loop src depth off = Inl GREMLIN_ERROR_INVALID_WIRE_TYPE"
proof -
  assume "0 < depth" "gremlin_varint_decode (drop off src) = Inr (t, c)" "6 \<le> unat t mod 8"
  moreover from this have "unat t mod 8 = 6 \<or> unat t mod 8 = 7"
    using mod_less_divisor [of 8 "unat t"] by linarith
  ultimately show ?thesis by (subst skip_group_loop.simps) (auto simp: unat_mod8)
qed

lemma skip_group_open:
  "\<lbrakk>0 < depth; gremlin_varint_decode (drop off src) = Inr (t, c); unat t mod 8 = 3\<rbrakk> \<Longrightarrow>
   skip_group_loop src depth off = skip_group_loop src (depth + 1) (off + c)"
  by (subst skip_group_loop.simps) (simp add: unat_mod8)

lemma skip_group_close:
  "\<lbrakk>0 < depth; gremlin_varint_decode (drop off src) = Inr (t, c); unat t mod 8 = 4\<rbrakk> \<Longrightarrow>
   skip_group_loop src depth off = skip_group_loop src (depth - 1) (off + c)"
  by (subst skip_group_loop.simps) (simp add: unat_mod8)

text \<open>The payload cases inlined in the loop are those of the function itself.\<close>

definition scalar_wire :: "gremlin_wire_type \<Rightarrow> bool" where
  "scalar_wire wt \<longleftrightarrow> wt \<noteq> GREMLIN_WIRE_SGROUP \<and> wt \<noteq> GREMLIN_WIRE_EGROUP"

lemma skip_group_field:
  "\<lbrakk>0 < depth; gremlin_varint_decode (drop off src) = Inr (t, c);
    unat t mod 8 = wire_number wt; scalar_wire wt\<rbrakk> \<Longrightarrow>
   skip_group_loop src depth off =
     (case gremlin_skip_data (drop (off + c) src) wt of
        Inl e \<Rightarrow> Inl e
      | Inr d \<Rightarrow> skip_group_loop src depth (off + c + d))"
  by (subst skip_group_loop.simps; cases wt)
     (auto simp: unat_mod8 Let_def gremlin_skip_data_def scalar_wire_def add.assoc
        split: sum.split)

lemma wire_number_cases:
  obtains "k = 3" | "k = 4" | "6 \<le> k"
    | wt where "k = wire_number wt" "scalar_wire wt"
proof -
  have "k = 0 \<or> k = 1 \<or> k = 2 \<or> k = 5 \<or> k = 3 \<or> k = 4 \<or> 6 \<le> k" by arith
  then show thesis
    using that(1-3) that(4) [of GREMLIN_WIRE_VARINT] that(4) [of GREMLIN_WIRE_FIXED64]
      that(4) [of GREMLIN_WIRE_LEN_PREFIX] that(4) [of GREMLIN_WIRE_FIXED32]
    by (auto simp: scalar_wire_def)
qed

text \<open>Induction along the tags of a group, with the cases the code distinguishes.\<close>

lemma skip_group_induct [case_names done_case tag_error reserved open_case close_case field]:
  assumes "\<And>off. P 0 off"
    and "\<And>depth off e. \<lbrakk>0 < depth; gremlin_varint_decode (drop off src) = Inl e\<rbrakk> \<Longrightarrow> P depth off"
    and "\<And>depth off t c. \<lbrakk>0 < depth; gremlin_varint_decode (drop off src) = Inr (t, c);
           6 \<le> unat t mod 8\<rbrakk> \<Longrightarrow> P depth off"
    and "\<And>depth off t c. \<lbrakk>0 < depth; gremlin_varint_decode (drop off src) = Inr (t, c);
           unat t mod 8 = 3; P (depth + 1) (off + c)\<rbrakk> \<Longrightarrow> P depth off"
    and "\<And>depth off t c. \<lbrakk>0 < depth; gremlin_varint_decode (drop off src) = Inr (t, c);
           unat t mod 8 = 4; P (depth - 1) (off + c)\<rbrakk> \<Longrightarrow> P depth off"
    and "\<And>depth off t c wt. \<lbrakk>0 < depth; gremlin_varint_decode (drop off src) = Inr (t, c);
           unat t mod 8 = wire_number wt; scalar_wire wt;
           \<And>d. P depth (off + c + d)\<rbrakk> \<Longrightarrow> P depth off"
  shows "P (depth :: u32) off"
proof (induction "length src - off" arbitrary: depth off rule: less_induct)
  case less
  show ?case
  proof (cases "0 < depth")
    case False
    then show ?thesis using assms(1) by (simp add: word_gt_0)
  next
    case True
    show ?thesis
    proof (cases "gremlin_varint_decode (drop off src)")
      case (Inl e)
      with True show ?thesis by (rule assms(2))
    next
      case (Inr r)
      then obtain t c where d: "gremlin_varint_decode (drop off src) = Inr (t, c)"
        by (cases r) auto
      have "length src - (off + c + k) < length src - off" for k
        using varint_decode_consumed [OF d] by auto
      then have IH: "P depth' (off + c + k)" for depth' k by (rule less)
      then have IH0: "P depth' (off + c)" for depth' by (metis add_0_right)
      show ?thesis
        by (rule wire_number_cases [of "unat t mod 8"])
           (blast intro: True d IH IH0 assms(3-6))+
    qed
  qed
qed

section \<open>Bounds and errors\<close>

lemma skip_scalar_bounds:
  "scalar_wire wt \<Longrightarrow> gremlin_skip_data src wt = Inr n \<Longrightarrow> 0 < n \<and> n \<le> length src"
  by (cases wt) (auto simp: gremlin_skip_data_def scalar_wire_def
      split: sum.splits if_splits dest!: varint_decode_consumed)

lemma skip_group_loop_bounds:
  "skip_group_loop src depth off = Inr n \<Longrightarrow> off \<le> length src \<Longrightarrow>
   off \<le> n \<and> n \<le> length src \<and> (0 < depth \<longrightarrow> off < n)"
proof (induction depth off rule: skip_group_induct [where src = src])
  case (field depth off t c wt)
  then obtain d where d: "gremlin_skip_data (drop (off + c) src) wt = Inr d"
      and n: "skip_group_loop src depth (off + c + d) = Inr n"
    using skip_group_field [OF field.hyps] by (auto split: sum.splits)
  have "off + c + d \<le> length src"
    using skip_scalar_bounds [OF field.hyps(4) d] by auto
  then show ?case using field.IH [OF n] field.hyps(1) by auto
next
  case (reserved depth off t c)
  then show ?case using skip_group_reserved [OF reserved.hyps] by simp
next
  case (open_case depth off t c)
  have "1 \<le> c \<and> c \<le> length src - off"
    using varint_decode_consumed [OF open_case.hyps(2)] by simp
  then have "off + c \<le> length src \<and> off < off + c" using open_case.prems(2) by linarith
  then show ?case
    using open_case skip_group_open [OF open_case.hyps] by fastforce
next
  case (close_case depth off t c)
  have "1 \<le> c \<and> c \<le> length src - off"
    using varint_decode_consumed [OF close_case.hyps(2)] by simp
  then have "off + c \<le> length src \<and> off < off + c" using close_case.prems(2) by linarith
  then show ?case
    using close_case skip_group_close [OF close_case.hyps] by fastforce
qed (auto simp: skip_group_done skip_group_tag_error skip_group_reserved)

lemma skip_data_bounds: "gremlin_skip_data src wt = Inr n \<Longrightarrow> 0 < n \<and> n \<le> length src"
proof (cases "scalar_wire wt")
  case False
  assume "gremlin_skip_data src wt = Inr n"
  with False have l: "skip_group_loop src 1 0 = Inr n"
    by (auto simp: scalar_wire_def gremlin_skip_data_def split: if_splits)
  then show ?thesis using skip_group_loop_bounds [OF l] by simp
qed (rule skip_scalar_bounds)

lemma skip_group_errors:
  "skip_group_loop src depth off = Inl e \<Longrightarrow>
   e = GREMLIN_ERROR_TRUNCATED \<or> e = GREMLIN_ERROR_OVERFLOW \<or>
   e = GREMLIN_ERROR_INVALID_WIRE_TYPE"
proof (induction depth off rule: skip_group_induct [where src = src])
  case (field depth off t c wt)
  show ?case
  proof (cases "gremlin_skip_data (drop (off + c) src) wt")
    case (Inl e')
    then have "e = e'" using field.prems skip_group_field [OF field.hyps] by simp
    then show ?thesis
      using Inl field.hyps(4) by (cases wt) (auto simp: gremlin_skip_data_def scalar_wire_def
          split: sum.splits if_splits dest: varint_decode_errors)
  next
    case (Inr d)
    then show ?thesis using field.prems field.IH skip_group_field [OF field.hyps] by simp
  qed
next
  case (open_case depth off t c)
  then show ?case using skip_group_open [OF open_case.hyps] by simp
next
  case (close_case depth off t c)
  then show ?case using skip_group_close [OF close_case.hyps] by simp
next
  case (reserved depth off t c)
  then show ?case using skip_group_reserved [OF reserved.hyps] by simp
qed (auto simp: skip_group_done skip_group_tag_error dest: varint_decode_errors)

text \<open>A read never looks behind the bytes it reports as consumed.\<close>

lemma varint_decode_prefix:
  "gremlin_varint_decode src = Inr (v, n) \<Longrightarrow>
   gremlin_varint_decode (take n src @ rest) = Inr (v, n)"
  unfolding varint_decode_leb128
  by (drule as_word_InrD) (auto simp: leb128_decode_prefix)

section \<open>Well-formed fields\<close>

text \<open>
  A field as the wire format writes it: the tag carries the field number and the
  wire type, a group holds fields and closes with a tag of its own, whose number
  is kept apart because the code does not look at it.
\<close>

datatype wire_field =
    Varint_Field nat u64
  | Fixed64_Field nat u64
  | Bytes_Field nat bytes
  | Fixed32_Field nat u32
  | Group_Field nat "wire_field list" nat

definition tag_bytes :: "nat \<Rightarrow> gremlin_wire_type \<Rightarrow> bytes" where
  "tag_bytes f wt = leb128 (8 * f + wire_number wt)"

fun field_bytes :: "wire_field \<Rightarrow> bytes" where
  "field_bytes (Varint_Field f v) = tag_bytes f GREMLIN_WIRE_VARINT @ leb128 (unat v)"
| "field_bytes (Fixed64_Field f v) = tag_bytes f GREMLIN_WIRE_FIXED64 @ le_bytes 8 (unat v)"
| "field_bytes (Bytes_Field f bs) =
     tag_bytes f GREMLIN_WIRE_LEN_PREFIX @ leb128 (length bs) @ bs"
| "field_bytes (Fixed32_Field f v) = tag_bytes f GREMLIN_WIRE_FIXED32 @ le_bytes 4 (unat v)"
| "field_bytes (Group_Field f fs g) =
     tag_bytes f GREMLIN_WIRE_SGROUP @ concat (map field_bytes fs)
       @ tag_bytes g GREMLIN_WIRE_EGROUP"

fun field_ok :: "wire_field \<Rightarrow> bool" where
  "field_ok (Varint_Field f v) \<longleftrightarrow> f < 2 ^ 29"
| "field_ok (Fixed64_Field f v) \<longleftrightarrow> f < 2 ^ 29"
| "field_ok (Bytes_Field f bs) \<longleftrightarrow> f < 2 ^ 29 \<and> length bs < 2 ^ 64"
| "field_ok (Fixed32_Field f v) \<longleftrightarrow> f < 2 ^ 29"
| "field_ok (Group_Field f fs g) \<longleftrightarrow> f < 2 ^ 29 \<and> list_all field_ok fs \<and> g < 2 ^ 29"

fun nesting :: "wire_field \<Rightarrow> nat" where
  "nesting (Group_Field f fs g) = Suc (foldr max (map nesting fs) 0)"
| "nesting _ = 0"

lemma tag_decode:
  assumes "f < 2 ^ 29"
  shows "\<exists>t. gremlin_varint_decode (tag_bytes f wt @ rest) = Inr (t, length (tag_bytes f wt))
             \<and> unat t mod 8 = wire_number wt"
proof -
  have w: "wire_number wt < 8" by (cases wt) simp_all
  then have lim: "8 * f + wire_number wt < 2 ^ 64" using assms by simp
  then have u: "unat (word_of_nat (8 * f + wire_number wt) :: u64) = 8 * f + wire_number wt"
    by (simp add: unat_of_nat del: of_nat_add of_nat_mult)
  show ?thesis
    using varint_decode_image [of "word_of_nat (8 * f + wire_number wt)" rest] w
    unfolding u tag_bytes_def length_leb128 [OF lim]
    by (metis u mod_mult_self4 mod_less)
qed

definition payload_bytes :: "wire_field \<Rightarrow> bytes" where
  "payload_bytes x = (case x of
       Varint_Field f v \<Rightarrow> leb128 (unat v)
     | Fixed64_Field f v \<Rightarrow> le_bytes 8 (unat v)
     | Bytes_Field f bs \<Rightarrow> leb128 (length bs) @ bs
     | Fixed32_Field f v \<Rightarrow> le_bytes 4 (unat v)
     | Group_Field f fs g \<Rightarrow>
         concat (map field_bytes fs) @ tag_bytes g GREMLIN_WIRE_EGROUP)"

fun field_wire :: "wire_field \<Rightarrow> gremlin_wire_type" where
  "field_wire (Varint_Field f v) = GREMLIN_WIRE_VARINT"
| "field_wire (Fixed64_Field f v) = GREMLIN_WIRE_FIXED64"
| "field_wire (Bytes_Field f bs) = GREMLIN_WIRE_LEN_PREFIX"
| "field_wire (Fixed32_Field f v) = GREMLIN_WIRE_FIXED32"
| "field_wire (Group_Field f fs g) = GREMLIN_WIRE_SGROUP"

fun field_number :: "wire_field \<Rightarrow> nat" where
  "field_number (Varint_Field f v) = f"
| "field_number (Fixed64_Field f v) = f"
| "field_number (Bytes_Field f bs) = f"
| "field_number (Fixed32_Field f v) = f"
| "field_number (Group_Field f fs g) = f"

lemma field_bytes_split:
  "field_bytes x = tag_bytes (field_number x) (field_wire x) @ payload_bytes x"
  by (cases x) (simp_all add: payload_bytes_def)

lemma field_ok_number: "field_ok x \<Longrightarrow> field_number x < 2 ^ 29"
  by (cases x) simp_all

lemma skip_scalar_payload:
  assumes "field_ok x" and "scalar_wire (field_wire x)"
  shows "gremlin_skip_data (payload_bytes x @ rest) (field_wire x) = Inr (length (payload_bytes x))"
proof (cases x)
  case (Varint_Field f v)
  have "length (leb128 (unat v)) = varint_size (unat v)"
    using unsigned_less [of v] by (intro length_leb128) simp
  then show ?thesis
    by (simp add: Varint_Field payload_bytes_def gremlin_skip_data_def varint_decode_image)
next
  case (Bytes_Field f bs)
  then have lim: "length bs < 2 ^ 64" using assms(1) by simp
  then have u: "unat (word_of_nat (length bs) :: u64) = length bs"
    by (simp add: unat_of_nat)
  show ?thesis
    using varint_decode_image [of "word_of_nat (length bs)" "bs @ rest"] length_leb128 [OF lim]
    by (simp add: Bytes_Field payload_bytes_def gremlin_skip_data_def u del: unsigned_of_nat)
qed (use assms in \<open>simp_all add: payload_bytes_def gremlin_skip_data_def scalar_wire_def\<close>)

section \<open>Skipping well-formed fields\<close>

lemma tag_bytes_pos [simp]: "0 < length (tag_bytes f wt)"
  by (simp add: tag_bytes_def)

lemma skip_scalar_step:
  assumes "field_ok x" and "scalar_wire (field_wire x)" and "0 < depth"
    and "drop off src = field_bytes x @ rest"
  shows "skip_group_loop src depth off
           = skip_group_loop src depth (off + length (field_bytes x))"
proof -
  obtain t where t: "gremlin_varint_decode (drop off src)
        = Inr (t, length (tag_bytes (field_number x) (field_wire x)))"
      and m: "unat t mod 8 = wire_number (field_wire x)"
    using tag_decode [OF field_ok_number [OF assms(1)], of "field_wire x" "payload_bytes x @ rest"]
      assms(4) by (auto simp: field_bytes_split)
  have "drop (off + length (tag_bytes (field_number x) (field_wire x))) src
      = payload_bytes x @ rest"
    using assms(4) by (metis add.commute append_assoc append_eq_conv_conj drop_drop
        field_bytes_split)
  then show ?thesis
    using skip_group_field [OF assms(3) t m assms(2)] skip_scalar_payload [OF assms(1,2)]
    by (simp add: field_bytes_split add.assoc)
qed

lemma depth_succ:
  fixes depth :: u32
  assumes "0 < depth" and "unat depth + Suc k < 2 ^ 32"
  shows "0 < depth + 1 \<and> unat (depth + 1) = Suc (unat depth) \<and> depth + 1 - 1 = depth"
proof -
  have "unat (depth + 1) = Suc (unat depth)"
    using assms(2) by (simp add: unat_word_ariths)
  then show ?thesis by (auto simp: word_gt_0)
qed

lemma drop_after: "drop i src = xs @ ys \<Longrightarrow> drop (i + length xs) src = ys"
  by (metis add.commute append_eq_conv_conj drop_drop)

lemma skip_run:
  assumes step: "\<And>y off rest. y \<in> set xs \<Longrightarrow> drop off src = field_bytes y @ rest \<Longrightarrow>
      skip_group_loop src depth off = skip_group_loop src depth (off + length (field_bytes y))"
    and "drop off src = concat (map field_bytes xs) @ rest"
  shows "skip_group_loop src depth off
      = skip_group_loop src depth (off + length (concat (map field_bytes xs)))"
  using assms
proof (induction xs arbitrary: off)
  case (Cons y ys)
  have src: "drop off src = field_bytes y @ concat (map field_bytes ys) @ rest"
    using Cons.prems(2) by simp
  have "skip_group_loop src depth off = skip_group_loop src depth (off + length (field_bytes y))"
    using src by (intro Cons.prems(1)) auto
  also have "\<dots> = skip_group_loop src depth
      (off + length (field_bytes y) + length (concat (map field_bytes ys)))"
    using drop_after [OF src] Cons.prems(1) by (intro Cons.IH) auto
  finally show ?case by (simp add: add.assoc)
qed simp

lemma nesting_member: "y \<in> set fs \<Longrightarrow> nesting y \<le> foldr max (map nesting fs) 0"
  by (induction fs) auto

lemma skip_fields_step:
  "\<lbrakk>field_ok x; 0 < depth; unat depth + nesting x < 2 ^ 32; drop off src = field_bytes x @ rest\<rbrakk>
   \<Longrightarrow> skip_group_loop src depth off = skip_group_loop src depth (off + length (field_bytes x))"
proof (induction x arbitrary: depth off rest)
  case (Group_Field f fs g)
  define body where "body = concat (map field_bytes fs)"
  let ?o = "tag_bytes f GREMLIN_WIRE_SGROUP" and ?c = "tag_bytes g GREMLIN_WIRE_EGROUP"
  have src: "drop off src = ?o @ body @ ?c @ rest"
    using Group_Field.prems(4) by (simp add: body_def)
  have nest: "unat depth + Suc (foldr max (map nesting fs) 0) < 2 ^ 32"
    using Group_Field.prems(3) by simp
  note d1 = depth_succ [OF Group_Field.prems(2) nest]
  have body_step: "skip_group_loop src (depth + 1) o1
      = skip_group_loop src (depth + 1) (o1 + length body)" if "drop o1 src = body @ r" for o1 r
    unfolding body_def
  proof (rule skip_run)
    fix y o2 r2
    assume y: "y \<in> set fs" and "drop o2 src = field_bytes y @ r2"
    moreover have "unat (depth + 1) + nesting y < 2 ^ 32"
      using nest d1 nesting_member [OF y] by simp
    moreover have "field_ok y" using y Group_Field.prems(1) by (simp add: list_all_iff)
    ultimately show "skip_group_loop src (depth + 1) o2
        = skip_group_loop src (depth + 1) (o2 + length (field_bytes y))"
      using d1 by (intro Group_Field.IH [OF y]) auto
  qed (use that in \<open>simp add: body_def\<close>)
  obtain t where t: "gremlin_varint_decode (drop off src) = Inr (t, length ?o)"
      "unat t mod 8 = 3"
    using tag_decode [of f GREMLIN_WIRE_SGROUP "body @ ?c @ rest"] Group_Field.prems(1) src
    by auto
  have after_open: "drop (off + length ?o) src = body @ ?c @ rest"
    using src by (rule drop_after)
  have after_body: "drop (off + length ?o + length body) src = ?c @ rest"
    using after_open by (rule drop_after)
  obtain u where u: "gremlin_varint_decode (drop (off + length ?o + length body) src)
        = Inr (u, length ?c)" "unat u mod 8 = 4"
    using tag_decode [of g GREMLIN_WIRE_EGROUP rest] Group_Field.prems(1) after_body by auto
  have "skip_group_loop src depth off = skip_group_loop src (depth + 1) (off + length ?o)"
    using Group_Field.prems(2) t by (rule skip_group_open)
  also have "\<dots> = skip_group_loop src (depth + 1) (off + length ?o + length body)"
    using after_open by (rule body_step)
  also have "\<dots> = skip_group_loop src depth (off + length ?o + length body + length ?c)"
    using skip_group_close [OF _ u, of "depth + 1"] d1 by simp
  finally show ?case by (simp add: body_def add.assoc)
qed (rule skip_scalar_step; (assumption | simp add: scalar_wire_def))+

text \<open>A payload is skipped to its last byte, whatever follows.\<close>

lemma skip_payload:
  assumes "field_ok x" and "nesting x < 2 ^ 32"
  shows "gremlin_skip_data (payload_bytes x @ rest) (field_wire x)
           = Inr (length (payload_bytes x))"
proof (cases x)
  case (Group_Field f fs g)
  let ?c = "tag_bytes g GREMLIN_WIRE_EGROUP"
  define body where "body = concat (map field_bytes fs)"
  have p: "payload_bytes x = body @ ?c" by (simp add: Group_Field payload_bytes_def body_def)
  obtain u where u: "gremlin_varint_decode (drop (length body) (body @ ?c @ rest))
        = Inr (u, length ?c)" "unat u mod 8 = 4"
    using tag_decode [of g GREMLIN_WIRE_EGROUP rest] assms(1) Group_Field by auto
  have "skip_group_loop (body @ ?c @ rest) 1 0
      = skip_group_loop (body @ ?c @ rest) 1 (0 + length body)"
    unfolding body_def
  proof (rule skip_run)
    fix y o2 r2
    assume y: "y \<in> set fs"
      and at: "drop o2 (concat (map field_bytes fs) @ ?c @ rest) = field_bytes y @ r2"
    have "field_ok y" and "unat (1 :: u32) + nesting y < 2 ^ 32"
      using assms Group_Field y nesting_member [OF y] by (simp_all add: list_all_iff)
    then show "skip_group_loop (concat (map field_bytes fs) @ ?c @ rest) 1 o2
        = skip_group_loop (concat (map field_bytes fs) @ ?c @ rest) 1 (o2 + length (field_bytes y))"
      using at by (intro skip_fields_step) simp_all
  qed simp
  also have "\<dots> = Inr (length body + length ?c)"
    using skip_group_close [OF _ u, of 1] by (simp add: skip_group_done)
  finally show ?thesis using p Group_Field by (simp add: gremlin_skip_data_def)
qed (insert skip_scalar_payload [OF assms(1), of rest], simp_all add: scalar_wire_def)

section \<open>Properties\<close>

text \<open>C20. \<open>gremlin_skip_data\<close> moves forward and stays in the slice on success, for every
  wire type, groups included; its only errors are truncation, overflow and an invalid wire
  type, and a group-end tag as the outermost type is always rejected.\<close>
theorem skip_data_contract:
  "(case gremlin_skip_data src wt of
      Inr n \<Rightarrow> 0 < n \<and> n \<le> length src
    | Inl e \<Rightarrow> e \<in> {GREMLIN_ERROR_TRUNCATED, GREMLIN_ERROR_OVERFLOW,
                    GREMLIN_ERROR_INVALID_WIRE_TYPE}) \<and>
   gremlin_skip_data src GREMLIN_WIRE_EGROUP = Inl GREMLIN_ERROR_INVALID_WIRE_TYPE"
proof -
  have "e \<in> {GREMLIN_ERROR_TRUNCATED, GREMLIN_ERROR_OVERFLOW, GREMLIN_ERROR_INVALID_WIRE_TYPE}"
    if "gremlin_skip_data src wt = Inl e" for e
    using that varint_decode_errors [of src] skip_group_errors [of src 1 0 e]
    by (auto simp: gremlin_skip_data_def split: sum.splits if_splits)
  then show ?thesis
    using skip_data_bounds [of src wt]
    by (auto simp: gremlin_skip_data_def [of src GREMLIN_WIRE_EGROUP] split: sum.split)
qed

text \<open>C4. The payload of every well-formed field is skipped to its last byte, whatever bytes
  follow: varints, fixed-width values, length-prefixed payloads and groups holding any fields,
  nested up to the range of the 32-bit counter.  The closing tag of a group need not carry the
  number of its opening tag.\<close>
theorem skip_wellformed_field:
  assumes "field_ok x" and "nesting x < 2 ^ 32"
  shows "gremlin_skip_data (payload_bytes x @ rest) (field_wire x)
           = Inr (length (payload_bytes x))"
  using assms by (rule skip_payload)

theorem skip_wellformed_field_witness:
  "gremlin_skip_data
     (payload_bytes (Group_Field 1 [Varint_Field 2 300, Group_Field 3 [Bytes_Field 4 [1, 2]] 3] 9)
        @ [255]) GREMLIN_WIRE_SGROUP
   = Inr (length (payload_bytes
       (Group_Field 1 [Varint_Field 2 300, Group_Field 3 [Bytes_Field 4 [1, 2]] 3] 9)))"
  using skip_wellformed_field
    [of "Group_Field 1 [Varint_Field 2 300, Group_Field 3 [Bytes_Field 4 [1, 2]] 3] 9" "[255]"]
  by simp

end
