(* ===== verification/Runtime_Fixed.thy ===== *)
theory Runtime_Fixed
  imports Runtime_Varint
begin

text \<open>
  The fixed-width integers of \<open>runtime/include/gremlin.h\<close> (wire types
  \<open>FIXED32\<close> and \<open>FIXED64\<close>): four and eight little-endian bytes, written through
  a writer or at an offset, and read back from a slice.
\<close>

section \<open>Operations\<close>

definition gremlin_fixed32_size :: nat where
  "gremlin_fixed32_size = 4"

definition gremlin_fixed64_size :: nat where
  "gremlin_fixed64_size = 8"

definition gremlin_fixed32_encode_at :: "bytes \<Rightarrow> nat \<Rightarrow> u32 \<Rightarrow> (bytes \<times> nat) option" where
  "gremlin_fixed32_encode_at mem off v =
     do { m0 \<leftarrow> store mem (off + 0) (ucast v);
          m1 \<leftarrow> store m0 (off + 1) (ucast (drop_bit 8 v));
          m2 \<leftarrow> store m1 (off + 2) (ucast (drop_bit 16 v));
          m3 \<leftarrow> store m2 (off + 3) (ucast (drop_bit 24 v));
          Some (m3, off + 4) }"

definition gremlin_fixed64_encode_at :: "bytes \<Rightarrow> nat \<Rightarrow> u64 \<Rightarrow> (bytes \<times> nat) option" where
  "gremlin_fixed64_encode_at mem off v =
     do { m0 \<leftarrow> store mem (off + 0) (ucast v);
          m1 \<leftarrow> store m0 (off + 1) (ucast (drop_bit 8 v));
          m2 \<leftarrow> store m1 (off + 2) (ucast (drop_bit 16 v));
          m3 \<leftarrow> store m2 (off + 3) (ucast (drop_bit 24 v));
          m4 \<leftarrow> store m3 (off + 4) (ucast (drop_bit 32 v));
          m5 \<leftarrow> store m4 (off + 5) (ucast (drop_bit 40 v));
          m6 \<leftarrow> store m5 (off + 6) (ucast (drop_bit 48 v));
          m7 \<leftarrow> store m6 (off + 7) (ucast (drop_bit 56 v));
          Some (m7, off + 8) }"

definition gremlin_fixed32_encode :: "gremlin_writer \<Rightarrow> u32 \<Rightarrow> gremlin_writer option" where
  "gremlin_fixed32_encode w v =
     do { m0 \<leftarrow> store (gw_buf w) (gw_offset w + 0) (ucast v);
          m1 \<leftarrow> store m0 (gw_offset w + 1) (ucast (drop_bit 8 v));
          m2 \<leftarrow> store m1 (gw_offset w + 2) (ucast (drop_bit 16 v));
          m3 \<leftarrow> store m2 (gw_offset w + 3) (ucast (drop_bit 24 v));
          Some (w\<lparr>gw_buf := m3, gw_offset := gw_offset w + 4\<rparr>) }"

definition gremlin_fixed64_encode :: "gremlin_writer \<Rightarrow> u64 \<Rightarrow> gremlin_writer option" where
  "gremlin_fixed64_encode w v =
     do { m0 \<leftarrow> store (gw_buf w) (gw_offset w + 0) (ucast v);
          m1 \<leftarrow> store m0 (gw_offset w + 1) (ucast (drop_bit 8 v));
          m2 \<leftarrow> store m1 (gw_offset w + 2) (ucast (drop_bit 16 v));
          m3 \<leftarrow> store m2 (gw_offset w + 3) (ucast (drop_bit 24 v));
          m4 \<leftarrow> store m3 (gw_offset w + 4) (ucast (drop_bit 32 v));
          m5 \<leftarrow> store m4 (gw_offset w + 5) (ucast (drop_bit 40 v));
          m6 \<leftarrow> store m5 (gw_offset w + 6) (ucast (drop_bit 48 v));
          m7 \<leftarrow> store m6 (gw_offset w + 7) (ucast (drop_bit 56 v));
          Some (w\<lparr>gw_buf := m7, gw_offset := gw_offset w + 8\<rparr>) }"

text \<open>The results carry no \<open>consumed\<close>: the caller advances by 4 or 8.\<close>

definition gremlin_fixed32_decode :: "bytes \<Rightarrow> gremlin_error + u32" where
  "gremlin_fixed32_decode src =
     (if length src < 4 then Inl GREMLIN_ERROR_TRUNCATED
      else Inr (ucast (src ! 0) + ucast (src ! 1) * 256 + ucast (src ! 2) * 65536
                  + ucast (src ! 3) * 16777216))"

definition gremlin_fixed64_decode :: "bytes \<Rightarrow> gremlin_error + u64" where
  "gremlin_fixed64_decode src =
     (if length src < 8 then Inl GREMLIN_ERROR_TRUNCATED
      else Inr (ucast (src ! 0) + ucast (src ! 1) * 256 + ucast (src ! 2) * 65536
                  + ucast (src ! 3) * 16777216 + ucast (src ! 4) * 4294967296
                  + ucast (src ! 5) * 1099511627776 + ucast (src ! 6) * 281474976710656
                  + ucast (src ! 7) * 72057594037927936))"

section \<open>Little-endian bytes\<close>

lemma ucast_drop_bit_byte:
  "ucast (drop_bit k (v :: 'a::len word)) = (word_of_nat (unat v div 2 ^ k mod 256) :: u8)"
proof -
  have "ucast (drop_bit k v) = (word_of_nat (unat (drop_bit k v)) :: u8)" by simp
  also have "\<dots> = word_of_nat (unat (drop_bit k v) mod 256)"
    unfolding word_of_nat_eq_iff by (simp add: take_bit_eq_mod)
  also have "unat (drop_bit k v) = unat v div 2 ^ k"
    unfolding unat_drop_bit_eq by (rule drop_bit_eq_div)
  finally show ?thesis .
qed

lemma ucast_low_byte:
  "ucast (v :: 'a::len word) = (word_of_nat (unat v mod 256) :: u8)"
  using ucast_drop_bit_byte [of 0 v] by simp

lemma le_bytes_4:
  "le_bytes 4 n = map (\<lambda>k. word_of_nat (n div 2 ^ k mod 256)) [0, 8, 16, 24]"
proof -
  have e: "(4 :: nat) = Suc (Suc (Suc (Suc 0)))" by simp
  show ?thesis by (subst e) (simp flip: div_mult2_eq)
qed

lemma le_bytes_8:
  "le_bytes 8 n
     = map (\<lambda>k. word_of_nat (n div 2 ^ k mod 256)) [0, 8, 16, 24, 32, 40, 48, 56]"
proof -
  have e: "(8 :: nat) = Suc (Suc (Suc (Suc (Suc (Suc (Suc (Suc 0)))))))" by simp
  show ?thesis by (subst e) (simp flip: div_mult2_eq)
qed

lemma store_list_4:
  "store_list mem i [a, b, c, d] =
     do { m0 \<leftarrow> store mem (i + 0) a; m1 \<leftarrow> store m0 (i + 1) b;
          m2 \<leftarrow> store m1 (i + 2) c; store m2 (i + 3) d }"
  by (simp add: eval_nat_numeral split: option.split Option.bind_split)

lemma store_list_8:
  "store_list mem i [a, b, c, d, e, f, g, h] =
     do { m0 \<leftarrow> store mem (i + 0) a; m1 \<leftarrow> store m0 (i + 1) b;
          m2 \<leftarrow> store m1 (i + 2) c; m3 \<leftarrow> store m2 (i + 3) d;
          m4 \<leftarrow> store m3 (i + 4) e; m5 \<leftarrow> store m4 (i + 5) f;
          m6 \<leftarrow> store m5 (i + 6) g; store m6 (i + 7) h }"
  by (simp add: eval_nat_numeral split: option.split Option.bind_split)

lemma fixed32_encode_at_store:
  "gremlin_fixed32_encode_at mem off v =
     do { mem' \<leftarrow> store_list mem off (le_bytes 4 (unat v)); Some (mem', off + 4) }"
  unfolding gremlin_fixed32_encode_at_def le_bytes_4 list.map store_list_4
    ucast_low_byte [of v] ucast_drop_bit_byte
  by simp

lemma fixed64_encode_at_store:
  "gremlin_fixed64_encode_at mem off v =
     do { mem' \<leftarrow> store_list mem off (le_bytes 8 (unat v)); Some (mem', off + 8) }"
  unfolding gremlin_fixed64_encode_at_def le_bytes_8 list.map store_list_8
    ucast_low_byte [of v] ucast_drop_bit_byte
  by simp

lemma fixed32_encode_at_writer:
  "gremlin_fixed32_encode w v
     = writer_at w (gremlin_fixed32_encode_at (gw_buf w) (gw_offset w) v)"
  by (simp add: gremlin_fixed32_encode_def gremlin_fixed32_encode_at_def
        split: Option.bind_split)

lemma fixed64_encode_at_writer:
  "gremlin_fixed64_encode w v
     = writer_at w (gremlin_fixed64_encode_at (gw_buf w) (gw_offset w) v)"
  by (simp add: gremlin_fixed64_encode_def gremlin_fixed64_encode_at_def
        split: Option.bind_split)

lemma fixed32_decode_value:
  "4 \<le> length src \<Longrightarrow> gremlin_fixed32_decode src = Inr (word_of_nat (le32_value src))"
  by (simp add: gremlin_fixed32_decode_def le32_value_def)

lemma fixed64_decode_value:
  "8 \<le> length src \<Longrightarrow> gremlin_fixed64_decode src = Inr (word_of_nat (le64_value src))"
  by (simp add: gremlin_fixed64_decode_def le64_value_def)

text \<open>The bytes written are the little-endian digits of the value read.\<close>

lemma unat_byte_mod: "unat (word_of_nat (n mod 256) :: u8) = n mod 256"
  by (simp add: unat_of_nat)

lemma le32_value_le_bytes:
  assumes "n < 2 ^ 32"
  shows "le32_value (le_bytes 4 n @ rest) = n"
proof -
  have "n mod 256 + 256 * (n div 256 mod 256) + 65536 * (n div 65536 mod 256)
          + 16777216 * (n div 16777216 mod 256) = n"
    using assms mod_mult2_eq [of n 256 256] mod_mult2_eq [of n 65536 256]
      mod_mult2_eq [of n 16777216 256] by simp
  moreover have "n div 16777216 mod 256 = n div 16777216"
    using assms by (simp add: div_less_iff_less_mult)
  ultimately show ?thesis
    unfolding le32_value_def le_bytes_4 list.map append_Cons
    by (simp only: nth_Cons_0 nth_Cons_numeral One_nat_def nth_Cons_Suc diff_numeral_special
          numeral_One pred_numeral_simps numeral_2_eq_2 numeral_3_eq_3 unat_byte_mod
          power_0 div_by_1) (simp flip: numeral_2_eq_2)
qed

lemma le64_value_split:
  "le64_value bs = le32_value bs + 4294967296 * le32_value (drop 4 bs)"
  if "8 \<le> length bs"
  using that by (simp add: le64_value_def le32_value_def)

lemma le_bytes_8_split: "le_bytes 8 n = le_bytes 4 n @ le_bytes 4 (n div 4294967296)"
  by (simp add: le_bytes_8 le_bytes_4 flip: div_mult2_eq)

lemma le_bytes_mod: "le_bytes k (n mod 256 ^ k) = le_bytes k n"
proof (induction k arbitrary: n)
  case (Suc k)
  have "n mod 256 ^ Suc k = 256 * (n div 256 mod 256 ^ k) + n mod 256"
    using mod_mult2_eq [of n 256 "256 ^ k"] by simp
  then have "n mod 256 ^ Suc k mod 256 = n mod 256"
    and "n mod 256 ^ Suc k div 256 = n div 256 mod 256 ^ k" by simp_all
  with Suc show ?case by simp
qed simp

lemma le64_value_le_bytes:
  assumes "n < 2 ^ 64"
  shows "le64_value (le_bytes 8 n @ rest) = n"
proof -
  have hi: "n div 4294967296 < 2 ^ 32" using assms by (simp add: div_less_iff_less_mult)
  have "le32_value (le_bytes 8 n @ rest) = n mod 4294967296"
    using le32_value_le_bytes [of "n mod 4294967296"]
    le_bytes_mod [of 4 n]
    by (simp add: le_bytes_8_split)
  moreover have "le32_value (drop 4 (le_bytes 8 n @ rest)) = n div 4294967296"
    using le32_value_le_bytes [OF hi] by (simp add: le_bytes_8_split)
  ultimately show ?thesis by (simp add: le64_value_split)
qed

text \<open>Read as a codec, with the width as the number of bytes consumed.\<close>

definition fixed32_read :: "bytes \<Rightarrow> u32 decoded" where
  "fixed32_read src = map_sum id (\<lambda>v. (v, gremlin_fixed32_size)) (gremlin_fixed32_decode src)"

definition fixed64_read :: "bytes \<Rightarrow> u64 decoded" where
  "fixed64_read src = map_sum id (\<lambda>v. (v, gremlin_fixed64_size)) (gremlin_fixed64_decode src)"

lemma fixed32_decode_image:
  "gremlin_fixed32_decode (le_bytes 4 (unat v) @ rest) = Inr v"
proof -
  have "unat v < 2 ^ 32" using unsigned_less [of v] by simp
  then show ?thesis by (simp add: fixed32_decode_value le32_value_le_bytes)
qed

lemma fixed64_decode_image:
  "gremlin_fixed64_decode (le_bytes 8 (unat v) @ rest) = Inr v"
proof -
  have "unat v < 2 ^ 64" using unsigned_less [of v] by simp
  then show ?thesis by (simp add: fixed64_decode_value le64_value_le_bytes)
qed

interpretation fixed32: wire_codec "\<lambda>_. True" "\<lambda>v. le_bytes 4 (unat v)"
    "\<lambda>_. gremlin_fixed32_size" gremlin_fixed32_encode_at fixed32_read
proof unfold_locales
  fix bs v n
  assume "fixed32_read bs = Inr (v, n)"
  then show "0 < n \<and> n \<le> length bs"
    by (auto simp: fixed32_read_def gremlin_fixed32_decode_def gremlin_fixed32_size_def
        split: if_splits)
qed (simp_all add: gremlin_fixed32_size_def fixed32_encode_at_store store_list_blit
       store_list_overrun fixed32_read_def fixed32_decode_image
       flip: length_greater_0_conv)

interpretation fixed64: wire_codec "\<lambda>_. True" "\<lambda>v. le_bytes 8 (unat v)"
    "\<lambda>_. gremlin_fixed64_size" gremlin_fixed64_encode_at fixed64_read
proof unfold_locales
  fix bs v n
  assume "fixed64_read bs = Inr (v, n)"
  then show "0 < n \<and> n \<le> length bs"
    by (auto simp: fixed64_read_def gremlin_fixed64_decode_def gremlin_fixed64_size_def
        split: if_splits)
qed (simp_all add: gremlin_fixed64_size_def fixed64_encode_at_store store_list_blit
       store_list_overrun fixed64_read_def fixed64_decode_image
       flip: length_greater_0_conv)

section \<open>Properties\<close>

text \<open>C26. The fixed-width encoders write the four (eight) little-endian bytes of the value
  and nothing else, the decoders read them back, and the decoder of any long enough slice
  gives the little-endian value the annotations define; the writer versions agree.\<close>
theorem fixed_roundtrip:
  assumes "off + 8 \<le> length mem"
  shows "gremlin_fixed32_encode_at mem off v = Some (blit mem off (le_bytes 4 (unat v)), off + 4) \<and>
    gremlin_fixed64_encode_at mem off w = Some (blit mem off (le_bytes 8 (unat w)), off + 8) \<and>
    gremlin_fixed32_decode (drop off (blit mem off (le_bytes 4 (unat v)))) = Inr v \<and>
    gremlin_fixed64_decode (drop off (blit mem off (le_bytes 8 (unat w)))) = Inr w \<and>
    gremlin_fixed32_decode (drop off mem) = Inr (word_of_nat (le32_value (drop off mem))) \<and>
    gremlin_fixed64_decode (drop off mem) = Inr (word_of_nat (le64_value (drop off mem)))"
  using assms by (simp add: fixed32_encode_at_store fixed64_encode_at_store store_list_blit
      drop_blit_at fixed32_decode_image fixed64_decode_image fixed32_decode_value
      fixed64_decode_value)

theorem fixed_roundtrip_witness:
  "gremlin_fixed32_decode (drop 1 [0, 0x78, 0x56, 0x34, 0x12, 0, 0, 0, 0]) = Inr 0x12345678"
  using fixed_roundtrip [of 1 "[0, 0x78, 0x56, 0x34, 0x12, 0, 0, 0, 0]" 0 0]
  by (simp add: le32_value_def)

text \<open>The fixed-width writer operations are the versions at an offset, and a slice that
  is too short is reported as truncated, never read.\<close>
theorem fixed_writer_equiv:
  "gremlin_fixed32_encode wr v = writer_at wr (gremlin_fixed32_encode_at (gw_buf wr) (gw_offset wr) v) \<and>
   gremlin_fixed64_encode wr w = writer_at wr (gremlin_fixed64_encode_at (gw_buf wr) (gw_offset wr) w) \<and>
   (gremlin_fixed32_decode src = Inl GREMLIN_ERROR_TRUNCATED \<longleftrightarrow> length src < gremlin_fixed32_size) \<and>
   (gremlin_fixed64_decode src = Inl GREMLIN_ERROR_TRUNCATED \<longleftrightarrow> length src < gremlin_fixed64_size)"
  by (simp add: fixed32_encode_at_writer fixed64_encode_at_writer gremlin_fixed32_decode_def
      gremlin_fixed64_decode_def gremlin_fixed32_size_def gremlin_fixed64_size_def)

end
