(* ===== verification/Runtime_Scalar.thy ===== *)
theory Runtime_Scalar
  imports Runtime_Fixed
begin

text \<open>
  The pure conversions of \<open>runtime/include/gremlin.h\<close> between a typed value and
  the unsigned integer that goes on the wire: zigzag for \<open>sint32\<close> and \<open>sint64\<close>,
  the sign extension of an enum, and the bit casts of \<open>float\<close> and \<open>double\<close>.  A
  signed integer of \<open>w\<close> bits is a word read by \<open>sint\<close>.  A float is its IEEE 754
  bit pattern: the union of the code reads the same storage under two types.
\<close>

section \<open>Operations\<close>

definition gremlin_zigzag32 :: "32 word \<Rightarrow> u32" where
  "gremlin_zigzag32 v =
     (let sign = (if v <s 0 then 0xFFFFFFFF else 0) in (push_bit 1 v) XOR sign)"

definition gremlin_unzigzag32 :: "u32 \<Rightarrow> 32 word" where
  "gremlin_unzigzag32 v = (let mask = 0 - (v AND 1) in (drop_bit 1 v) XOR mask)"

definition gremlin_zigzag64 :: "64 word \<Rightarrow> u64" where
  "gremlin_zigzag64 v =
     (let sign = (if v <s 0 then 0xFFFFFFFFFFFFFFFF else 0) in (push_bit 1 v) XOR sign)"

definition gremlin_unzigzag64 :: "u64 \<Rightarrow> 64 word" where
  "gremlin_unzigzag64 v = (let mask = 0 - (v AND 1) in (drop_bit 1 v) XOR mask)"

text \<open>\<open>(uint64_t)(int64_t)(int32_t)v\<close>: narrow, then sign-extend.\<close>

definition gremlin_enum_wire :: "64 word \<Rightarrow> u64" where
  "gremlin_enum_wire v = scast (ucast v :: 32 word)"

section \<open>Zigzag\<close>

lemma sign_bit_iff: "(v :: 'a::len word) <s 0 \<longleftrightarrow> sint v < 0"
  by (simp add: word_sless_alt)

lemma sint_word_of_int:
  assumes "- (2 ^ (LENGTH('a) - 1)) \<le> k" and "k < 2 ^ (LENGTH('a::len) - 1)"
  shows "sint (word_of_int k :: 'a word) = k"
  using assms by (simp add: signed_of_int signed_take_bit_int_eq_self)

lemma sint_bounds:
  "- (2 ^ (LENGTH('a) - 1)) \<le> sint (v :: 'a::len word)" "sint v < 2 ^ (LENGTH('a) - 1)"
  by (rule sint_ge, rule sint_lt)

lemma two_halves: "(2 :: int) ^ LENGTH('a::len) = 2 * 2 ^ (LENGTH('a) - 1)"
  by (metis len_gt_0 power_minus_mult mult.commute)

lemma xor_ones: "(x :: 'a::len word) XOR - 1 = - x - 1"
  by (simp add: not_eq_complement)

lemma push_bit_1_word: "push_bit 1 (v :: 'a::len word) = word_of_int (2 * sint v)"
  by (simp add: push_bit_eq_mult)

lemma zigzag_word_of_int:
  "push_bit 1 v XOR (if v <s 0 then - 1 else 0)
     = (word_of_int (zigzag_encode (sint v)) :: 'a::len word)"
  unfolding push_bit_1_word sign_bit_iff by (simp add: not_eq_complement zigzag_encode_def)

lemma zigzag_word:
  "uint (push_bit 1 v XOR (if v <s 0 then - 1 else 0)) = zigzag_encode (sint (v :: 'a::len word))"
proof -
  have "0 \<le> zigzag_encode (sint v) \<and> zigzag_encode (sint v) < 2 ^ LENGTH('a)"
    using sint_bounds [of v] two_halves [where 'a = 'a] by (auto simp: zigzag_encode_def)
  then show ?thesis
    unfolding zigzag_word_of_int by (simp add: unsigned_of_int take_bit_int_eq_self_iff)
qed

lemma unzigzag_word:
  assumes "1 < LENGTH('a)"
  shows "sint (drop_bit 1 v XOR (0 - (v AND 1))) = zigzag_decode (uint (v :: 'a::len word))"
proof -
  have u: "0 \<le> uint v" "uint v < 2 * 2 ^ (LENGTH('a) - 1)"
    using uint_lt2p [of v] two_halves [where 'a = 'a] by simp_all
  have d: "drop_bit 1 v = word_of_int (uint v div 2)"
  proof (rule word_uint_eqI)
    have "uint v div 2 < 2 ^ LENGTH('a)" using u(1) uint_lt2p [of v] by linarith
    then have "take_bit LENGTH('a) (uint v div 2) = uint v div 2"
      using u(1) by (simp add: take_bit_int_eq_self_iff)
    moreover have "take_bit LENGTH('a) (uint v) = uint v"
      using u(1) uint_lt2p [of v] by (simp only: take_bit_int_eq_self_iff)
    ultimately show "uint (drop_bit 1 v) = uint (word_of_int (uint v div 2) :: 'a word)"
      by (simp only: unsigned_drop_bit_eq unsigned_of_int) (simp add: drop_bit_eq_div)
  qed
  show ?thesis
  proof (cases "uint v mod 2 = 0")
    case True
    then have "v AND 1 = 0" using assms by (simp add: and_one_eq word_mod_def)
    then have "drop_bit 1 v XOR (0 - (v AND 1)) = word_of_int (zigzag_decode (uint v))"
      using True by (simp only: d) (simp add: zigzag_decode_def)
    moreover have "zigzag_decode (uint v) = uint v div 2"
      using True by (simp add: zigzag_decode_def)
    ultimately show ?thesis using u by (simp only:, intro sint_word_of_int) linarith+
  next
    case False
    then have "v AND 1 = 1" using assms by (simp add: and_one_eq word_mod_def)
    then have "drop_bit 1 v XOR (0 - (v AND 1)) = word_of_int (zigzag_decode (uint v))"
      using False by (simp only: d) (simp add: zigzag_decode_def not_eq_complement)
    moreover have "zigzag_decode (uint v) = - (uint v div 2) - 1"
      using False by (simp add: zigzag_decode_def)
    ultimately show ?thesis using u by (simp only:, intro sint_word_of_int) linarith+
  qed
qed

lemma zigzag32_spec: "uint (gremlin_zigzag32 v) = zigzag_encode (sint v)"
proof -
  have "(0xFFFFFFFF :: u32) = - 1" by simp
  then show ?thesis
    using zigzag_word [of v] unfolding gremlin_zigzag32_def Let_def by (simp only:)
qed

lemma zigzag64_spec: "uint (gremlin_zigzag64 v) = zigzag_encode (sint v)"
proof -
  have "(0xFFFFFFFFFFFFFFFF :: u64) = - 1" by simp
  then show ?thesis
    using zigzag_word [of v] unfolding gremlin_zigzag64_def Let_def by (simp only:)
qed

lemma unzigzag32_spec: "sint (gremlin_unzigzag32 v) = zigzag_decode (uint v)"
  using unzigzag_word [of v] by (simp add: gremlin_unzigzag32_def Let_def)

lemma unzigzag64_spec: "sint (gremlin_unzigzag64 v) = zigzag_decode (uint v)"
  using unzigzag_word [of v] by (simp add: gremlin_unzigzag64_def Let_def)

lemma zigzag_encode_decode: "0 \<le> u \<Longrightarrow> zigzag_encode (zigzag_decode u) = u"
  by (simp add: zigzag_encode_def zigzag_decode_def) presburger

lemma sint_inject: "sint v = sint w \<Longrightarrow> v = (w :: 'a::len word)"
  by (rule signed_word_eqI)

lemma unzigzag32_zigzag32: "gremlin_unzigzag32 (gremlin_zigzag32 v) = v"
  by (rule sint_inject)
     (simp add: unzigzag32_spec zigzag32_spec zigzag_decode_encode)

lemma unzigzag64_zigzag64: "gremlin_unzigzag64 (gremlin_zigzag64 v) = v"
  by (rule sint_inject)
     (simp add: unzigzag64_spec zigzag64_spec zigzag_decode_encode)

lemma zigzag32_unzigzag32: "gremlin_zigzag32 (gremlin_unzigzag32 v) = v"
  by (rule word_uint_eqI)
     (simp add: unzigzag32_spec zigzag32_spec zigzag_encode_decode)

lemma zigzag64_unzigzag64: "gremlin_zigzag64 (gremlin_unzigzag64 v) = v"
  by (rule word_uint_eqI)
     (simp add: unzigzag64_spec zigzag64_spec zigzag_encode_decode)

section \<open>Enums\<close>

lemma uint64_of_int:
  assumes "- 18446744073709551616 \<le> k" and "k < 18446744073709551616"
  shows "uint (word_of_int k :: u64) = (if k < 0 then k + 18446744073709551616 else k)"
proof -
  have "uint (word_of_int k :: u64) = k mod 18446744073709551616"
    by (simp add: uint_word_of_int)
  moreover have "k < 0 \<Longrightarrow> (k + 18446744073709551616) mod 18446744073709551616
                   = k + 18446744073709551616"
    using assms by (intro mod_pos_pos_trivial) linarith+
  ultimately show ?thesis using assms by simp
qed

lemma enum_wire_spec:
  assumes "- 2147483648 \<le> sint v" and "sint v \<le> 4294967295"
  shows "uint (gremlin_enum_wire v) = enum_wire (sint v)"
proof -
  have "gremlin_enum_wire v = word_of_int (sint (ucast v :: 32 word))"
    by (simp add: gremlin_enum_wire_def)
  moreover have "(ucast v :: 32 word) = word_of_int (sint v)"
    by (rule bit_word_eqI) (simp add: bit_simps)
  ultimately have g: "gremlin_enum_wire v = word_of_int (sint (word_of_int (sint v) :: 32 word))"
    by (simp only:)
  show ?thesis
  proof (cases "sint v < 2147483648")
    case True
    then have "sint (word_of_int (sint v) :: 32 word) = sint v"
      using assms by (intro sint_word_of_int) simp_all
    then show ?thesis
      using assms True uint64_of_int [of "sint v"] by (simp only: g) (simp add: enum_wire_def)
  next
    case False
    have "(word_of_int (sint v) :: 32 word) = word_of_int (sint v - 4294967296)"
      by simp
    moreover have "sint (word_of_int (sint v - 4294967296) :: 32 word) = sint v - 4294967296"
      using assms False by (intro sint_word_of_int) simp_all
    ultimately have "sint (word_of_int (sint v) :: 32 word) = sint v - 4294967296" by (simp only:)
    then have "gremlin_enum_wire v = word_of_int (sint v - 4294967296)" by (simp only: g)
    then have "uint (gremlin_enum_wire v) = sint v - 4294967296 + 18446744073709551616"
      using uint64_of_int [of "sint v - 4294967296"] assms False by (simp only:) simp
    then show ?thesis using False by (simp add: enum_wire_def)
  qed
qed

section \<open>Properties\<close>

text \<open>C25. Zigzag: both widths compute the mathematical interleaving of the annotations on
  the full signed range, and encoding and decoding are inverse bijections.\<close>
theorem zigzag_correct:
  "uint (gremlin_zigzag32 a) = zigzag_encode (sint a) \<and>
   uint (gremlin_zigzag64 b) = zigzag_encode (sint b) \<and>
   gremlin_unzigzag32 (gremlin_zigzag32 a) = a \<and> gremlin_zigzag32 (gremlin_unzigzag32 c) = c \<and>
   gremlin_unzigzag64 (gremlin_zigzag64 b) = b \<and> gremlin_zigzag64 (gremlin_unzigzag64 d) = d"
  by (simp add: zigzag32_spec zigzag64_spec unzigzag32_zigzag32 zigzag32_unzigzag32
      unzigzag64_zigzag64 zigzag64_unzigzag64)

text \<open>Over the range of either C enum type, the value put on the wire is the
  sign-extended 32-bit one that the annotation \<open>enum_wire\<close> defines.\<close>
theorem enum_wire_correct:
  assumes "- 2147483648 \<le> sint v" and "sint v \<le> 4294967295"
  shows "uint (gremlin_enum_wire v) = enum_wire (sint v)"
  using assms by (rule enum_wire_spec)

theorem enum_wire_correct_witness:
  "uint (gremlin_enum_wire (- 1)) = 18446744073709551615"
  using enum_wire_correct [of "- 1"] by (simp add: enum_wire_def)

end
