(* ===== verification/Arena.thy ===== *)
theory Arena
  imports Prelude
begin

text \<open>
  The chunked bump allocator of \<open>descriptors/src/arena.c\<close>, its \<open>malloc\<close>-backed
  growth (\<open>arena_std.c\<close>) and the C heap it draws chunks from.  Addresses are
  natural numbers and 0 is \<open>NULL\<close>; an arena is the list of its chunks, whose
  length is \<open>n_chunks\<close>, and its growth callback with the context pointer already
  applied.  The world the callback acts on (the heap) is passed explicitly.
  Every \<open>cap\<close> is at most 0x7FFFFFFE and there are at most 64 chunks, so no
  \<open>size_t\<close> sum of the code wraps.
\<close>

section \<open>Arenas\<close>

record gremlind_arena_chunk =
  ck_base :: nat
  ck_cap :: nat
  ck_used :: nat

type_synonym 'w gremlind_grow_fn = "nat \<Rightarrow> 'w \<Rightarrow> (nat \<times> nat) \<times> 'w"

record 'w gremlind_arena =
  ar_chunks :: "gremlind_arena_chunk list"
  ar_grow :: "'w gremlind_grow_fn option"

abbreviation (input) GREMLIND_MAX_CHUNKS :: nat where "GREMLIND_MAX_CHUNKS \<equiv> 64"
abbreviation (input) GREMLIND_ALIGN :: nat where "GREMLIND_ALIGN \<equiv> 8"
abbreviation (input) chunk_limit :: nat where "chunk_limit \<equiv> 0x7FFFFFFE"

definition gremlind_arena_init :: "nat \<Rightarrow> nat \<Rightarrow> 'w gremlind_grow_fn option \<Rightarrow> 'w gremlind_arena" where
  "gremlind_arena_init base cap grow =
     \<lparr>ar_chunks = [\<lparr>ck_base = base, ck_cap = cap, ck_used = 0\<rparr>], ar_grow = grow\<rparr>"

definition gremlind_arena_push_chunk ::
    "'w gremlind_arena \<Rightarrow> nat \<Rightarrow> nat \<Rightarrow> bool \<times> 'w gremlind_arena" where
  "gremlind_arena_push_chunk a base cap =
     (if length (ar_chunks a) \<ge> GREMLIND_MAX_CHUNKS then (False, a)
      else (True, a\<lparr>ar_chunks := ar_chunks a @ [\<lparr>ck_base = base, ck_cap = cap, ck_used = 0\<rparr>]\<rparr>))"

definition align_up :: "nat \<Rightarrow> nat" where
  "align_up sz = (let rem = sz mod GREMLIND_ALIGN in
     if rem \<noteq> 0 then sz + (GREMLIND_ALIGN - rem) else sz)"

definition gremlind_arena_try_alloc :: "'w gremlind_arena \<Rightarrow> nat \<Rightarrow> nat \<times> 'w gremlind_arena" where
  "gremlind_arena_try_alloc a sz =
     (if sz = 0 then (0, a)
      else if sz > chunk_limit - (GREMLIND_ALIGN - 1) then (0, a)
      else let aligned_size = align_up sz;
               idx = length (ar_chunks a) - 1;
               cur = ar_chunks a ! idx in
        if aligned_size > ck_cap cur - ck_used cur then (0, a)
        else (ck_base cur + ck_used cur,
              a\<lparr>ar_chunks := (ar_chunks a)[idx := cur\<lparr>ck_used := ck_used cur + aligned_size\<rparr>]\<rparr>))"

definition total_cap :: "'w gremlind_arena \<Rightarrow> nat" where
  "total_cap a = sum_list (map ck_cap (ar_chunks a))"

definition gremlind_arena_alloc ::
    "'w gremlind_arena \<Rightarrow> nat \<Rightarrow> 'w \<Rightarrow> nat \<times> 'w gremlind_arena \<times> 'w" where
  "gremlind_arena_alloc a sz w =
     (case gremlind_arena_try_alloc a sz of (p, a1) \<Rightarrow>
      if p \<noteq> 0 then (p, a1, w)
      else if sz = 0 \<or> ar_grow a1 = None then (0, a1, w)
      else if length (ar_chunks a1) \<ge> GREMLIND_MAX_CHUNKS then (0, a1, w)
      else let requested = (if sz > total_cap a1 then sz else total_cap a1) in
        (case the (ar_grow a1) requested w of ((mem, new_cap), w1) \<Rightarrow>
         if mem = 0 \<or> new_cap < sz \<or> new_cap > chunk_limit then (0, a1, w1)
         else (case gremlind_arena_push_chunk a1 mem new_cap of (pushed, a2) \<Rightarrow>
           if \<not> pushed then (0, a2, w1)
           else (case gremlind_arena_try_alloc a2 sz of (q, a3) \<Rightarrow> (q, a3, w1)))))"

definition gremlind_arena_bytes_used :: "'w gremlind_arena \<Rightarrow> nat" where
  "gremlind_arena_bytes_used a = sum_list (map ck_used (ar_chunks a))"

section \<open>The C heap\<close>

text \<open>
  \<open>malloc\<close> may put a block anywhere it likes, or fail: the heap carries its
  placement policy, an arbitrary function of the request and the live blocks.  A
  placement that is \<open>NULL\<close>, misaligned or overlaps a live block counts as a
  failed allocation, so the model covers exactly the behaviours the C standard
  allows.
\<close>

type_synonym block = "nat \<times> nat"

record heap =
  hp_blocks :: "block list"
  hp_place :: "nat \<Rightarrow> block list \<Rightarrow> nat"

fun apart :: "block \<Rightarrow> block \<Rightarrow> bool" where
  "apart (p, n) (q, m) \<longleftrightarrow> p + n \<le> q \<or> q + m \<le> p"

definition libc_malloc :: "nat \<Rightarrow> heap \<Rightarrow> nat \<times> heap" where
  "libc_malloc n h =
     (let p = hp_place h n (hp_blocks h) in
      if p \<noteq> 0 \<and> p mod 16 = 0 \<and> list_all (apart (p, n)) (hp_blocks h)
      then (p, h\<lparr>hp_blocks := (p, n) # hp_blocks h\<rparr>) else (0, h))"

definition libc_free :: "nat \<Rightarrow> heap \<Rightarrow> heap" where
  "libc_free p h = h\<lparr>hp_blocks := filter (\<lambda>(q, n). q \<noteq> p) (hp_blocks h)\<rparr>"

section \<open>Growth by malloc\<close>

definition gremlind_malloc_grow :: "heap gremlind_grow_fn" where
  "gremlind_malloc_grow min_size h =
     (if min_size = 0 \<or> min_size > chunk_limit then ((0, 0), h)
      else let PAGE = (4096 :: u64);
               rounded = unat ((of_nat min_size + PAGE - 1) AND NOT (PAGE - 1));
               cap = (if rounded < min_size \<or> rounded > chunk_limit then min_size else rounded) in
        (case libc_malloc cap h of (mem, h1) \<Rightarrow>
           if mem = 0 then ((0, 0), h1) else ((mem, cap), h1)))"

definition gremlind_arena_init_malloc :: "nat \<Rightarrow> heap \<Rightarrow> heap gremlind_arena option \<times> heap" where
  "gremlind_arena_init_malloc first_cap h =
     (if first_cap = 0 \<or> first_cap > chunk_limit then (None, h)
      else (case libc_malloc first_cap h of (mem, h1) \<Rightarrow>
        if mem = 0 then (None, h1)
        else (Some (gremlind_arena_init mem first_cap (Some gremlind_malloc_grow)), h1)))"

definition gremlind_arena_free_malloc :: "heap gremlind_arena \<Rightarrow> heap \<Rightarrow> heap gremlind_arena \<times> heap" where
  "gremlind_arena_free_malloc a h =
     (a\<lparr>ar_chunks := [], ar_grow := None\<rparr>,
      foldl (\<lambda>h c. libc_free (ck_base c) h) h (ar_chunks a))"

section \<open>Basic facts\<close>

lemma align_up_div: "align_up n = (n + 7) div 8 * 8"
proof -
  obtain q r where n: "n = q * 8 + r" "r < 8"
    by (metis div_mult_mod_eq mod_less_divisor zero_less_numeral)
  then have "(n + 7) div 8 = (if r = 0 then q else q + 1)" by auto
  moreover have "n mod 8 = r" using n by simp
  ultimately show ?thesis using n by (simp add: align_up_def)
qed

lemma align_up_bounds [simp]: "n \<le> align_up n" "align_up n < n + 8" "8 dvd align_up n"
proof -
  have "(n + 7) div 8 * 8 = n + 7 - (n + 7) mod 8" by (simp add: minus_mod_eq_div_mult)
  then show "n \<le> align_up n" "align_up n < n + 8" by (simp_all add: align_up_div)
qed (simp add: align_up_div)

lemma align_up_pos [simp]: "n \<noteq> 0 \<Longrightarrow> align_up n \<noteq> 0"
  using align_up_bounds(1) [of n] by linarith

text \<open>Rounding up to a page on 64-bit words is rounding up of numbers.\<close>

lemma page_round:
  assumes "n \<le> chunk_limit"
  shows "unat ((of_nat n + (4096 :: u64) - 1) AND NOT (4096 - 1)) = (n + 4095) div 4096 * 4096"
proof -
  let ?x = "of_nat n + (4096 :: u64) - 1"
  have x: "unat ?x = n + 4095"
  proof -
    have "?x = of_nat (n + 4095)" by simp
    then show ?thesis using assms by (simp only: unat_of_nat) simp
  qed
  have "?x AND NOT (4096 - 1) = ?x AND NOT (mask 12)" by (simp add: mask_eq_exp_minus_1)
  also have "\<dots> = push_bit 12 (drop_bit 12 ?x)"
    by (simp add: bit_eq_iff bit_simps) (auto simp: not_less)
  finally have "unat (?x AND NOT (4096 - 1)) = unat (push_bit 12 (drop_bit 12 ?x))" by (rule arg_cong)
  also have "\<dots> = take_bit 64 (push_bit 12 (unat (drop_bit 12 ?x)))"
    by (simp add: unsigned_push_bit_eq)
  also have "\<dots> = take_bit 64 ((n + 4095) div 4096 * 4096)"
    by (simp only: unsigned_drop_bit_eq x) (use assms in \<open>simp add: drop_bit_eq_div push_bit_eq_mult take_bit_nat_eq_self\<close>)
  also have "\<dots> = (n + 4095) div 4096 * 4096"
  proof (rule take_bit_nat_eq_self)
    have "(n + 4095) div 4096 * 4096 \<le> n + 4095" by simp
    then show "(n + 4095) div 4096 * 4096 < 2 ^ 64" using assms by simp
  qed
  finally show ?thesis .
qed

section \<open>The invariant\<close>

text \<open>
  \<open>valid_arena\<close> is the predicate of that name in \<open>axioms.h\<close>.  \<open>arena_inv\<close> adds
  what the allocator promises its clients: the live blocks of the world are the
  arena's chunks on top of the \<open>rest\<close>, no two of them overlap, and the regions
  \<open>R\<close> handed out so far lie, aligned and pairwise disjoint, in the used parts of
  the chunks.
\<close>

abbreviation chunk_block :: "gremlind_arena_chunk \<Rightarrow> block" where
  "chunk_block c \<equiv> (ck_base c, ck_cap c)"

definition valid_arena :: "'w gremlind_arena \<Rightarrow> bool" where
  "valid_arena a \<longleftrightarrow> ar_chunks a \<noteq> [] \<and> length (ar_chunks a) \<le> GREMLIND_MAX_CHUNKS \<and>
     (\<forall>c \<in> set (ar_chunks a). ck_used c \<le> ck_cap c \<and> ck_cap c \<le> chunk_limit)"

definition chunk_ok :: "gremlind_arena_chunk \<Rightarrow> bool" where
  "chunk_ok c \<longleftrightarrow> ck_base c \<noteq> 0 \<and> 8 dvd ck_base c \<and> 8 dvd ck_used c \<and>
     0 < ck_cap c \<and> ck_used c \<le> ck_cap c \<and> ck_cap c \<le> chunk_limit"

fun inside :: "block \<Rightarrow> gremlind_arena_chunk \<Rightarrow> bool" where
  "inside (p, n) c \<longleftrightarrow> 0 < n \<and> 8 dvd p \<and> ck_base c \<le> p \<and> p + n \<le> ck_base c + ck_used c"

definition arena_inv :: "'w gremlind_arena \<Rightarrow> block list \<Rightarrow> block list \<Rightarrow> block list \<Rightarrow> bool" where
  "arena_inv a blocks rest R \<longleftrightarrow>
     ar_chunks a \<noteq> [] \<and> length (ar_chunks a) \<le> 32 \<and>
     2 ^ (length (ar_chunks a) - 1) \<le> total_cap a \<and>
     blocks = rev (map chunk_block (ar_chunks a)) @ rest \<and>
     sorted_wrt apart (rev (map chunk_block (ar_chunks a)) @ rest) \<and>
     (\<forall>c \<in> set (ar_chunks a). chunk_ok c) \<and>
     gremlind_arena_bytes_used a = sum_list (map (align_up \<circ> snd) R) \<and>
     sorted_wrt apart R \<and> (\<forall>r \<in> set R. \<exists>c \<in> set (ar_chunks a). inside r c)"

declare apart.simps [simp del]

lemma apart_sym: "apart r s \<longleftrightarrow> apart s r"
  by (cases r; cases s) (auto simp: apart.simps)

lemma arena_inv_valid: "arena_inv a blocks rest R \<Longrightarrow> valid_arena a"
  by (auto simp: arena_inv_def valid_arena_def chunk_ok_def)

text \<open>A region at the end of the used part of the last chunk meets no earlier one.\<close>

lemma apart_fresh:
  assumes "sorted_wrt apart (chunk_block c # map chunk_block cs)"
    and "\<forall>d \<in> set cs. chunk_ok d" and "ck_used c + n \<le> ck_cap c"
    and "d = c \<or> d \<in> set cs" and "inside r d"
  shows "apart (ck_base c + ck_used c, n) r"
proof (cases "d = c")
  case True
  then show ?thesis using assms(5) by (cases r) (auto simp: apart.simps)
next
  case False
  then have "apart (chunk_block c) (chunk_block d)" "chunk_ok d" using assms(1,2,4) by auto
  then show ?thesis using assms(3,5) by (cases r) (auto simp: chunk_ok_def apart.simps)
qed

lemma try_alloc_cases:
  assumes "ar_chunks a = cs @ [c]"
  obtains "gremlind_arena_try_alloc a n = (0, a)"
      and "n = 0 \<or> n > chunk_limit - 7 \<or> ck_used c + align_up n > ck_cap c \<or> ck_cap c < ck_used c"
  | "gremlind_arena_try_alloc a n =
       (ck_base c + ck_used c, a\<lparr>ar_chunks := cs @ [c\<lparr>ck_used := ck_used c + align_up n\<rparr>]\<rparr>)"
      and "n \<noteq> 0" and "n \<le> chunk_limit - 7" and "ck_used c + align_up n \<le> ck_cap c"
proof -
  have "gremlind_arena_try_alloc a n =
    (if n = 0 \<or> n > chunk_limit - 7 \<or> align_up n > ck_cap c - ck_used c then (0, a)
     else (ck_base c + ck_used c, a\<lparr>ar_chunks := cs @ [c\<lparr>ck_used := ck_used c + align_up n\<rparr>]\<rparr>))"
    using assms by (simp add: gremlind_arena_try_alloc_def Let_def)
  moreover have "0 < align_up n" if "n \<noteq> 0" using align_up_pos [OF that] by simp
  then have "ck_used c + align_up n \<le> ck_cap c" if "n \<noteq> 0" "\<not> align_up n > ck_cap c - ck_used c"
    using that by linarith
  ultimately show ?thesis
    using that by (cases "n = 0 \<or> n > chunk_limit - 7 \<or> align_up n > ck_cap c - ck_used c") (force, simp)
qed

lemma try_alloc_inv:
  assumes inv: "arena_inv a blocks rest R" and r: "gremlind_arena_try_alloc a n = (p, a')"
  shows "if p = 0 then a' = a else arena_inv a' blocks rest ((p, n) # R) \<and> ar_grow a' = ar_grow a"
proof -
  have "ar_chunks a \<noteq> []" using inv by (simp add: arena_inv_def)
  then obtain cs c where ch: "ar_chunks a = cs @ [c]" by (cases "ar_chunks a" rule: rev_cases) auto
  have c: "chunk_ok c" and cs: "\<forall>d \<in> set cs. chunk_ok d" and R: "sorted_wrt apart R"
    and ins: "\<forall>r \<in> set R. \<exists>d \<in> set (cs @ [c]). inside r d"
    and ap: "sorted_wrt apart (chunk_block c # rev (map chunk_block cs) @ rest)"
    using inv ch by (auto simp: arena_inv_def)
  from ch show ?thesis
  proof (cases rule: try_alloc_cases [where n = n])
    case 1
    then show ?thesis using r by simp
  next
    case 2
    let ?c = "c\<lparr>ck_used := ck_used c + align_up n\<rparr>"
    have p: "p = ck_base c + ck_used c" and a': "a' = a\<lparr>ar_chunks := cs @ [?c]\<rparr>"
      using r 2(1) by simp_all
    have "p + n \<le> ck_base c + (ck_used c + align_up n)" using p align_up_bounds(1) [of n] by linarith
    then have new: "chunk_ok ?c" "inside (p, n) ?c"
      using c 2(2,4) by (simp_all add: p chunk_ok_def)
    have old: "\<exists>d \<in> set (cs @ [?c]). inside r d" if rR: "r \<in> set R" for r
    proof -
      obtain d where "d \<in> set (cs @ [c])" "inside r d" using bspec [OF ins rR] by (rule bexE)
      moreover have "inside r ?c" if "inside r c" using that by (cases r) simp
      ultimately show ?thesis by auto
    qed
    have room: "ck_used c + n \<le> ck_cap c" using 2(4) align_up_bounds(1) [of n] by linarith
    have ap': "sorted_wrt apart (chunk_block c # map chunk_block (rev cs))"
      using ap by (auto simp: sorted_wrt_append rev_map)
    have "apart (p, n) r" if rR: "r \<in> set R" for r
    proof -
      obtain d where "d = c \<or> d \<in> set (rev cs)" "inside r d" using bspec [OF ins rR] by auto
      then show ?thesis using apart_fresh [OF ap' _ room] cs unfolding p by simp
    qed
    then have "sorted_wrt apart ((p, n) # R)" using R by simp
    moreover have "\<forall>r \<in> set ((p, n) # R). \<exists>d \<in> set (cs @ [?c]). inside r d" using new(2) old by simp
    moreover have "\<forall>d \<in> set (cs @ [?c]). chunk_ok d" using cs new(1) by simp
    ultimately have "arena_inv a' blocks rest ((p, n) # R)"
      using inv a' by (simp add: arena_inv_def ch total_cap_def gremlind_arena_bytes_used_def)
    moreover have "p \<noteq> 0" using c p by (simp add: chunk_ok_def)
    ultimately show ?thesis using a' by simp
  qed
qed

lemma total_cap_push:
  "total_cap (a\<lparr>ar_chunks := ar_chunks a @ [\<lparr>ck_base = q, ck_cap = m, ck_used = 0\<rparr>]\<rparr>) = total_cap a + m"
  by (simp add: total_cap_def)

lemma push_chunk_inv:
  assumes inv: "arena_inv a blocks rest R" and q: "q \<noteq> 0" "8 dvd q" "m \<le> chunk_limit" "total_cap a \<le> m"
    and ap: "list_all (apart (q, m)) blocks"
  shows "\<exists>a'. gremlind_arena_push_chunk a q m = (True, a') \<and> ar_grow a' = ar_grow a \<and>
    arena_inv a' ((q, m) # blocks) rest R"
proof -
  let ?k = "length (ar_chunks a)"
  let ?a = "a\<lparr>ar_chunks := ar_chunks a @ [\<lparr>ck_base = q, ck_cap = m, ck_used = 0\<rparr>]\<rparr>"
  have k: "0 < ?k" "?k \<le> 32" and cap: "2 ^ (?k - 1) \<le> total_cap a"
    using inv by (auto simp: arena_inv_def)
  have "(2147483646 :: nat) < 2 ^ 31" by simp
  then have "2 ^ (?k - 1) < (2 :: nat) ^ 31" using cap q(3,4) by linarith
  then have "?k - 1 < 31" by (rule power_less_imp_less_exp [rotated]) simp
  then have k': "?k \<le> 31" by linarith
  have "2 ^ ?k = 2 * (2 :: nat) ^ (?k - 1)" using k by (cases ?k) auto
  then have tot: "2 ^ ?k \<le> total_cap ?a" using cap q(4) unfolding total_cap_push by linarith
  have "0 < (2 :: nat) ^ (?k - 1)" by (rule zero_less_power) simp
  then have "0 < m" using cap q(4) by linarith
  then have c: "chunk_ok \<lparr>ck_base = q, ck_cap = m, ck_used = 0\<rparr>" using q by (simp add: chunk_ok_def)
  have "\<forall>c \<in> set (ar_chunks a). chunk_ok c" "sorted_wrt apart (rev (map chunk_block (ar_chunks a)) @ rest)"
    "\<forall>r \<in> set R. \<exists>c \<in> set (ar_chunks a). inside r c"
    "blocks = rev (map chunk_block (ar_chunks a)) @ rest"
    using inv unfolding arena_inv_def by simp_all
  then have "sorted_wrt apart ((q, m) # rev (map chunk_block (ar_chunks a)) @ rest)" "\<forall>c \<in> set (ar_chunks ?a). chunk_ok c"
    "\<forall>r \<in> set R. \<exists>c \<in> set (ar_chunks ?a). inside r c"
    using ap c by (simp_all add: list_all_iff bex_Un)
  then have "arena_inv ?a ((q, m) # blocks) rest R"
    using inv k' tot unfolding arena_inv_def by (simp add: gremlind_arena_bytes_used_def)
  moreover have "gremlind_arena_push_chunk a q m = (True, ?a)"
    using k' by (simp add: gremlind_arena_push_chunk_def)
  ultimately show ?thesis by simp
qed

text \<open>A client that asks for one region after another and keeps those it gets.\<close>

fun alloc_all :: "nat list \<Rightarrow> block list \<Rightarrow> 'w gremlind_arena \<Rightarrow> 'w \<Rightarrow> block list \<times> 'w gremlind_arena \<times> 'w" where
  "alloc_all [] R a w = (R, a, w)"
| "alloc_all (n # ns) R a w =
     (case gremlind_arena_alloc a n w of (p, a', w') \<Rightarrow>
        alloc_all ns (if p = 0 then R else (p, n) # R) a' w')"

section \<open>The growth contract and its client\<close>

text \<open>
  What \<open>axioms.h\<close> asks of a growth callback: a block of at least the requested
  size, aligned and fresh, or \<open>NULL\<close> with nothing changed.  \<open>live\<close> lists the
  blocks of the world.
\<close>

locale chunk_source =
  fixes grow :: "'w gremlind_grow_fn" and live :: "'w \<Rightarrow> block list"
  assumes grow_null: "grow n w = ((0, m), w') \<Longrightarrow> live w' = live w"
    and grow_fresh: "grow n w = ((q, m), w') \<Longrightarrow> q \<noteq> 0 \<Longrightarrow>
      8 dvd q \<and> n \<le> m \<and> m \<le> chunk_limit \<and> list_all (apart (q, m)) (live w) \<and> live w' = (q, m) # live w"
begin

lemma alloc_inv:
  assumes inv: "arena_inv a (live w) rest R" and g: "ar_grow a = Some grow"
    and r: "gremlind_arena_alloc a n w = (p, a', w')"
  shows "arena_inv a' (live w') rest (if p = 0 then R else (p, n) # R) \<and> ar_grow a' = Some grow"
proof -
  obtain p1 a1 where t: "gremlind_arena_try_alloc a n = (p1, a1)" by fastforce
  show ?thesis
  proof (cases "p1 \<noteq> 0")
    case True
    then show ?thesis using try_alloc_inv [OF inv t] r t g by (auto simp: gremlind_arena_alloc_def)
  next
    case False
    let ?req = "if n > total_cap a then n else total_cap a"
    have a1: "a1 = a" using try_alloc_inv [OF inv t] False by simp
    obtain q m w1 where gr: "grow ?req w = ((q, m), w1)" by (metis surj_pair)
    show ?thesis
    proof (cases "n = 0 \<or> length (ar_chunks a) \<ge> GREMLIND_MAX_CHUNKS \<or> q = 0")
      case True
      then show ?thesis using r t False g gr a1 inv grow_null [of ?req w m w1]
        by (auto simp: gremlind_arena_alloc_def Let_def split: if_splits)
    next
      case q: False
      then have f: "8 dvd q" "?req \<le> m" "m \<le> chunk_limit" "list_all (apart (q, m)) (live w)"
        "live w1 = (q, m) # live w"
        using grow_fresh [OF gr] by auto
      then have "total_cap a \<le> m" "\<not> m < n" by (auto split: if_splits)
      with inv f q obtain a2 where a2: "gremlind_arena_push_chunk a q m = (True, a2)"
        "ar_grow a2 = ar_grow a" "arena_inv a2 (live w1) rest R"
        using push_chunk_inv by (metis (no_types, lifting))
      obtain p3 a3 where t3: "gremlind_arena_try_alloc a2 n = (p3, a3)" by fastforce
      have "p = p3" "a' = a3" "w' = w1"
        using r t False q g gr a1 a2(1) t3 f(3) \<open>\<not> m < n\<close>
        by (auto simp: gremlind_arena_alloc_def Let_def)
      then show ?thesis using try_alloc_inv [OF a2(3) t3] a2 g by (auto split: if_splits)
    qed
  qed
qed

lemma alloc_all_inv:
  "arena_inv a (live w) rest R \<Longrightarrow> ar_grow a = Some grow \<Longrightarrow> alloc_all ns R a w = (R', a', w') \<Longrightarrow>
   arena_inv a' (live w') rest R' \<and> ar_grow a' = Some grow"
proof (induction ns arbitrary: R a w)
  case Nil
  then show ?case by simp
next
  case (Cons n ns)
  obtain p a1 w1 where r: "gremlind_arena_alloc a n w = (p, a1, w1)" by (metis surj_pair)
  note inv = alloc_inv [OF Cons.prems(1,2) r]
  have "alloc_all ns (if p = 0 then R else (p, n) # R) a1 w1 = (R', a', w')" using Cons.prems(3) r by simp
  from Cons.IH [OF conjunct1 [OF inv] conjunct2 [OF inv] this] show ?case .
qed

end

section \<open>The malloc-backed arena\<close>

definition heap_ok :: "heap \<Rightarrow> bool" where
  "heap_ok h \<longleftrightarrow> sorted_wrt apart (hp_blocks h) \<and> (\<forall>(p, n) \<in> set (hp_blocks h). 0 < n)"

text \<open>The capacity a growth request is rounded up to.\<close>

definition page_cap :: "nat \<Rightarrow> nat" where
  "page_cap n = (let r = (n + 4095) div 4096 * 4096 in if r > chunk_limit then n else r)"

lemma page_cap_bounds: "n \<le> chunk_limit \<Longrightarrow> n \<le> page_cap n \<and> page_cap n \<le> chunk_limit"
proof -
  have "(n + 4095) div 4096 * 4096 = n + 4095 - (n + 4095) mod 4096" by (simp add: minus_mod_eq_div_mult)
  then have "n \<le> (n + 4095) div 4096 * 4096" by simp
  then show "n \<le> chunk_limit \<Longrightarrow> ?thesis" by (simp add: page_cap_def Let_def)
qed

lemma malloc_grow_eq:
  "gremlind_malloc_grow n h =
     (if n = 0 \<or> n > chunk_limit then ((0, 0), h)
      else case libc_malloc (page_cap n) h of (q, h') \<Rightarrow> if q = 0 then ((0, 0), h') else ((q, page_cap n), h'))"
proof (cases "n = 0 \<or> n > chunk_limit")
  case True
  then show ?thesis by (auto simp: gremlind_malloc_grow_def)
next
  case False
  let ?r = "unat ((of_nat n + (4096 :: u64) - 1) AND NOT (4096 - 1))"
  have r: "?r = (n + 4095) div 4096 * 4096" by (rule page_round) (use False in simp)
  have "n \<le> page_cap n" using False page_cap_bounds by simp
  then have eq: "(if ?r < n \<or> ?r > chunk_limit then n else ?r) = page_cap n"
    unfolding r by (simp add: page_cap_def Let_def split: if_splits)
  show ?thesis unfolding gremlind_malloc_grow_def Let_def eq ..
qed

lemma libc_malloc_cases:
  obtains "libc_malloc n h = (0, h)"
  | q where "libc_malloc n h = (q, h\<lparr>hp_blocks := (q, n) # hp_blocks h\<rparr>)" "q \<noteq> 0" "8 dvd q"
      "list_all (apart (q, n)) (hp_blocks h)"
proof -
  have "8 dvd q" if "q mod 16 = 0" for q :: nat 
    by (rule dvd_trans [of _ 16]) (use that in auto)
  then show ?thesis
    using that(2) [of "hp_place h n (hp_blocks h)"] that(1)
    by (cases "hp_place h n (hp_blocks h) \<noteq> 0 \<and> hp_place h n (hp_blocks h) mod 16 = 0 \<and>
        list_all (apart (hp_place h n (hp_blocks h), n)) (hp_blocks h)")
      (simp_all add: libc_malloc_def Let_def)
qed

interpretation malloc_source: chunk_source gremlind_malloc_grow hp_blocks
proof
  fix n m h h'
  assume "gremlind_malloc_grow n h = ((0, m), h')"
  then show "hp_blocks h' = hp_blocks h"
    by (cases rule: libc_malloc_cases [of "page_cap n" h]) (auto simp: malloc_grow_eq split: if_splits)
next
  fix n q m h h'
  assume "gremlind_malloc_grow n h = ((q, m), h')" "q \<noteq> 0"
  then show "8 dvd q \<and> n \<le> m \<and> m \<le> chunk_limit \<and> list_all (apart (q, m)) (hp_blocks h) \<and>
      hp_blocks h' = (q, m) # hp_blocks h"
    using page_cap_bounds [of n]
    by (cases rule: libc_malloc_cases [of "page_cap n" h]) (auto simp: malloc_grow_eq split: if_splits)
qed

lemma init_malloc_inv:
  assumes h: "heap_ok h" and r: "gremlind_arena_init_malloc cap h = (Some a, h1)"
  shows "arena_inv a (hp_blocks h1) (hp_blocks h) [] \<and> ar_grow a = Some gremlind_malloc_grow"
proof -
  have cap: "0 < cap" "cap \<le> chunk_limit" using r by (auto simp: gremlind_arena_init_malloc_def split: if_splits)
  obtain q where "libc_malloc cap h = (q, h1)" "q \<noteq> 0" "a = gremlind_arena_init q cap (Some gremlind_malloc_grow)"
    using r by (auto simp: gremlind_arena_init_malloc_def split: if_splits prod.splits)
  moreover from this have "8 dvd q" "list_all (apart (q, cap)) (hp_blocks h)" "hp_blocks h1 = (q, cap) # hp_blocks h"
    by (cases rule: libc_malloc_cases [of cap h]; simp)+
  ultimately show ?thesis using h cap
    by (simp add: arena_inv_def gremlind_arena_init_def total_cap_def chunk_ok_def heap_ok_def
        list_all_iff gremlind_arena_bytes_used_def)
qed

lemma blocks_after_free:
  "hp_blocks (foldl (\<lambda>h c. libc_free (ck_base c) h) h cs) =
     filter (\<lambda>(q, n). q \<notin> ck_base ` set cs) (hp_blocks h)"
  by (induction cs arbitrary: h) (auto simp: libc_free_def intro: filter_cong)

lemma free_malloc_blocks:
  assumes inv: "arena_inv a (hp_blocks h1) (hp_blocks h) R" and h: "heap_ok h"
  shows "hp_blocks (snd (gremlind_arena_free_malloc a h1)) = hp_blocks h"
proof -
  have ap: "sorted_wrt apart (rev (map chunk_block (ar_chunks a)) @ hp_blocks h)"
    and ok: "\<forall>c \<in> set (ar_chunks a). chunk_ok c"
    and eq: "hp_blocks h1 = rev (map chunk_block (ar_chunks a)) @ hp_blocks h"
    using inv by (simp_all add: arena_inv_def)
  have "q \<notin> ck_base ` set (ar_chunks a)" if qn: "(q, n) \<in> set (hp_blocks h)" for q n
  proof
    assume "q \<in> ck_base ` set (ar_chunks a)"
    then obtain c where c: "c \<in> set (ar_chunks a)" "q = ck_base c" by auto
    have "apart (chunk_block c) (q, n)" using ap qn c(1) by (auto simp: sorted_wrt_append)
    moreover have "0 < n" using h qn by (auto simp: heap_ok_def)
    moreover have "0 < ck_cap c" using ok c(1) by (simp add: chunk_ok_def)
    ultimately show False using c(2) by (simp add: apart.simps)
  qed
  then have "filter (\<lambda>(q, n). q \<notin> ck_base ` set (ar_chunks a)) (hp_blocks h) = hp_blocks h"
    by (auto intro!: filter_True)
  moreover have "filter (\<lambda>(q, n). q \<notin> ck_base ` set (ar_chunks a)) (rev (map chunk_block (ar_chunks a))) = []"
    by (auto simp: filter_empty_conv)
  ultimately show ?thesis by (simp add: gremlind_arena_free_malloc_def blocks_after_free eq)
qed

lemma align_up_least: "n \<le> k \<Longrightarrow> 8 dvd k \<Longrightarrow> align_up n \<le> k"
proof -
  assume k: "n \<le> k" "8 dvd k"
  then obtain i where i: "k = 8 * i" by (elim dvdE)
  obtain j where j: "align_up n = 8 * j" using align_up_bounds(3) [of n] by (elim dvdE)
  have "8 * j < 8 * i + 8" using align_up_bounds(2) [of n] k(1) i j by linarith
  then show ?thesis using i j by simp
qed

text \<open>A new chunk has room for the request it was made for.\<close>

lemma page_cap_room:
  assumes "n \<le> m" "m \<le> chunk_limit" "n \<le> 0x7FFFF000"
  shows "align_up n \<le> page_cap m"
proof (cases "(m + 4095) div 4096 * 4096 > chunk_limit")
  case True
  then have "m > 0x7FFFF000" by (simp add: div_less_iff_less_mult less_eq_div_iff_mult_less_eq [symmetric])
  moreover have "align_up n \<le> 0x7FFFF000" using assms(3) by (rule align_up_least) simp
  ultimately show ?thesis using True by (simp add: page_cap_def)
next
  case False
  have "(m + 4095) div 4096 * 4096 = m + 4095 - (m + 4095) mod 4096" by (simp add: minus_mod_eq_div_mult)
  then have "n \<le> (m + 4095) div 4096 * 4096" using assms(1) by simp
  moreover have "8 dvd (m + 4095) div 4096 * (4096 :: nat)" by (rule dvd_mult) simp
  ultimately show ?thesis using False align_up_least by (simp add: page_cap_def)
qed

definition last_room :: "'w gremlind_arena \<Rightarrow> nat" where
  "last_room a = (let c = last (ar_chunks a) in ck_cap c - ck_used c)"

lemma alloc_null_iff:
  assumes inv: "arena_inv a (hp_blocks h) rest R" and g: "ar_grow a = Some gremlind_malloc_grow"
    and n: "0 < n" "n \<le> 0x7FFFF000"
  shows "fst (gremlind_arena_alloc a n h) = 0 \<longleftrightarrow> last_room a < align_up n \<and>
    (total_cap a > chunk_limit \<or> fst (libc_malloc (page_cap (max n (total_cap a))) h) = 0)"
proof -
  have "ar_chunks a \<noteq> []" using inv by (simp add: arena_inv_def)
  then obtain cs c where ch: "ar_chunks a = cs @ [c]" by (cases "ar_chunks a" rule: rev_cases) auto
  have c: "chunk_ok c" and len: "length (ar_chunks a) \<le> 32" using inv ch by (simp_all add: arena_inv_def)
  have room: "last_room a = ck_cap c - ck_used c" by (simp add: last_room_def ch)
  from ch show ?thesis
  proof (cases rule: try_alloc_cases [where n = n])
    case 2
    have "\<not> last_room a < align_up n" using 2(4) room by linarith
    then show ?thesis using 2(1) c by (simp add: gremlind_arena_alloc_def chunk_ok_def)
  next
    case 1
    let ?m = "max n (total_cap a)"
    have less: "last_room a < align_up n" using 1(2) n c room by (auto simp: chunk_ok_def)
    have req: "(if n > total_cap a then n else total_cap a) = ?m" by (simp add: max_def)
    show ?thesis
    proof (cases "total_cap a > chunk_limit")
      case True
      then have "?m > chunk_limit" by (simp add: less_max_iff_disj)
      then have "gremlind_malloc_grow ?m h = ((0, 0), h)" by (simp add: malloc_grow_eq)
      then show ?thesis using 1(1) g len less True n unfolding gremlind_arena_alloc_def
        by (simp add: req)
    next
      case False
      obtain q h1 where q: "libc_malloc (page_cap ?m) h = (q, h1)" by fastforce
      have m: "n \<le> ?m" "?m \<le> chunk_limit" "?m \<noteq> 0" using False n by auto
      let ?a = "a\<lparr>ar_chunks := ar_chunks a @ [\<lparr>ck_base = q, ck_cap = page_cap ?m, ck_used = 0\<rparr>]\<rparr>"
      have push: "gremlind_arena_push_chunk a q (page_cap ?m) = (True, ?a)"
        using len by (simp add: gremlind_arena_push_chunk_def)
      have fits: "fst (gremlind_arena_try_alloc ?a n) = q"
        using page_cap_room [OF m(1,2) n(2)] n by (simp add: gremlind_arena_try_alloc_def Let_def)
      then obtain a3 where fits: "gremlind_arena_try_alloc ?a n = (q, a3)" by (metis prod.collapse)
      have "gremlind_malloc_grow ?m h = (if q = 0 then ((0, 0), h1) else ((q, page_cap ?m), h1))"
      proof -
        have "\<not> (?m = 0 \<or> ?m > chunk_limit)" using m(2,3) by linarith
        then show ?thesis by (subst malloc_grow_eq) (simp only: if_False q prod.case)
      qed
      moreover have "n \<le> page_cap ?m" "page_cap ?m \<le> chunk_limit"
        using page_cap_bounds [OF m(2)] m(1) by linarith+
      ultimately have "fst (gremlind_arena_alloc a n h) = q"
        using 1(1) g len n push fits unfolding gremlind_arena_alloc_def
        by (simp add: req not_less Let_def)
      then show ?thesis using q less False by simp
    qed
  qed
qed

section \<open>Properties\<close>

text \<open>C9. Memory safety of the malloc-backed arena under every placement policy
  of \<open>malloc\<close>: whatever sequence of requests a client makes, the regions it was
  given are non-empty, 8-aligned, pairwise disjoint and each inside one of the
  blocks the arena owns; the arena's blocks sit on top of the blocks that were
  live before and overlap none of them; and \<open>bytes_used\<close> is the sum of the
  rounded requests.\<close>
theorem arena_regions_safe:
  assumes "heap_ok h" and "gremlind_arena_init_malloc cap h = (Some a, h1)"
    and "alloc_all ns [] a h1 = (R, a', h2)"
  shows "\<exists>owned. hp_blocks h2 = owned @ hp_blocks h \<and> sorted_wrt apart (hp_blocks h2) \<and> sorted_wrt apart R \<and>
    (\<forall>(p, n) \<in> set R. 0 < n \<and> p mod 8 = 0 \<and> (\<exists>(q, m) \<in> set owned. q \<noteq> 0 \<and> q \<le> p \<and> p + n \<le> q + m)) \<and>
    gremlind_arena_bytes_used a' = sum_list (map (align_up \<circ> snd) R)"
proof -
  let ?owned = "rev (map chunk_block (ar_chunks a'))"
  have inv: "arena_inv a' (hp_blocks h2) (hp_blocks h) R"
    using malloc_source.alloc_all_inv init_malloc_inv [OF assms(1,2)] assms(3) by blast
  have "0 < n \<and> p mod 8 = 0 \<and> (\<exists>(q, m) \<in> set ?owned. q \<noteq> 0 \<and> q \<le> p \<and> p + n \<le> q + m)"
    if r: "(p, n) \<in> set R" for p n
  proof -
    have "\<forall>r \<in> set R. \<exists>c \<in> set (ar_chunks a'). inside r c" "\<forall>c \<in> set (ar_chunks a'). chunk_ok c"
      using inv by (simp_all add: arena_inv_def)
    with bspec [OF this(1) r] obtain c where c: "c \<in> set (ar_chunks a')" "inside (p, n) c" "chunk_ok c" by blast
    then have "chunk_block c \<in> set ?owned" "ck_base c \<noteq> 0 \<and> ck_base c \<le> p \<and> p + n \<le> ck_base c + ck_cap c"
      by (auto simp: chunk_ok_def)
    then show ?thesis using c(2) by (intro conjI bexI [of _ "chunk_block c"]) auto
  qed
  then have "\<forall>(p, n) \<in> set R. 0 < n \<and> p mod 8 = 0 \<and>
      (\<exists>(q, m) \<in> set ?owned. q \<noteq> 0 \<and> q \<le> p \<and> p + n \<le> q + m)" by blast
  then show ?thesis using inv by (intro exI [of _ ?owned]) (simp add: arena_inv_def)
qed

text \<open>C34. No leak, and the chunk table never fills: after any sequence of requests
  the arena has at most 32 of its 64 chunks, since every growth at least doubles
  the capacity, and freeing it gives the heap back exactly the blocks it had
  before the arena was made.\<close>
theorem arena_free_restores_heap:
  assumes "heap_ok h" and "gremlind_arena_init_malloc cap h = (Some a, h1)"
    and "alloc_all ns [] a h1 = (R, a', h2)"
  shows "length (ar_chunks a') \<le> 32 \<and> hp_blocks (snd (gremlind_arena_free_malloc a' h2)) = hp_blocks h"
proof -
  have inv: "arena_inv a' (hp_blocks h2) (hp_blocks h) R"
    using malloc_source.alloc_all_inv init_malloc_inv [OF assms(1,2)] assms(3) by blast
  then show ?thesis using free_malloc_blocks [OF inv assms(1)] by (simp add: arena_inv_def)
qed

text \<open>C35. When an allocation fails: a request of up to 0x7FFFF000 bytes yields \<open>NULL\<close>
  exactly when the last chunk has no room for it and either the chunks together
  already exceed 0x7FFFFFFE bytes or \<open>malloc\<close> fails.  The first case is a limit
  the arena reaches with a heap that has memory left, whatever the request.\<close>
theorem arena_alloc_null_iff:
  assumes "heap_ok h" and "gremlind_arena_init_malloc cap h = (Some a, h1)"
    and "alloc_all ns [] a h1 = (R, a', h2)" and "0 < n" and "n \<le> 0x7FFFF000"
  shows "fst (gremlind_arena_alloc a' n h2) = 0 \<longleftrightarrow> last_room a' < align_up n \<and>
    (total_cap a' > chunk_limit \<or> fst (libc_malloc (page_cap (max n (total_cap a'))) h2) = 0)"
proof -
  have inv: "arena_inv a' (hp_blocks h2) (hp_blocks h) R \<and> ar_grow a' = Some gremlind_malloc_grow"
    using malloc_source.alloc_all_inv init_malloc_inv [OF assms(1,2)] assms(3) by blast
  show ?thesis by (rule alloc_null_iff [OF conjunct1 [OF inv] conjunct2 [OF inv] assms(4,5)])
qed

section \<open>A run\<close>

text \<open>A heap with one live block; a 64-byte first chunk and two requests, the second of which grows it.\<close>

definition sample_heap :: heap where
  "sample_heap = \<lparr>hp_blocks = [(16, 8)], hp_place = (\<lambda>n bs. 4096 * length bs)\<rparr>"

definition sample_arena :: "nat \<Rightarrow> heap gremlind_arena" where
  "sample_arena used = \<lparr>ar_chunks = \<lparr>ck_base = 4096, ck_cap = 64, ck_used = used\<rparr> #
     (if used = 0 then [] else [\<lparr>ck_base = 8192, ck_cap = 4096, ck_used = 104\<rparr>]),
     ar_grow = Some gremlind_malloc_grow\<rparr>"

lemma sample_heap_ok: "heap_ok sample_heap"
  by (simp add: heap_ok_def sample_heap_def)

lemma sample_init:
  "gremlind_arena_init_malloc 64 sample_heap =
     (Some (sample_arena 0), sample_heap\<lparr>hp_blocks := [(4096, 64), (16, 8)]\<rparr>)"
  by (simp add: gremlind_arena_init_malloc_def libc_malloc_def sample_heap_def apart.simps
      gremlind_arena_init_def sample_arena_def)

lemma sample_first:
  "gremlind_arena_alloc (sample_arena 0) 10 h =
     (4096, (sample_arena 0)\<lparr>ar_chunks := [\<lparr>ck_base = 4096, ck_cap = 64, ck_used = 16\<rparr>]\<rparr>, h)"
  by (simp add: gremlind_arena_alloc_def gremlind_arena_try_alloc_def align_up_def sample_arena_def)

lemma sample_second:
  "gremlind_arena_alloc ((sample_arena 0)\<lparr>ar_chunks := [\<lparr>ck_base = 4096, ck_cap = 64, ck_used = 16\<rparr>]\<rparr>) 100
     (sample_heap\<lparr>hp_blocks := [(4096, 64), (16, 8)]\<rparr>) =
   (8192, sample_arena 16, sample_heap\<lparr>hp_blocks := [(8192, 4096), (4096, 64), (16, 8)]\<rparr>)"
proof -
  have "gremlind_malloc_grow 100 (sample_heap\<lparr>hp_blocks := [(4096, 64), (16, 8)]\<rparr>) =
      ((8192, 4096), sample_heap\<lparr>hp_blocks := [(8192, 4096), (4096, 64), (16, 8)]\<rparr>)"
    by (simp add: malloc_grow_eq page_cap_def libc_malloc_def sample_heap_def apart.simps)
  then show ?thesis
    by (simp add: gremlind_arena_alloc_def gremlind_arena_try_alloc_def align_up_def sample_arena_def
        total_cap_def gremlind_arena_push_chunk_def)
qed

lemma sample_run:
  "alloc_all [10, 100] [] (sample_arena 0) (sample_heap\<lparr>hp_blocks := [(4096, 64), (16, 8)]\<rparr>) =
     ([(8192, 100), (4096, 10)], sample_arena 16,
      sample_heap\<lparr>hp_blocks := [(8192, 4096), (4096, 64), (16, 8)]\<rparr>)"
  using sample_first sample_second by simp

lemma arena_regions_safe_witness:
  "sorted_wrt apart [(8192, 100), (4096, 10)] \<and>
   gremlind_arena_bytes_used (sample_arena 16) = align_up 100 + align_up 10"
  using arena_regions_safe [OF sample_heap_ok sample_init sample_run]
  by (elim exE conjE) (intro conjI, assumption, simp)

lemma arena_free_restores_heap_witness:
  "hp_blocks (snd (gremlind_arena_free_malloc (sample_arena 16)
     (sample_heap\<lparr>hp_blocks := [(8192, 4096), (4096, 64), (16, 8)]\<rparr>))) = [(16, 8)]"
  using arena_free_restores_heap [OF sample_heap_ok sample_init sample_run] by (simp add: sample_heap_def)

lemma arena_alloc_null_iff_witness:
  "fst (gremlind_arena_alloc (sample_arena 16)
     (5000 :: nat) (sample_heap\<lparr>hp_blocks := [(8192, 4096), (4096, 64), (16, 8)]\<rparr>)) \<noteq> 0"
  using arena_alloc_null_iff [OF sample_heap_ok sample_init sample_run, of 5000]
  by (simp add: libc_malloc_def sample_heap_def apart.simps total_cap_def sample_arena_def page_cap_def)

end
