(* ===== verification/Parse_Buffer.thy ===== *)
theory Parse_Buffer
  imports Prelude "HOL-Library.Sublist"
begin

text \<open>
  The cursor of the parser, \<open>parser/src/entries/buffer.c\<close>, with the error codes
  of \<open>errors.h\<close>: a text, its length and an offset; the operations test the next
  characters and advance.  Every operation takes the buffer and returns it with
  its result.  The theory also fixes how the rest of the parser speaks about
  progress: \<open>consumes\<close> (same text, the cursor moved forward inside it) and
  \<open>advances\<close> (nothing changed, or consumes).
\<close>

section \<open>Errors and results\<close>

datatype gremlinp_parsing_error =
    GREMLINP_ERROR_INVALID_SYNTAX_DEF
  | GREMLINP_ERROR_UNEXPECTED_EOF
  | GREMLINP_ERROR_SPACE_REQUIRED
  | GREMLINP_ERROR_INVALID_SYNTAX_VERSION
  | GREMLINP_ERROR_UNEXPECTED_TOKEN
  | GREMLINP_ERROR_PACKAGE_ALREADY_DEFINED
  | GREMLINP_ERROR_EDITION_ALREADY_DEFINED
  | GREMLINP_ERROR_INVALID_STRING_LITERAL
  | GREMLINP_ERROR_INVALID_UNICODE_ESCAPE
  | GREMLINP_ERROR_INVALID_ESCAPE
  | GREMLINP_ERROR_SEMICOLON_EXPECTED
  | GREMLINP_ERROR_ASSIGNMENT_EXPECTED
  | GREMLINP_ERROR_BRACKET_EXPECTED
  | GREMLINP_ERROR_IDENTIFIER_SHOULD_START_WITH_LETTER
  | GREMLINP_ERROR_INVALID_OPTION_NAME
  | GREMLINP_ERROR_INVALID_FIELD_NAME
  | GREMLINP_ERROR_OPTION_VALUE_REQUIRED
  | GREMLINP_ERROR_INVALID_INTEGER_LITERAL
  | GREMLINP_ERROR_INVALID_BOOLEAN_LITERAL
  | GREMLINP_ERROR_INVALID_CONST
  | GREMLINP_ERROR_INVALID_FLOAT
  | GREMLINP_ERROR_INVALID_FIELD_VALUE
  | GREMLINP_ERROR_INVALID_MAP_KEY_TYPE
  | GREMLINP_ERROR_INVALID_MAP_VALUE_TYPE
  | GREMLINP_ERROR_INVALID_ENUM_DEF
  | GREMLINP_ERROR_INVALID_ONEOF_ELEMENT
  | GREMLINP_ERROR_INVALID_EXTENSIONS_RANGE
  | GREMLINP_ERROR_EXTEND_SOURCE_NOT_FOUND
  | GREMLINP_ERROR_TYPE_NOT_FOUND
  | GREMLINP_ERROR_IMPORT_TARGET_NOT_FOUND
  | GREMLINP_ERROR_CIRCULAR_IMPORT
  | GREMLINP_ERROR_IMPORT_PATH_INVALID
  | GREMLINP_ERROR_OVERFLOW
  | GREMLINP_ERROR_INVALID_CHARACTER
  | GREMLINP_ERROR_OUT_OF_MEMORY
  | GREMLINP_ERROR_NULL_POINTER
  | GREMLINP_ERROR_BUFFER_OVERFLOW

record parser_buffer =
  pb_buf :: string
  pb_size :: nat
  pb_offset :: nat

text \<open>A parse result struct is its \<open>error\<close> or its other members, with the buffer after.\<close>

type_synonym 'a parse_result = "(gremlinp_parsing_error + 'a) \<times> parser_buffer"

abbreviation nul :: char where "nul \<equiv> CHR 0x00"
abbreviation newline :: char where "newline \<equiv> CHR 0x0A"

section \<open>Operations\<close>

definition is_whitespace :: "char \<Rightarrow> bool" where
  "is_whitespace c \<longleftrightarrow> c \<in> set [CHR '' '', CHR 0x09, CHR 0x0A, CHR 0x0D]"

definition gremlinp_parser_buffer_init :: "string \<Rightarrow> nat \<Rightarrow> parser_buffer" where
  "gremlinp_parser_buffer_init s off =
     \<lparr>pb_buf = s, pb_size = length (takeWhile (\<lambda>c. c \<noteq> nul) s), pb_offset = off\<rparr>"

definition shift :: "nat \<Rightarrow> parser_buffer \<Rightarrow> parser_buffer" where
  "shift n b = b\<lparr>pb_offset := pb_offset b + n\<rparr>"

definition rewind :: "nat \<Rightarrow> parser_buffer \<Rightarrow> parser_buffer" where
  "rewind off b = b\<lparr>pb_offset := off\<rparr>"

text \<open>\<open>strncmp(pb->buf + off, kw, prefix_len) == 0\<close> for a keyword without a NUL.\<close>

definition text_at :: "parser_buffer \<Rightarrow> string \<Rightarrow> bool" where
  "text_at b kw \<longleftrightarrow> take (length kw) (drop (pb_offset b) (pb_buf b)) = kw"

definition gremlinp_parser_buffer_check_str_and_shift ::
  "parser_buffer \<Rightarrow> string \<Rightarrow> bool \<times> parser_buffer" where
  "gremlinp_parser_buffer_check_str_and_shift b kw =
     (if pb_offset b + length kw > pb_size b then (False, b)
      else if text_at b kw then (True, shift (length kw) b)
      else (False, b))"

definition gremlinp_parser_buffer_check_str_with_space_and_shift ::
  "parser_buffer \<Rightarrow> string \<Rightarrow> bool \<times> parser_buffer" where
  "gremlinp_parser_buffer_check_str_with_space_and_shift b kw =
     (if pb_offset b + length kw \<ge> pb_size b then (False, b)
      else if \<not> text_at b kw then (False, b)
      else if is_whitespace (pb_buf b ! (pb_offset b + length kw))
      then (True, shift (length kw + 1) b)
      else (False, b))"

function skip_line_comment :: "parser_buffer \<Rightarrow> parser_buffer" where
  "skip_line_comment b =
     (if pb_offset b < pb_size b \<and> pb_buf b ! pb_offset b \<noteq> newline
      then skip_line_comment (shift 1 b) else b)"
  by pat_completeness auto
termination
  by (relation "measure (\<lambda>b. pb_size b - pb_offset b)") (auto simp: shift_def)

function skip_block_comment :: "parser_buffer \<Rightarrow> unit parse_result" where
  "skip_block_comment b =
     (if pb_offset b \<ge> pb_size b then (Inl GREMLINP_ERROR_UNEXPECTED_EOF, b)
      else if pb_offset b + 1 < pb_size b \<and> pb_buf b ! pb_offset b = CHR ''*'' \<and>
              pb_buf b ! (pb_offset b + 1) = CHR ''/''
      then (Inr (), shift 2 b)
      else skip_block_comment (shift 1 b))"
  by pat_completeness auto
termination
  by (relation "measure (\<lambda>b. pb_size b - pb_offset b)") (auto simp: shift_def)

declare skip_line_comment.simps [simp del] skip_block_comment.simps [simp del]

section \<open>Progress\<close>

definition consumes :: "parser_buffer \<Rightarrow> parser_buffer \<Rightarrow> bool" where
  "consumes b b' \<longleftrightarrow> pb_buf b' = pb_buf b \<and> pb_size b' = pb_size b \<and>
     pb_offset b < pb_offset b' \<and> pb_offset b' \<le> pb_size b"

definition advances :: "parser_buffer \<Rightarrow> parser_buffer \<Rightarrow> bool" where
  "advances b b' \<longleftrightarrow> b' = b \<or> consumes b b'"

lemma advances_refl [simp, intro]: "advances b b"
  by (simp add: advances_def)

lemma consumes_advances [intro]: "consumes b b' \<Longrightarrow> advances b b'"
  by (simp add: advances_def)

lemma consumes_trans: "consumes a b \<Longrightarrow> consumes b c \<Longrightarrow> consumes a c"
  by (auto simp: consumes_def)

lemma advances_trans: "advances a b \<Longrightarrow> advances b c \<Longrightarrow> advances a c"
  by (auto simp: advances_def intro: consumes_trans)

lemma consumes_advances_trans: "consumes a b \<Longrightarrow> advances b c \<Longrightarrow> consumes a c"
  by (auto simp: advances_def intro: consumes_trans)

lemma advances_consumes_trans: "advances a b \<Longrightarrow> consumes b c \<Longrightarrow> consumes a c"
  by (auto simp: advances_def intro: consumes_trans)

lemma consumes_irrefl [simp]: "\<not> consumes b b"
  by (simp add: consumes_def)

text \<open>The measure of every loop of the parser: the characters left.\<close>

definition remaining :: "parser_buffer \<Rightarrow> nat" where
  "remaining b = pb_size b - pb_offset b"

lemma consumes_remaining: "consumes b b' \<Longrightarrow> remaining b' < remaining b"
  by (auto simp: consumes_def remaining_def)

lemma advances_remaining: "advances b b' \<Longrightarrow> remaining b' \<le> remaining b"
  by (auto simp: advances_def dest: consumes_remaining)

lemma shift_consumes: "0 < n \<Longrightarrow> pb_offset b + n \<le> pb_size b \<Longrightarrow> consumes b (shift n b)"
  by (simp add: consumes_def shift_def)

lemma shift_simps [simp]:
  "pb_buf (shift n b) = pb_buf b" "pb_size (shift n b) = pb_size b"
  "pb_offset (shift n b) = pb_offset b + n"
  by (simp_all add: shift_def)

lemma rewind_simps [simp]:
  "pb_buf (rewind n b) = pb_buf b" "pb_size (rewind n b) = pb_size b"
  "pb_offset (rewind n b) = n"
  by (simp_all add: rewind_def)

lemma shift_then:
  "advances (shift n b) b' \<Longrightarrow> 0 < n \<Longrightarrow> pb_offset b + n \<le> pb_size b \<Longrightarrow> consumes b b'"
  by (rule consumes_advances_trans [OF shift_consumes])

text \<open>Going back to where a parse began undoes it completely.\<close>

lemma rewind_advances: "advances b b' \<Longrightarrow> rewind (pb_offset b) b' = b"
  by (auto simp: advances_def consumes_def rewind_def)

lemma rewind_consumes: "consumes b b' \<Longrightarrow> rewind (pb_offset b) b' = b"
  by (auto simp: consumes_def rewind_def)

lemma skip_line_comment_advances: "advances b (skip_line_comment b)"
proof (induction b rule: skip_line_comment.induct)
  case (1 b)
  then show ?case
    using shift_then [of 1 b "skip_line_comment (shift 1 b)"]
    by (subst skip_line_comment.simps) auto
qed

lemma skip_block_comment_advances: "advances b (snd (skip_block_comment b))"
proof (induction b rule: skip_block_comment.induct)
  case (1 b)
  then show ?case
    using shift_then [of 1 b "snd (skip_block_comment (shift 1 b))"] shift_consumes [of 2 b]
    by (subst skip_block_comment.simps) auto
qed

section \<open>Spaces and comments\<close>

function gremlinp_parser_buffer_skip_spaces :: "parser_buffer \<Rightarrow> unit parse_result" where
  "gremlinp_parser_buffer_skip_spaces b =
     (if pb_offset b < pb_size b then
        if is_whitespace (pb_buf b ! pb_offset b)
        then gremlinp_parser_buffer_skip_spaces (shift 1 b)
        else if pb_buf b ! pb_offset b \<noteq> CHR ''/'' then (Inr (), b)
        else if pb_offset b + 1 \<ge> pb_size b then (Inl GREMLINP_ERROR_UNEXPECTED_EOF, b)
        else if pb_buf b ! (pb_offset b + 1) = CHR ''/''
        then gremlinp_parser_buffer_skip_spaces (skip_line_comment (shift 2 b))
        else if pb_buf b ! (pb_offset b + 1) = CHR ''*'' then
          (case skip_block_comment (shift 2 b) of
             (Inl e, b') \<Rightarrow> (Inl e, b')
           | (Inr _, b') \<Rightarrow> gremlinp_parser_buffer_skip_spaces b')
        else (Inr (), b)
      else (Inr (), b))"
  by pat_completeness auto
termination
proof (relation "measure remaining", goal_cases)
  case (3 b)
  then show ?case
    using advances_remaining [OF skip_line_comment_advances [of "shift 2 b"]]
    by (simp add: remaining_def)
next
  case (4 b r b' u)
  then have "b' = snd (skip_block_comment (shift 2 b))" by (metis snd_conv)
  with 4 show ?case
    using advances_remaining [OF skip_block_comment_advances [of "shift 2 b"]]
    by (simp add: remaining_def)
qed (simp_all add: remaining_def)

declare gremlinp_parser_buffer_skip_spaces.simps [simp del]

definition gremlinp_parser_buffer_check_and_shift ::
  "parser_buffer \<Rightarrow> char \<Rightarrow> bool \<times> parser_buffer" where
  "gremlinp_parser_buffer_check_and_shift b expected =
     (if pb_offset b \<ge> pb_size b then (False, b)
      else if pb_buf b ! pb_offset b = expected then (True, shift 1 b)
      else (False, b))"

definition gremlinp_parser_buffer_char :: "parser_buffer \<Rightarrow> char" where
  "gremlinp_parser_buffer_char b =
     (if pb_offset b \<ge> pb_size b then nul else pb_buf b ! pb_offset b)"

definition gremlinp_parser_buffer_should_shift_next :: "parser_buffer \<Rightarrow> char \<times> parser_buffer" where
  "gremlinp_parser_buffer_should_shift_next b =
     (if pb_offset b \<ge> pb_size b then (nul, b)
      else (pb_buf b ! pb_offset b, shift 1 b))"

definition expect_char :: "gremlinp_parsing_error \<Rightarrow> char \<Rightarrow> parser_buffer \<Rightarrow> unit parse_result" where
  "expect_char e c b =
     (case gremlinp_parser_buffer_check_and_shift b c of
        (True, b') \<Rightarrow> (Inr (), b') | (False, b') \<Rightarrow> (Inl e, b'))"

definition gremlinp_parser_buffer_semicolon :: "parser_buffer \<Rightarrow> unit parse_result" where
  "gremlinp_parser_buffer_semicolon = expect_char GREMLINP_ERROR_SEMICOLON_EXPECTED (CHR '';'')"

definition gremlinp_parser_buffer_assignment :: "parser_buffer \<Rightarrow> unit parse_result" where
  "gremlinp_parser_buffer_assignment = expect_char GREMLINP_ERROR_ASSIGNMENT_EXPECTED (CHR ''='')"

definition gremlinp_parser_buffer_open_bracket :: "parser_buffer \<Rightarrow> unit parse_result" where
  "gremlinp_parser_buffer_open_bracket = expect_char GREMLINP_ERROR_BRACKET_EXPECTED (CHR ''{'')"

definition gremlinp_parser_buffer_close_bracket :: "parser_buffer \<Rightarrow> unit parse_result" where
  "gremlinp_parser_buffer_close_bracket = expect_char GREMLINP_ERROR_BRACKET_EXPECTED (CHR ''}'')"

section \<open>Positions for messages\<close>

function line_number_loop :: "parser_buffer \<Rightarrow> nat \<Rightarrow> int \<Rightarrow> int" where
  "line_number_loop b i line_count =
     (if i < pb_offset b then
        line_number_loop b (i + 1)
          (if pb_buf b ! i = newline then line_count + 1 else line_count)
      else line_count)"
  by pat_completeness auto
termination by (relation "measure (\<lambda>(b, i, n). pb_offset b - i)") auto

definition gremlinp_parser_buffer_calc_line_number :: "parser_buffer \<Rightarrow> int" where
  "gremlinp_parser_buffer_calc_line_number b = line_number_loop b 0 1"

fun last_newline_loop :: "parser_buffer \<Rightarrow> nat \<Rightarrow> nat" where
  "last_newline_loop b 0 = 0"
| "last_newline_loop b (Suc n) =
     (if pb_buf b ! n \<noteq> newline then last_newline_loop b n else Suc n)"

definition gremlinp_parser_buffer_calc_line_start :: "parser_buffer \<Rightarrow> int" where
  "gremlinp_parser_buffer_calc_line_start b =
     (if pb_offset b = 0 then 0
      else let last_newline = last_newline_loop b (pb_offset b) in
        if last_newline = 0 then int (pb_offset b)
        else int (pb_offset b) - int last_newline)"

function next_newline_loop :: "parser_buffer \<Rightarrow> nat \<Rightarrow> nat" where
  "next_newline_loop b n =
     (if n < pb_size b \<and> pb_buf b ! n \<noteq> newline then next_newline_loop b (n + 1) else n)"
  by pat_completeness auto
termination by (relation "measure (\<lambda>(b, n). pb_size b - n)") auto

declare line_number_loop.simps [simp del] next_newline_loop.simps [simp del]

definition gremlinp_parser_buffer_calc_line_end :: "parser_buffer \<Rightarrow> int" where
  "gremlinp_parser_buffer_calc_line_end b =
     int (next_newline_loop b (pb_offset b)) - int (pb_offset b)"

section \<open>Well-formed buffers\<close>

text \<open>The annotation \<open>valid_buffer\<close>: the text is long enough and the cursor inside.\<close>

definition valid_buffer :: "parser_buffer \<Rightarrow> bool" where
  "valid_buffer b \<longleftrightarrow> pb_size b \<le> length (pb_buf b) \<and> pb_offset b \<le> pb_size b"

lemma init_valid:
  "off \<le> length (takeWhile (\<lambda>c. c \<noteq> nul) s) \<Longrightarrow> valid_buffer (gremlinp_parser_buffer_init s off)"
  by (simp add: valid_buffer_def gremlinp_parser_buffer_init_def length_takeWhile_le)

lemma advances_valid: "advances b b' \<Longrightarrow> valid_buffer b \<Longrightarrow> valid_buffer b'"
  by (auto simp: advances_def consumes_def valid_buffer_def)

definition at_comment_start :: "parser_buffer \<Rightarrow> bool" where
  "at_comment_start b \<longleftrightarrow> pb_offset b + 1 < pb_size b \<and> pb_buf b ! pb_offset b = CHR ''/'' \<and>
     (pb_buf b ! (pb_offset b + 1) = CHR ''/'' \<or> pb_buf b ! (pb_offset b + 1) = CHR ''*'')"

definition at_token :: "parser_buffer \<Rightarrow> bool" where
  "at_token b \<longleftrightarrow> pb_offset b \<ge> pb_size b \<or>
     (\<not> is_whitespace (pb_buf b ! pb_offset b) \<and> \<not> at_comment_start b)"

section \<open>Progress of the operations\<close>

lemma skip_spaces_advances: "advances b (snd (gremlinp_parser_buffer_skip_spaces b))"
proof (induction b rule: gremlinp_parser_buffer_skip_spaces.induct)
  case (1 b)
  note line = skip_line_comment_advances [of "shift 2 b"]
    and block = skip_block_comment_advances [of "shift 2 b"]
  show ?case
  proof (cases "skip_block_comment (shift 2 b)")
    case (Pair r b')
    then show ?thesis
      using 1 shift_then [of 1 b "snd (gremlinp_parser_buffer_skip_spaces (shift 1 b))"]
        shift_then [of 2 b "snd (gremlinp_parser_buffer_skip_spaces (skip_line_comment (shift 2 b)))",
          OF advances_trans [OF line]]
        shift_then [of 2 b "snd (gremlinp_parser_buffer_skip_spaces b')", OF advances_trans]
        shift_then [of 2 b b'] block
      by (subst gremlinp_parser_buffer_skip_spaces.simps) (cases r; auto)
  qed
qed

lemma skip_spaces_at_token:
  "fst (gremlinp_parser_buffer_skip_spaces b) = Inr () \<Longrightarrow>
   at_token (snd (gremlinp_parser_buffer_skip_spaces b))"
proof (induction b rule: gremlinp_parser_buffer_skip_spaces.induct)
  case (1 b)
  show ?case
    using "1.prems" "1.IH" gremlinp_parser_buffer_skip_spaces.simps [of b]
    by (auto simp: at_token_def at_comment_start_def split: if_splits prod.splits sum.splits)
qed

lemma skip_block_comment_error:
  "fst (skip_block_comment b) = Inl e \<Longrightarrow> e = GREMLINP_ERROR_UNEXPECTED_EOF"
proof (induction b rule: skip_block_comment.induct)
  case (1 b)
  then show ?case
    using skip_block_comment.simps [of b] by (auto split: if_splits)
qed

lemma skip_spaces_error:
  "fst (gremlinp_parser_buffer_skip_spaces b) = Inl e \<Longrightarrow> e = GREMLINP_ERROR_UNEXPECTED_EOF"
proof (induction b rule: gremlinp_parser_buffer_skip_spaces.induct)
  case (1 b)
  show ?case
    using "1.prems" "1.IH" gremlinp_parser_buffer_skip_spaces.simps [of b]
      skip_block_comment_error [of "shift 2 b"]
    by (auto split: if_splits prod.splits sum.splits)
qed

lemma skip_spaces_id:
  "at_token b \<Longrightarrow> fst (gremlinp_parser_buffer_skip_spaces b) = Inr () \<Longrightarrow>
   snd (gremlinp_parser_buffer_skip_spaces b) = b"
  using gremlinp_parser_buffer_skip_spaces.simps [of b]
  by (auto simp: at_token_def at_comment_start_def split: if_splits)

section \<open>What is skipped\<close>

definition text_between :: "parser_buffer \<Rightarrow> parser_buffer \<Rightarrow> string" where
  "text_between b b' = take (pb_offset b' - pb_offset b) (drop (pb_offset b) (pb_buf b))"

text \<open>Blank text: white space, line comments and block comments, one after the other.\<close>

inductive blank :: "string \<Rightarrow> bool" where
  blank_nil: "blank []"
| blank_space: "is_whitespace c \<Longrightarrow> blank xs \<Longrightarrow> blank (c # xs)"
| blank_line: "\<lbrakk>newline \<notin> set ys; blank xs; xs = [] \<or> hd xs = newline\<rbrakk> \<Longrightarrow>
    blank (''//'' @ ys @ xs)"
| blank_block: "\<lbrakk>\<not> sublist ''*/'' (ys @ ''*''); blank xs\<rbrakk> \<Longrightarrow>
    blank (''/*'' @ ys @ ''*/'' @ xs)"

lemma text_between_refl [simp]: "text_between b b = []"
  by (simp add: text_between_def)

lemma text_between_shift:
  assumes "valid_buffer b" and "consumes b b'"
  shows "text_between b b' = pb_buf b ! pb_offset b # text_between (shift 1 b) b'"
proof -
  have "pb_offset b < length (pb_buf b)"
    using assms by (auto simp: valid_buffer_def consumes_def)
  then have "drop (pb_offset b) (pb_buf b)
      = pb_buf b ! pb_offset b # drop (Suc (pb_offset b)) (pb_buf b)"
    by (simp add: Cons_nth_drop_Suc)
  moreover have "pb_offset b' - pb_offset b = Suc (pb_offset b' - Suc (pb_offset b))"
    using assms(2) by (auto simp: consumes_def)
  ultimately show ?thesis by (simp add: text_between_def)
qed

lemma text_between_trans:
  assumes "advances a b" and "advances b c"
  shows "text_between a c = text_between a b @ text_between b c"
proof -
  have o: "pb_offset a \<le> pb_offset b" "pb_offset b \<le> pb_offset c" "pb_buf b = pb_buf a"
    using assms by (auto simp: advances_def consumes_def)
  obtain i j where "pb_offset b = pb_offset a + i" "pb_offset c = pb_offset a + i + j"
    using o by (metis le_iff_add)
  then show ?thesis using o by (simp add: text_between_def take_add add.commute)
qed

lemma skip_line_comment_text:
  "valid_buffer b \<Longrightarrow> newline \<notin> set (text_between b (skip_line_comment b)) \<and>
   (pb_offset (skip_line_comment b) \<ge> pb_size b \<or>
    pb_buf b ! pb_offset (skip_line_comment b) = newline)"
proof (induction b rule: skip_line_comment.induct)
  case (1 b)
  show ?case
  proof (cases "pb_offset b < pb_size b \<and> pb_buf b ! pb_offset b \<noteq> newline")
    case True
    then have "consumes b (skip_line_comment (shift 1 b))"
      using shift_then [OF skip_line_comment_advances [of "shift 1 b"]] by simp
    then show ?thesis
      using 1 True text_between_shift [of b] skip_line_comment.simps [of b]
      by (auto simp: valid_buffer_def)
  next
    case False
    then show ?thesis using skip_line_comment.simps [of b] by auto
  qed
qed

lemma skip_block_comment_text:
  "\<lbrakk>valid_buffer b; skip_block_comment b = (Inr (), b')\<rbrakk> \<Longrightarrow>
   \<exists>ys. text_between b b' = ys @ ''*/'' \<and> \<not> sublist ''*/'' (ys @ ''*'')"
proof (induction b rule: skip_block_comment.induct)
  case (1 b)
  let ?found = "pb_offset b + 1 < pb_size b \<and> pb_buf b ! pb_offset b = CHR ''*'' \<and>
              pb_buf b ! (pb_offset b + 1) = CHR ''/''"
  have in_text: "\<not> pb_offset b \<ge> pb_size b"
    using "1.prems"(2) skip_block_comment.simps [of b] by (auto split: if_splits)
  have c1: "consumes b b'"
  proof (cases ?found)
    case True
    then show ?thesis
      using "1.prems"(2) skip_block_comment.simps [of b] in_text shift_consumes [of 2 b] by auto
  next
    case False
    then show ?thesis
      using "1.prems"(2) skip_block_comment.simps [of b] in_text
        skip_block_comment_advances [of "shift 1 b"]
      by (intro shift_then [of 1]) auto
  qed
  show ?case
  proof (cases ?found)
    case True
    then have b': "b' = shift 2 b"
      using "1.prems"(2) skip_block_comment.simps [of b] in_text by auto
    have "valid_buffer (shift 1 b)" "consumes (shift 1 b) (shift 2 b)"
      using "1.prems"(1) True by (auto simp: valid_buffer_def consumes_def)
    then have "text_between b b' = ''*/''"
      using text_between_shift [OF "1.prems"(1) c1] text_between_shift [of "shift 1 b" b'] True b'
      by (simp add: text_between_def)
    then show ?thesis by (auto simp: sublist_Cons_right)
  next
    case False
    then have r: "skip_block_comment (shift 1 b) = (Inr (), b')"
      using "1.prems"(2) skip_block_comment.simps [of b] in_text by auto
    have v: "valid_buffer (shift 1 b)"
      using "1.prems"(1) in_text by (simp add: valid_buffer_def)
    obtain ys where ys: "text_between (shift 1 b) b' = ys @ ''*/''"
        "\<not> sublist ''*/'' (ys @ ''*'')"
      using "1.IH" [OF in_text False v r] by auto
    have c2: "consumes (shift 1 b) b'"
      using ys(1) skip_block_comment_advances [of "shift 1 b"] r
      by (auto simp: advances_def)
    have hd: "hd (ys @ ''*/'') = pb_buf b ! (pb_offset b + 1)"
      using text_between_shift [OF v c2] ys(1) by (metis list.sel(1) shift_simps(1,3))
    have "pb_offset b + 1 < pb_size b" using c2 by (auto simp: consumes_def)
    then have "\<not> (pb_buf b ! pb_offset b = CHR ''*'' \<and> hd (ys @ ''*/'') = CHR ''/'')"
      using False hd by auto
    then have "\<not> sublist ''*/'' ((pb_buf b ! pb_offset b # ys) @ ''*'')"
      using ys(2) by (cases ys) (auto simp: sublist_Cons_right)
    moreover have "text_between b b' = (pb_buf b ! pb_offset b # ys) @ ''*/''"
      using text_between_shift [OF "1.prems"(1) c1] ys(1) by simp
    ultimately show ?thesis by blast
  qed
qed

lemma text_between_shift2:
  assumes "valid_buffer b" and "consumes (shift 1 b) b'"
  shows "text_between b b' =
    pb_buf b ! pb_offset b # pb_buf b ! (pb_offset b + 1) # text_between (shift 2 b) b'"
proof -
  have c: "consumes b b'" and v: "valid_buffer (shift 1 b)" and s: "shift (Suc 0) (shift (Suc 0) b) = shift 2 b"
    using assms by (auto simp: consumes_def valid_buffer_def shift_def)
  show ?thesis
    using text_between_shift [OF assms(1) c] text_between_shift [OF v assms(2)] by (simp add: s)
qed

lemma skip_spaces_blank:
  "\<lbrakk>valid_buffer b; fst (gremlinp_parser_buffer_skip_spaces b) = Inr ()\<rbrakk> \<Longrightarrow>
   blank (text_between b (snd (gremlinp_parser_buffer_skip_spaces b)))"
proof (induction b rule: gremlinp_parser_buffer_skip_spaces.induct)
  case (1 b)
  let ?r = "gremlinp_parser_buffer_skip_spaces"
  note eq = gremlinp_parser_buffer_skip_spaces.simps [of b]
  have sh: "consumes (shift 1 b) c" if "advances (shift 2 b) c" "pb_offset b + 1 < pb_size b" for c
    using that by (auto simp: advances_def consumes_def shift_def)
  consider (space) "pb_offset b < pb_size b" "is_whitespace (pb_buf b ! pb_offset b)"
    | (line) "pb_offset b + 1 < pb_size b" "\<not> is_whitespace (pb_buf b ! pb_offset b)"
        "pb_buf b ! pb_offset b = CHR ''/''" "pb_buf b ! (pb_offset b + 1) = CHR ''/''"
    | (block) "pb_offset b + 1 < pb_size b" "\<not> is_whitespace (pb_buf b ! pb_offset b)"
        "pb_buf b ! pb_offset b = CHR ''/''" "pb_buf b ! (pb_offset b + 1) = CHR ''*''"
    | (stop) "snd (?r b) = b"
    using eq by (cases "pb_offset b < pb_size b"; cases "is_whitespace (pb_buf b ! pb_offset b)";
        cases "pb_buf b ! pb_offset b = CHR ''/''"; cases "pb_offset b + 1 \<ge> pb_size b";
        cases "pb_buf b ! (pb_offset b + 1) = CHR ''/''";
        cases "pb_buf b ! (pb_offset b + 1) = CHR ''*''") (simp_all add: not_le)
  then show ?case
  proof cases
    case space
    then have r: "?r b = ?r (shift 1 b)" using eq by simp
    have v: "valid_buffer (shift 1 b)" using "1.prems"(1) space(1) by (simp add: valid_buffer_def)
    have "consumes b (snd (?r (shift 1 b)))"
      using shift_then [OF skip_spaces_advances [of "shift 1 b"]] space(1) by simp
    then show ?thesis
      using "1.IH"(1) [OF space v] "1.prems" space(2) r text_between_shift
      by (auto intro: blank_space)
  next
    case line
    let ?l = "skip_line_comment (shift 2 b)"
    have r: "?r b = ?r ?l" using line eq by simp
    have v: "valid_buffer (shift 2 b)" using "1.prems"(1) line(1) by (simp add: valid_buffer_def)
    have al: "advances (shift 2 b) ?l" by (rule skip_line_comment_advances)
    have ar: "advances ?l (snd (?r ?l))" by (rule skip_spaces_advances)
    have vl: "valid_buffer ?l" using advances_valid [OF al v] .
    have IH: "blank (text_between ?l (snd (?r ?l)))"
      using "1.IH"(2) [OF _ line(2) _ _ line(4) vl] line "1.prems"(2) r by auto
    have same: "pb_buf ?l = pb_buf b" "pb_size ?l = pb_size b"
      using al by (auto simp: advances_def consumes_def)
    have t: "text_between b (snd (?r ?l))
        = ''//'' @ text_between (shift 2 b) ?l @ text_between ?l (snd (?r ?l))"
      using text_between_shift2 [OF "1.prems"(1) sh [OF advances_trans [OF al ar] line(1)]] line(3,4)
        text_between_trans [OF al ar] by simp
    have "text_between ?l (snd (?r ?l)) = [] \<or> hd (text_between ?l (snd (?r ?l))) = newline"
    proof (cases "consumes ?l (snd (?r ?l))")
      case True
      then have "pb_offset ?l < pb_size b" using same by (auto simp: consumes_def)
      then have "pb_buf ?l ! pb_offset ?l = newline"
        using skip_line_comment_text [OF v] same by auto
      then show ?thesis using text_between_shift [OF vl True] by simp
    next
      case False
      then show ?thesis using ar by (simp add: advances_def)
    qed
    then show ?thesis
      unfolding r t using skip_line_comment_text [OF v] IH by (intro blank_line) auto
  next
    case block
    let ?k = "skip_block_comment (shift 2 b)"
    obtain b' where k: "?k = (Inr (), b')" and r: "?r b = ?r b'"
      using block eq "1.prems"(2) by (auto split: prod.splits sum.splits)
    have v: "valid_buffer (shift 2 b)" using "1.prems"(1) block(1) by (simp add: valid_buffer_def)
    have ak: "advances (shift 2 b) b'" using skip_block_comment_advances [of "shift 2 b"] k by simp
    have ar: "advances b' (snd (?r b'))" by (rule skip_spaces_advances)
    have IH: "blank (text_between b' (snd (?r b')))"
      using "1.IH"(3) [OF _ block(2) _ _ _ block(4) k [symmetric] _ advances_valid [OF ak v]]
        block "1.prems"(2) r by auto
    have "text_between b (snd (?r b'))
        = ''/*'' @ text_between (shift 2 b) b' @ text_between b' (snd (?r b'))"
      using text_between_shift2 [OF "1.prems"(1) sh [OF advances_trans [OF ak ar] block(1)]] block(3,4)
        text_between_trans [OF ak ar] by simp
    then show ?thesis
      using skip_block_comment_text [OF v k] IH blank_block by (fastforce simp: r)
  next
    case stop
    then show ?thesis by (simp add: blank_nil)
  qed
qed

section \<open>Line and column\<close>

lemma line_number_loop_count:
  "pb_offset b \<le> length (pb_buf b) \<Longrightarrow> i \<le> pb_offset b \<Longrightarrow>
   line_number_loop b i n = n + int (count_list (drop i (take (pb_offset b) (pb_buf b))) newline)"
proof (induction b i n rule: line_number_loop.induct)
  case (1 b i n)
  show ?case
  proof (cases "i < pb_offset b")
    case True
    then have "drop i (take (pb_offset b) (pb_buf b))
        = pb_buf b ! i # drop (Suc i) (take (pb_offset b) (pb_buf b))"
      using "1.prems" by (subst Cons_nth_drop_Suc [symmetric]) auto
    then show ?thesis
      using 1 True line_number_loop.simps [of b i n] by (auto simp del: of_nat_Suc)
  next
    case False
    then show ?thesis using "1.prems" line_number_loop.simps [of b i n] by simp
  qed
qed

lemma last_newline_loop_column:
  "n \<le> length (pb_buf b) \<Longrightarrow>
   n - last_newline_loop b n
     = length (takeWhile (\<lambda>c. c \<noteq> newline) (rev (take n (pb_buf b)))) \<and>
   last_newline_loop b n \<le> n"
  by (induction n) (auto simp: take_Suc_conv_app_nth Suc_diff_le)

lemma next_newline_loop_end:
  "n \<le> pb_size b \<Longrightarrow> pb_size b \<le> length (pb_buf b) \<Longrightarrow>
   next_newline_loop b n
     = n + length (takeWhile (\<lambda>c. c \<noteq> newline) (drop n (take (pb_size b) (pb_buf b))))"
proof (induction b n rule: next_newline_loop.induct)
  case (1 b n)
  show ?case
  proof (cases "n < pb_size b")
    case True
    then have "drop n (take (pb_size b) (pb_buf b))
        = pb_buf b ! n # drop (Suc n) (take (pb_size b) (pb_buf b))"
      using "1.prems" by (subst Cons_nth_drop_Suc [symmetric]) auto
    then show ?thesis
      using 1 True next_newline_loop.simps [of b n] by auto
  next
    case False
    then show ?thesis using "1.prems" next_newline_loop.simps [of b n] by simp
  qed
qed

section \<open>Properties\<close>

text \<open>Skipping spaces passes over blank text only (white space, line comments, block
  comments), and stops at a token or the end of the text; doing it twice does nothing more.
  The only error is an unexpected end of file, and in every case the cursor stays in the
  text.\<close>
theorem skip_spaces_correct:
  assumes "valid_buffer b" and "gremlinp_parser_buffer_skip_spaces b = (r, b')"
  shows "advances b b' \<and>
    (case r of Inr _ \<Rightarrow> blank (text_between b b') \<and> at_token b' \<and>
                 (at_token b \<longrightarrow> b' = b)
     | Inl e \<Rightarrow> e = GREMLINP_ERROR_UNEXPECTED_EOF)"
proof (cases r)
  case (Inl e)
  then show ?thesis
    using assms skip_spaces_advances [of b] skip_spaces_error [of b e] by simp
next
  case (Inr u)
  then show ?thesis
    using assms skip_spaces_advances [of b] skip_spaces_blank [of b] skip_spaces_at_token [of b]
      skip_spaces_id [of b] by simp
qed

theorem skip_spaces_correct_witness:
  "at_token \<lparr>pb_buf = '' /*x*/ //y'', pb_size = 10, pb_offset = 10\<rparr>"
proof -
  let ?b = "\<lambda>n. \<lparr>pb_buf = '' /*x*/ //y'', pb_size = 10, pb_offset = n\<rparr>"
  have "gremlinp_parser_buffer_skip_spaces (?b 0) = (Inr (), ?b 10)" by code_simp
  moreover have "valid_buffer (?b 0)" by (simp add: valid_buffer_def)
  ultimately show ?thesis using skip_spaces_correct [of "?b 0" "Inr ()" "?b 10"] by simp
qed

text \<open>The position reported with an error: the line number is one more than the newlines
  before the cursor, the column the number of characters since the last of them, and the line
  end the number of characters before the next one.\<close>
theorem line_position_correct:
  assumes "valid_buffer b"
  shows "gremlinp_parser_buffer_calc_line_number b
           = 1 + int (count_list (take (pb_offset b) (pb_buf b)) newline) \<and>
    gremlinp_parser_buffer_calc_line_start b
      = int (length (takeWhile (\<lambda>c. c \<noteq> newline) (rev (take (pb_offset b) (pb_buf b))))) \<and>
    gremlinp_parser_buffer_calc_line_end b
      = int (length (takeWhile (\<lambda>c. c \<noteq> newline)
               (drop (pb_offset b) (take (pb_size b) (pb_buf b)))))"
proof -
  have o: "pb_offset b \<le> length (pb_buf b)" "pb_offset b \<le> pb_size b" "pb_size b \<le> length (pb_buf b)"
    using assms by (auto simp: valid_buffer_def)
  have "gremlinp_parser_buffer_calc_line_start b
      = int (pb_offset b) - int (last_newline_loop b (pb_offset b))"
    by (auto simp: gremlinp_parser_buffer_calc_line_start_def Let_def)
  also have "\<dots> = int (length (takeWhile (\<lambda>c. c \<noteq> newline) (rev (take (pb_offset b) (pb_buf b)))))"
    using last_newline_loop_column [OF o(1)] by (simp flip: of_nat_diff)
  finally show ?thesis
    using line_number_loop_count [of b 0 1] next_newline_loop_end [OF o(2,3)] o
    by (simp add: gremlinp_parser_buffer_calc_line_number_def
        gremlinp_parser_buffer_calc_line_end_def)
qed

theorem line_position_correct_witness:
  "gremlinp_parser_buffer_calc_line_number
     \<lparr>pb_buf = [CHR ''a'', newline, CHR ''b'', CHR ''c''], pb_size = 4, pb_offset = 3\<rparr> = 2"
  using line_position_correct
    [of "\<lparr>pb_buf = [CHR ''a'', newline, CHR ''b'', CHR ''c''], pb_size = 4, pb_offset = 3\<rparr>"]
  by (simp add: valid_buffer_def numeral_3_eq_3)

end
