(* ===== verification/Pool.thy ===== *)
theory Pool
  imports Arena Parse_Buffer
begin

text \<open>
  How the descriptor and generator layers use the arena: a pool is an arena with
  the world its growth callback acts on, and an operation takes a pool and returns
  a result or an error code with the pool after.  What an allocation is filled
  with is the value the operation returns; the model keeps of the allocation
  itself its size and whether it succeeds.  \<open>sizeof\<close> is that of an LP64 target.
\<close>

type_synonym 'w pool = "'w gremlind_arena \<times> 'w"
type_synonym ('a, 'w) pooled = "(gremlinp_parsing_error + 'a) \<times> 'w pool"

definition pool_alloc :: "nat \<Rightarrow> 'w pool \<Rightarrow> bool \<times> 'w pool" where
  "pool_alloc n s = (case s of (a, w) \<Rightarrow>
     (case gremlind_arena_alloc a n w of (p, a', w') \<Rightarrow> (p \<noteq> 0, (a', w'))))"

text \<open>Return \<open>OUT_OF_MEMORY\<close> when the allocation yields \<open>NULL\<close>, else go on.\<close>

definition with_alloc :: "nat \<Rightarrow> 'w pool \<Rightarrow> ('w pool \<Rightarrow> ('a, 'w) pooled) \<Rightarrow> ('a, 'w) pooled" where
  "with_alloc n s k = (case pool_alloc n s of (ok, s') \<Rightarrow>
     if ok then k s' else (Inl GREMLINP_ERROR_OUT_OF_MEMORY, s'))"

text \<open>\<open>if (err != GREMLINP_OK) return err;\<close>\<close>

definition then_ok :: "('a, 'w) pooled \<Rightarrow> ('a \<Rightarrow> 'w pool \<Rightarrow> ('b, 'w) pooled) \<Rightarrow> ('b, 'w) pooled" where
  "then_ok r k = (case r of (Inl e, s) \<Rightarrow> (Inl e, s) | (Inr x, s) \<Rightarrow> k x s)"

lemma then_ok_simps [simp]:
  "then_ok (Inl e, s) k = (Inl e, s)"
  "then_ok (Inr x, s) k = k x s"
  by (simp_all add: then_ok_def)

lemma then_ok_cong [fundef_cong]:
  "\<lbrakk>r = r'; \<And>x s. r' = (Inr x, s) \<Longrightarrow> k x s = k' x s\<rbrakk> \<Longrightarrow> then_ok r k = then_ok r' k'"
  by (auto simp: then_ok_def split: prod.split sum.split)

lemma with_alloc_cong [fundef_cong]:
  "\<lbrakk>n = n'; s = s'; \<And>t. k t = k' t\<rbrakk> \<Longrightarrow> with_alloc n s k = with_alloc n' s' k'"
  by (auto simp: with_alloc_def split: prod.split)

section \<open>What an operation on a pool promises\<close>

text \<open>\<open>r\<close> delivers a value with \<open>P\<close>, or runs out of memory, and nothing else.\<close>

definition delivers :: "('a \<Rightarrow> bool) \<Rightarrow> ('a, 'w) pooled \<Rightarrow> bool" where
  "delivers P r \<longleftrightarrow> (case fst r of Inl e \<Rightarrow> e = GREMLINP_ERROR_OUT_OF_MEMORY | Inr x \<Rightarrow> P x)"

lemma delivers_simps [simp]:
  "delivers P (Inl e, s) \<longleftrightarrow> e = GREMLINP_ERROR_OUT_OF_MEMORY"
  "delivers P (Inr x, s) \<longleftrightarrow> P x"
  by (simp_all add: delivers_def)

lemma delivers_with_alloc:
  "(\<And>t. delivers P (k t)) \<Longrightarrow> delivers P (with_alloc n s k)"
  by (auto simp: with_alloc_def split: prod.split)

lemma delivers_then_ok:
  assumes "delivers Q r" and "\<And>x s. Q x \<Longrightarrow> delivers P (k x s)"
  shows "delivers P (then_ok r k)"
proof -
  obtain c s where "r = (c, s)" by (metis surj_pair)
  then show ?thesis using assms by (cases c) auto
qed

lemma delivers_mono: "delivers P r \<Longrightarrow> (\<And>x. P x \<Longrightarrow> Q x) \<Longrightarrow> delivers Q r"
  by (auto simp: delivers_def split: sum.splits)

lemma delivers_InrD: "delivers P r \<Longrightarrow> r = (Inr x, s) \<Longrightarrow> P x"
  by simp

section \<open>Room left\<close>

text \<open>The last chunk has at least \<open>b\<close> bytes left.\<close>

definition has_room :: "nat \<Rightarrow> 'w pool \<Rightarrow> bool" where
  "has_room b s \<longleftrightarrow> ar_chunks (fst s) \<noteq> [] \<and> ck_base (last (ar_chunks (fst s))) \<noteq> 0 \<and>
     b \<le> 0x7FFFFFF0 \<and> b \<le> ck_cap (last (ar_chunks (fst s))) - ck_used (last (ar_chunks (fst s)))"

lemma has_room_mono: "has_room b s \<Longrightarrow> c \<le> b \<Longrightarrow> has_room c s"
  by (auto simp: has_room_def)

lemma has_room_alloc:
  assumes "has_room (align_up n + b) s" and "0 < n"
  shows "\<exists>s'. pool_alloc n s = (True, s') \<and> has_room b s'"
proof -
  obtain a w where s: "s = (a, w)" by (metis surj_pair)
  let ?cs = "ar_chunks a"
  let ?c = "last ?cs"
  let ?a = "a\<lparr>ar_chunks := ?cs[length ?cs - 1 := ?c\<lparr>ck_used := ck_used ?c + align_up n\<rparr>]\<rparr>"
  have ne: "?cs \<noteq> []" and "n \<le> 0x7FFFFFF0" and fits: "align_up n + b \<le> ck_cap ?c - ck_used ?c"
    and base: "ck_base ?c \<noteq> 0" and b: "b \<le> 0x7FFFFFF0"
    using assms le_trans [OF align_up_bounds(1) [of n], of "0x7FFFFFF0"] by (auto simp: has_room_def s)
  then have "gremlind_arena_try_alloc a n = (ck_base ?c + ck_used ?c, ?a)"
    using assms(2) by (simp add: gremlind_arena_try_alloc_def Let_def last_conv_nth)
  then have "pool_alloc n s = (True, (?a, w))"
    using base by (simp add: pool_alloc_def s gremlind_arena_alloc_def)
  moreover have "last (?cs[length ?cs - 1 := x]) = x" for x
    using ne by (simp add: last_conv_nth)
  ultimately show ?thesis using ne fits base b by (simp add: has_room_def)
qed

section \<open>A pool for examples\<close>

text \<open>One chunk of 64 KiB and no growth.\<close>

definition sample_pool :: "nat \<Rightarrow> unit pool" where
  "sample_pool used = (\<lparr>ar_chunks = [\<lparr>ck_base = 8, ck_cap = 65536, ck_used = used\<rparr>], ar_grow = None\<rparr>, ())"

lemma sample_pool_room: "b + used \<le> 65536 \<Longrightarrow> has_room b (sample_pool used)"
  by (simp add: has_room_def sample_pool_def)

lemma sample_pool_alloc:
  "0 < n \<Longrightarrow> n \<le> 1024 \<Longrightarrow> used \<le> 32768 \<Longrightarrow>
   pool_alloc n (sample_pool used) = (True, sample_pool (used + align_up n))"
proof -
  assume n: "0 < n" "n \<le> 1024" "used \<le> 32768"
  then have "\<not> 65536 - used < align_up n" using align_up_bounds(2) [of n] by linarith
  then show ?thesis using n
    by (simp add: pool_alloc_def sample_pool_def gremlind_arena_alloc_def gremlind_arena_try_alloc_def Let_def)
qed

end
