(* ===== verification/Parse_Contract.thy ===== *)
theory Parse_Contract
  imports Parse_Buffer
begin

text \<open>
  The contract of the parsing functions and the few control patterns they are
  written with.  A function of \<open>parser/src/entries\<close> saves \<open>start = buf->offset\<close>,
  runs its steps, and on the first failure sets \<open>buf->offset = start\<close> and returns
  the error: \<open>on_ok\<close>, \<open>on_ok_as\<close> and \<open>require\<close> are that early return after a
  parser, after a parser whose error is replaced, and after a boolean test.
  The contract: an error leaves the buffer as it was, a success moves the cursor
  forward inside the text.  It is proved for every parser by the rules in
  \<open>parse_rules\<close>, is what the loops need to terminate, and is the locale
  \<open>restoring_parser\<close> for the callers.
\<close>

section \<open>Control patterns\<close>

definition on_ok :: "nat \<Rightarrow> 'a parse_result \<Rightarrow> ('a \<Rightarrow> parser_buffer \<Rightarrow> 'b parse_result)
    \<Rightarrow> 'b parse_result" where
  "on_ok start r k =
     (case r of (Inl e, b) \<Rightarrow> (Inl e, rewind start b) | (Inr x, b) \<Rightarrow> k x b)"

definition on_ok_as :: "nat \<Rightarrow> gremlinp_parsing_error \<Rightarrow> 'a parse_result
    \<Rightarrow> ('a \<Rightarrow> parser_buffer \<Rightarrow> 'b parse_result) \<Rightarrow> 'b parse_result" where
  "on_ok_as start err r k =
     (case r of (Inl _, b) \<Rightarrow> (Inl err, rewind start b) | (Inr x, b) \<Rightarrow> k x b)"

definition require :: "nat \<Rightarrow> gremlinp_parsing_error \<Rightarrow> bool \<times> parser_buffer
    \<Rightarrow> (parser_buffer \<Rightarrow> 'b parse_result) \<Rightarrow> 'b parse_result" where
  "require start err c k = (case c of (ok, b) \<Rightarrow> if ok then k b else (Inl err, rewind start b))"

text \<open>An alternative: a failure is not an error of the caller, which goes on to the next one.\<close>

definition attempt :: "'a parse_result \<Rightarrow> ('a \<Rightarrow> parser_buffer \<Rightarrow> 'b)
    \<Rightarrow> (gremlinp_parsing_error \<Rightarrow> parser_buffer \<Rightarrow> 'b) \<Rightarrow> 'b" where
  "attempt r yes no = (case r of (Inr x, b) \<Rightarrow> yes x b | (Inl e, b) \<Rightarrow> no e b)"

lemma attempt_simps [simp]:
  "attempt (Inr x, b) yes no = yes x b"
  "attempt (Inl e, b) yes no = no e b"
  by (simp_all add: attempt_def)

lemma attempt_cong [fundef_cong]:
  "\<lbrakk>r = r'; \<And>x b. r' = (Inr x, b) \<Longrightarrow> yes x b = yes' x b;
    \<And>e b. r' = (Inl e, b) \<Longrightarrow> no e b = no' e b\<rbrakk> \<Longrightarrow>
   attempt r yes no = attempt r' yes' no'"
  by (auto simp: attempt_def split: prod.split sum.split)

text \<open>\<open>skip_spaces\<close> where the code ignores its result.\<close>

definition skipped :: "parser_buffer \<Rightarrow> parser_buffer" where
  "skipped b = snd (gremlinp_parser_buffer_skip_spaces b)"

lemma on_ok_cong [fundef_cong]:
  "\<lbrakk>start = start'; r = r'; \<And>x b. r' = (Inr x, b) \<Longrightarrow> k x b = k' x b\<rbrakk> \<Longrightarrow>
   on_ok start r k = on_ok start' r' k'"
  by (auto simp: on_ok_def split: prod.split sum.split)

lemma on_ok_as_cong [fundef_cong]:
  "\<lbrakk>start = start'; err = err'; r = r'; \<And>x b. r' = (Inr x, b) \<Longrightarrow> k x b = k' x b\<rbrakk> \<Longrightarrow>
   on_ok_as start err r k = on_ok_as start' err' r' k'"
  by (auto simp: on_ok_as_def split: prod.split sum.split)

lemma require_cong [fundef_cong]:
  "\<lbrakk>start = start'; err = err'; c = c'; \<And>b. c' = (True, b) \<Longrightarrow> k b = k' b\<rbrakk> \<Longrightarrow>
   require start err c k = require start' err' c' k'"
  by (auto simp: require_def split: prod.split)

lemma on_ok_simps [simp]:
  "on_ok start (Inl e, b) k = (Inl e, rewind start b)"
  "on_ok start (Inr x, b) k = k x b"
  "on_ok_as start err (Inl e, b) k = (Inl err, rewind start b)"
  "on_ok_as start err (Inr x, b) k = k x b"
  "require start err (True, b) k' = k' b"
  "require start err (False, b) k' = (Inl err, rewind start b)"
  by (simp_all add: on_ok_def on_ok_as_def require_def)

lemma on_ok_InrD:
  "on_ok start r k = (Inr y, b') \<Longrightarrow> \<exists>x b. r = (Inr x, b) \<and> k x b = (Inr y, b')"
  by (auto simp: on_ok_def split: prod.splits sum.splits)

lemma on_ok_as_InrD:
  "on_ok_as start err r k = (Inr y, b') \<Longrightarrow> \<exists>x b. r = (Inr x, b) \<and> k x b = (Inr y, b')"
  by (auto simp: on_ok_as_def split: prod.splits sum.splits)

lemma require_InrD:
  "require start err c k = (Inr y, b') \<Longrightarrow> \<exists>b. c = (True, b) \<and> k b = (Inr y, b')"
  by (auto simp: require_def split: prod.splits if_splits)

section \<open>The contract\<close>

text \<open>\<open>moved s b b'\<close>: the cursor went forward, strictly if \<open>s\<close>, or nothing changed.\<close>

definition moved :: "bool \<Rightarrow> parser_buffer \<Rightarrow> parser_buffer \<Rightarrow> bool" where
  "moved s b b' \<longleftrightarrow> (if s then consumes b b' else advances b b')"

text \<open>A step from \<open>b\<close>: forward whatever happens, strictly on success if \<open>s\<close>.\<close>

definition yields :: "bool \<Rightarrow> parser_buffer \<Rightarrow> 'a parse_result \<Rightarrow> bool" where
  "yields s b r \<longleftrightarrow> advances b (snd r) \<and> (isl (fst r) \<or> moved s b (snd r))"

text \<open>A whole parse from \<open>b\<close>: an error restores the buffer, a success consumes text.\<close>

definition settles :: "parser_buffer \<Rightarrow> 'a parse_result \<Rightarrow> bool" where
  "settles b r \<longleftrightarrow> (case r of (Inl e, b') \<Rightarrow> b' = b | (Inr x, b') \<Rightarrow> consumes b b')"

definition checks :: "parser_buffer \<Rightarrow> bool \<times> parser_buffer \<Rightarrow> bool" where
  "checks b c \<longleftrightarrow> (if fst c then consumes b (snd c) else snd c = b)"

named_theorems parse_steps \<open>what a parsing step does to the cursor\<close>
named_theorems parse_contracts \<open>the parsers that keep the contract\<close>
named_theorems parse_rules \<open>the contract along the control patterns\<close>

lemma moved_simps [simp]: "moved True b b' = consumes b b'" "moved False b b' = advances b b'"
  by (simp_all add: moved_def)

lemma moved_refl: "moved False b b"
  by simp

lemma moved_advances: "moved s b b' \<Longrightarrow> advances b b'"
  by (auto simp: moved_def split: if_splits)

lemma moved_trans: "moved s a b \<Longrightarrow> moved t b c \<Longrightarrow> moved (s \<or> t) a c"
  by (auto simp: moved_def intro: advances_trans consumes_trans advances_consumes_trans
      consumes_advances_trans split: if_splits)

lemma moved_rewind: "moved s b b' \<Longrightarrow> rewind (pb_offset b) b' = b"
  by (blast intro: rewind_advances moved_advances)

lemma settles_yields: "settles b r \<Longrightarrow> yields True b r"
  by (auto simp: settles_def yields_def split: prod.splits sum.splits)

lemma yields_ok: "yields s b (Inr x, b') \<Longrightarrow> moved s b b'"
  by (simp add: yields_def)

lemma yields_advances: "yields s b r \<Longrightarrow> advances b (snd r)"
  by (simp add: yields_def)

lemma settles_ok: "settles b (Inr x, b') \<longleftrightarrow> consumes b b'"
  by (simp add: settles_def)

lemma settles_error: "settles b (Inl e, b') \<longleftrightarrow> b' = b"
  by (simp add: settles_def)

section \<open>Rules\<close>

lemma result_cases [case_names error ok]:
  fixes r :: "'a parse_result"
  obtains e b where "r = (Inl e, b)" | x b where "r = (Inr x, b)"
  by (cases r; cases "fst r") auto

lemma after_ok: "moved s b0 b \<Longrightarrow> yields t b (Inr x, b') \<Longrightarrow> moved (s \<or> t) b0 b'"
  by (erule moved_trans) (rule yields_ok)

lemma after_error: "moved s b0 b \<Longrightarrow> yields t b (Inl e, b') \<Longrightarrow> moved s b0 b'"
  by (drule yields_advances) (use moved_trans [of s b0 b False b'] in simp)

lemma settles_return [parse_rules]: "moved s b0 b \<Longrightarrow> s \<Longrightarrow> settles b0 (Inr x, b)"
  by (simp add: settles_def)

lemma settles_fail [parse_rules]: "settles b0 (Inl e, b0)"
  by (simp add: settles_def)

lemma settles_rewind [parse_rules]:
  "moved s b0 b \<Longrightarrow> settles b0 (Inl e, rewind (pb_offset b0) b)"
  by (simp add: settles_def moved_rewind)

lemma settles_on_ok [parse_rules]:
  assumes "yields t b r" and "moved s b0 b"
    and "\<And>x b'. r = (Inr x, b') \<Longrightarrow> moved (s \<or> t) b0 b' \<Longrightarrow> settles b0 (k x b')"
  shows "settles b0 (on_ok (pb_offset b0) r k)"
proof (cases r rule: result_cases)
  case (error e b')
  then have "rewind (pb_offset b0) b' = b0"
    using after_error [OF assms(2), of t e b'] assms(1) by (blast intro: moved_rewind)
  with error show ?thesis by (simp add: settles_error)
next
  case (ok x b')
  then have "moved (s \<or> t) b0 b'" using after_ok [OF assms(2), of t x b'] assms(1) by simp
  with ok assms(3) show ?thesis by simp
qed

lemma settles_on_ok_as [parse_rules]:
  assumes "yields t b r" and "moved s b0 b"
    and "\<And>x b'. r = (Inr x, b') \<Longrightarrow> moved (s \<or> t) b0 b' \<Longrightarrow> settles b0 (k x b')"
  shows "settles b0 (on_ok_as (pb_offset b0) err r k)"
proof (cases r rule: result_cases)
  case (error e b')
  then have "rewind (pb_offset b0) b' = b0"
    using after_error [OF assms(2), of t e b'] assms(1) by (blast intro: moved_rewind)
  with error show ?thesis by (simp add: settles_error)
next
  case (ok x b')
  then have "moved (s \<or> t) b0 b'" using after_ok [OF assms(2), of t x b'] assms(1) by simp
  with ok assms(3) show ?thesis by simp
qed

lemma settles_require [parse_rules]:
  assumes "checks b c" and "moved s b0 b"
    and "\<And>b'. c = (True, b') \<Longrightarrow> moved True b0 b' \<Longrightarrow> settles b0 (k b')"
  shows "settles b0 (require (pb_offset b0) err c k)"
proof -
  obtain v b' where c: "c = (v, b')" by (cases c)
  then show ?thesis
    using assms moved_trans [OF assms(2), of True b']
    by (cases v) (simp_all add: checks_def settles_error moved_rewind)
qed

text \<open>An attempt whose failure is not an error: the code looks at the result itself.\<close>

lemma settles_attempt [parse_rules]:
  assumes "yields t b r" and "moved s b0 b"
    and "\<And>e b'. r = (Inl e, b') \<Longrightarrow> moved s b0 b' \<Longrightarrow> settles b0 (f e b')"
    and "\<And>x b'. r = (Inr x, b') \<Longrightarrow> moved (s \<or> t) b0 b' \<Longrightarrow> settles b0 (g x b')"
  shows "settles b0 (case r of (Inl e, b') \<Rightarrow> f e b' | (Inr x, b') \<Rightarrow> g x b')"
proof (cases r rule: result_cases)
  case (error e b')
  then have "moved s b0 b'" using after_error [OF assms(2), of t e b'] assms(1) by simp
  with error assms(3) show ?thesis by simp
next
  case (ok x b')
  then have "moved (s \<or> t) b0 b'" using after_ok [OF assms(2), of t x b'] assms(1) by simp
  with ok assms(4) show ?thesis by simp
qed

lemma settles_attempted [parse_rules]:
  assumes "settles b r" and "moved s b0 b"
    and "\<And>e. r = (Inl e, b) \<Longrightarrow> settles b0 (no e b)"
    and "\<And>x b'. r = (Inr x, b') \<Longrightarrow> moved True b0 b' \<Longrightarrow> settles b0 (yes x b')"
  shows "settles b0 (attempt r yes no)"
proof (cases r rule: result_cases)
  case (error e b')
  then show ?thesis using assms(1,3) by (simp add: settles_error)
next
  case (ok x b')
  then show ?thesis
    using assms(1,4) moved_trans [OF assms(2), of True b'] by (simp add: settles_ok)
qed

lemma settles_check [parse_rules]:
  assumes "checks b c" and "moved s b0 b"
    and "\<And>b'. c = (True, b') \<Longrightarrow> moved True b0 b' \<Longrightarrow> settles b0 (f b')"
    and "\<And>b'. c = (False, b') \<Longrightarrow> moved s b0 b' \<Longrightarrow> settles b0 (g b')"
  shows "settles b0 (case c of (ok, b') \<Rightarrow> if ok then f b' else g b')"
proof -
  obtain v b' where c: "c = (v, b')" by (cases c)
  then show ?thesis
    using assms moved_trans [OF assms(2), of True b'] by (cases v) (simp_all add: checks_def)
qed

lemma settles_if [parse_rules]:
  "(c \<Longrightarrow> settles b0 x) \<Longrightarrow> (\<not> c \<Longrightarrow> settles b0 y) \<Longrightarrow> settles b0 (if c then x else y)"
  by simp

text \<open>Moves.\<close>

lemma moved_skipped [parse_rules]: "moved s b0 b \<Longrightarrow> moved s b0 (skipped b)"
  using moved_trans [of s b0 b False "skipped b"] skip_spaces_advances [of b]
  by (simp add: skipped_def)

lemma skip_spaces_yields [parse_steps]: "yields False b (gremlinp_parser_buffer_skip_spaces b)"
  by (simp add: yields_def skip_spaces_advances)

lemma check_str_checks [parse_steps]:
  "s \<noteq> [] \<Longrightarrow> checks b (gremlinp_parser_buffer_check_str_and_shift b s)"
  by (simp add: checks_def gremlinp_parser_buffer_check_str_and_shift_def shift_consumes)

lemma check_str_space_checks [parse_steps]:
  "checks b (gremlinp_parser_buffer_check_str_with_space_and_shift b s)"
  by (simp add: checks_def gremlinp_parser_buffer_check_str_with_space_and_shift_def shift_consumes)

lemma check_and_shift_checks [parse_steps]:
  "checks b (gremlinp_parser_buffer_check_and_shift b c)"
  by (simp add: checks_def gremlinp_parser_buffer_check_and_shift_def shift_consumes)

lemma expect_char_yields: "yields True b (expect_char e c b)"
  by (simp add: yields_def expect_char_def gremlinp_parser_buffer_check_and_shift_def
      shift_consumes consumes_advances split: prod.split bool.split)

lemma semicolon_yields [parse_steps]: "yields True b (gremlinp_parser_buffer_semicolon b)"
  by (simp add: gremlinp_parser_buffer_semicolon_def expect_char_yields)

lemma assignment_yields [parse_steps]: "yields True b (gremlinp_parser_buffer_assignment b)"
  by (simp add: gremlinp_parser_buffer_assignment_def expect_char_yields)

lemma open_bracket_yields [parse_steps]: "yields True b (gremlinp_parser_buffer_open_bracket b)"
  by (simp add: gremlinp_parser_buffer_open_bracket_def expect_char_yields)

lemma close_bracket_yields [parse_steps]: "yields True b (gremlinp_parser_buffer_close_bracket b)"
  by (simp add: gremlinp_parser_buffer_close_bracket_def expect_char_yields)

text \<open>For termination: what a step leaves to read.\<close>

named_theorems shrinks \<open>how much text a step leaves\<close>

lemma skip_spaces_shrinks [shrinks]:
  "gremlinp_parser_buffer_skip_spaces b = (r, b') \<Longrightarrow> remaining b' \<le> remaining b"
  using skip_spaces_advances [of b] by (auto intro: advances_remaining)

lemma check_and_shift_shrinks [shrinks]:
  "gremlinp_parser_buffer_check_and_shift b c = (True, b') \<Longrightarrow> remaining b' < remaining b"
  "(v, b') = gremlinp_parser_buffer_check_and_shift b c \<Longrightarrow> remaining b' \<le> remaining b"
proof -
  show "gremlinp_parser_buffer_check_and_shift b c = (True, b') \<Longrightarrow> remaining b' < remaining b"
    using check_and_shift_checks [of b c] by (auto simp: checks_def intro: consumes_remaining)
  show "(v, b') = gremlinp_parser_buffer_check_and_shift b c \<Longrightarrow> remaining b' \<le> remaining b"
    by (auto simp: gremlinp_parser_buffer_check_and_shift_def remaining_def split: if_splits)
qed

lemma check_str_shrinks [shrinks]:
  "gremlinp_parser_buffer_check_str_and_shift b kw = (v, b') \<Longrightarrow> remaining b' \<le> remaining b"
  by (auto simp: gremlinp_parser_buffer_check_str_and_shift_def remaining_def split: if_splits)

lemma char_in_text: "gremlinp_parser_buffer_char b = c \<Longrightarrow> c \<noteq> nul \<Longrightarrow> pb_offset b < pb_size b"
  by (auto simp: gremlinp_parser_buffer_char_def split: if_splits)

section \<open>Loops\<close>

text \<open>A loop that runs inside a parser which started at \<open>start\<close>: an error takes the cursor
  back to \<open>start\<close>, otherwise the loop moves forward.  The rules follow the control
  patterns again; \<open>ends_again\<close> is the next round, whose cursor is further on.\<close>

definition ends :: "nat \<Rightarrow> parser_buffer \<Rightarrow> 'a parse_result \<Rightarrow> bool" where
  "ends start b r \<longleftrightarrow>
     (case r of (Inl e, b') \<Rightarrow> b' = rewind start b | (Inr x, b') \<Rightarrow> advances b b')"

named_theorems loop_rules \<open>the contract of a loop along the control patterns\<close>

lemma advances_same_rewind: "advances b b' \<Longrightarrow> rewind start b' = rewind start b"
  by (auto simp: advances_def consumes_def rewind_def)

lemma moved_same_rewind: "moved s b b' \<Longrightarrow> rewind start b' = rewind start b"
  by (blast intro: advances_same_rewind moved_advances)

lemma ends_return [loop_rules]: "moved s b0 b \<Longrightarrow> ends start b0 (Inr x, b)"
  by (simp add: ends_def moved_advances)

lemma ends_fail [loop_rules]: "moved s b0 b \<Longrightarrow> ends start b0 (Inl e, rewind start b)"
  by (simp add: ends_def moved_same_rewind)

lemma ends_on_ok [loop_rules]:
  assumes "yields t b r" and "moved s b0 b"
    and "\<And>x b'. r = (Inr x, b') \<Longrightarrow> moved (s \<or> t) b0 b' \<Longrightarrow> ends start b0 (k x b')"
  shows "ends start b0 (on_ok start r k)"
proof (cases r rule: result_cases)
  case (error e b')
  then have "moved s b0 b'" using after_error [OF assms(2), of t e b'] assms(1) by simp
  with error show ?thesis by (simp add: ends_def moved_same_rewind)
next
  case (ok x b')
  then have "moved (s \<or> t) b0 b'" using after_ok [OF assms(2), of t x b'] assms(1) by simp
  with ok assms(3) show ?thesis by simp
qed

lemma ends_require [loop_rules]:
  assumes "checks b c" and "moved s b0 b"
    and "\<And>b'. c = (True, b') \<Longrightarrow> moved True b0 b' \<Longrightarrow> ends start b0 (k b')"
  shows "ends start b0 (require start err c k)"
proof -
  obtain v b' where c: "c = (v, b')" by (cases c)
  then show ?thesis
    using assms moved_trans [OF assms(2), of True b']
    by (cases v) (simp_all add: checks_def ends_def moved_same_rewind)
qed

lemma ends_attempt [loop_rules]:
  assumes "settles b r" and "moved s b0 b"
    and "\<And>e. r = (Inl e, b) \<Longrightarrow> ends start b0 (no e b)"
    and "\<And>x b'. r = (Inr x, b') \<Longrightarrow> moved True b0 b' \<Longrightarrow> ends start b0 (yes x b')"
  shows "ends start b0 (attempt r yes no)"
proof (cases r rule: result_cases)
  case (error e b')
  then show ?thesis using assms(1,3) by (simp add: settles_error)
next
  case (ok x b')
  then show ?thesis
    using assms(1,4) moved_trans [OF assms(2), of True b'] by (simp add: settles_ok)
qed

lemma ends_check [loop_rules]:
  assumes "checks b c" and "moved s b0 b"
    and "\<And>b'. c = (True, b') \<Longrightarrow> moved True b0 b' \<Longrightarrow> ends start b0 (f b')"
    and "\<And>b'. c = (False, b') \<Longrightarrow> moved s b0 b' \<Longrightarrow> ends start b0 (g b')"
  shows "ends start b0 (case c of (ok, b') \<Rightarrow> if ok then f b' else g b')"
proof -
  obtain v b' where c: "c = (v, b')" by (cases c)
  then show ?thesis
    using assms moved_trans [OF assms(2), of True b'] by (cases v) (simp_all add: checks_def)
qed

lemma ends_if [loop_rules]:
  "(c \<Longrightarrow> ends start b0 x) \<Longrightarrow> (\<not> c \<Longrightarrow> ends start b0 y) \<Longrightarrow> ends start b0 (if c then x else y)"
  by simp

lemma ends_again:
  assumes "moved True b0 b" and "\<And>b'. consumes b0 b' \<Longrightarrow> ends start b' (f b')"
  shows "ends start b0 (f b)"
  using assms(2) [of b] assms(1) moved_trans [of True b0 b False]
    moved_same_rewind [OF assms(1), of start]
  by (auto simp: ends_def consumes_advances split: prod.split sum.split)

lemma ends_induct [case_names step]:
  assumes "\<And>b. (\<And>b'. consumes b b' \<Longrightarrow> P b') \<Longrightarrow> P b"
  shows "P b"
  by (induction b rule: measure_induct_rule [of remaining])
     (blast intro: assms consumes_remaining)

text \<open>The loop in the parser, which undoes an error once more.\<close>

lemma settles_loop:
  assumes "ends (pb_offset b0) b r" and "moved s b0 b"
    and "\<And>x b'. r = (Inr x, b') \<Longrightarrow> moved s b0 b' \<Longrightarrow> settles b0 (k x b')"
  shows "settles b0 (on_ok (pb_offset b0) r k)"
proof (cases r rule: result_cases)
  case (error e b')
  then have "b' = b0" using assms(1) moved_rewind [OF assms(2)] by (simp add: ends_def)
  with error show ?thesis by (simp add: settles_error)
next
  case (ok x b')
  then have "moved s b0 b'"
    using assms(1) moved_trans [OF assms(2), of False b'] by (simp add: ends_def)
  with ok assms(3) show ?thesis by simp
qed

lemma shift_shrinks: "pb_offset b < pb_size b \<Longrightarrow> remaining (shift n b) < remaining b \<longleftrightarrow> 0 < n"
  by (auto simp: remaining_def)

section \<open>The interface for callers\<close>

locale restoring_parser =
  fixes parse :: "parser_buffer \<Rightarrow> 'a parse_result"
  assumes contract: "settles b (parse b)"
begin

lemma step: "yields True b (parse b)"
  using contract by (rule settles_yields)

lemma error_restores: "parse b = (Inl e, b') \<Longrightarrow> b' = b"
  using contract [of b] by (simp add: settles_error)

lemma ok_consumes: "parse b = (Inr x, b') \<Longrightarrow> consumes b b'"
  using contract [of b] by (simp add: settles_ok)

lemma ok_decreases: "parse b = (Inr x, b') \<Longrightarrow> remaining b' < remaining b"
  by (blast intro: consumes_remaining ok_consumes)

lemma keeps_valid: "valid_buffer b \<Longrightarrow> valid_buffer (snd (parse b))"
  using yields_advances [OF step] by (rule advances_valid)

text \<open>At the end of the text no parse succeeds.\<close>

lemma no_success_at_end: "pb_offset b \<ge> pb_size b \<Longrightarrow> \<exists>e. parse b = (Inl e, b)"
  using contract [of b] by (cases "parse b"; cases "fst (parse b)")
    (auto simp: settles_def consumes_def)

end

end
