(* ===== verification/Lex_Strings.thy ===== *)
theory Lex_Strings
  imports Parse_Contract
begin

text \<open>
  The character classes, string literals and identifiers of
  \<open>parser/src/entries/lexems.c\<close>.  A span points into the parsed text: its start
  is an offset.  The loops \<open>while (true) { n = char(buf); if (n == 0 || !p(n)) break;
  offset++; }\<close> of the file are one definition, \<open>scan_while\<close>.
\<close>

section \<open>Character classes\<close>

definition is_digit :: "char \<Rightarrow> bool" where
  "is_digit c \<longleftrightarrow> CHR ''0'' \<le> c \<and> c \<le> CHR ''9''"

definition is_octal_digit :: "char \<Rightarrow> bool" where
  "is_octal_digit c \<longleftrightarrow> CHR ''0'' \<le> c \<and> c \<le> CHR ''7''"

definition is_hex_digit :: "char \<Rightarrow> bool" where
  "is_hex_digit c \<longleftrightarrow> (CHR ''0'' \<le> c \<and> c \<le> CHR ''9'') \<or>
     (CHR ''a'' \<le> c \<and> c \<le> CHR ''f'') \<or> (CHR ''A'' \<le> c \<and> c \<le> CHR ''F'')"

definition is_identifier_char :: "char \<Rightarrow> bool" where
  "is_identifier_char c \<longleftrightarrow> (CHR ''0'' \<le> c \<and> c \<le> CHR ''9'') \<or>
     (CHR ''a'' \<le> c \<and> c \<le> CHR ''z'') \<or> (CHR ''A'' \<le> c \<and> c \<le> CHR ''Z'') \<or> c = CHR ''_''"

definition is_ident_start :: "char \<Rightarrow> bool" where
  "is_ident_start c \<longleftrightarrow> (CHR ''a'' \<le> c \<and> c \<le> CHR ''z'') \<or>
     (CHR ''A'' \<le> c \<and> c \<le> CHR ''Z'') \<or> c = CHR ''_''"

lemma char_le_iff: "(c :: char) \<le> d \<longleftrightarrow> (of_char c :: nat) \<le> of_char d"
  by (simp add: less_eq_char_def)

lemma is_ident_start_char: "is_ident_start c \<Longrightarrow> is_identifier_char c"
  by (auto simp: is_ident_start_def is_identifier_char_def)

lemma not_nul [simp]:
  "\<not> is_digit nul" "\<not> is_octal_digit nul" "\<not> is_hex_digit nul"
  "\<not> is_identifier_char nul" "\<not> is_ident_start nul"
  by (simp_all add: is_digit_def is_octal_digit_def is_hex_digit_def is_identifier_char_def
      is_ident_start_def char_le_iff)

lemma digit_is_ident_char: "is_digit c \<Longrightarrow> is_identifier_char c"
  by (simp add: is_digit_def is_identifier_char_def)

lemma dot_not_ident [simp]: "\<not> is_identifier_char (CHR ''.'')" "\<not> is_ident_start (CHR ''.'')"
  by (simp_all add: is_identifier_char_def is_ident_start_def char_le_iff)

section \<open>The text ahead\<close>

text \<open>What the cursor still sees; the operations are functions of it.\<close>

definition ahead :: "parser_buffer \<Rightarrow> string" where
  "ahead b = take (pb_size b - pb_offset b) (drop (pb_offset b) (pb_buf b))"

lemma ahead_Nil: "valid_buffer b \<Longrightarrow> ahead b = [] \<longleftrightarrow> pb_offset b \<ge> pb_size b"
  by (auto simp: ahead_def valid_buffer_def)

lemma length_ahead: "valid_buffer b \<Longrightarrow> length (ahead b) = pb_size b - pb_offset b"
  by (auto simp: ahead_def valid_buffer_def)

lemma ahead_Cons:
  assumes "valid_buffer b" and "pb_offset b < pb_size b"
  shows "ahead b = pb_buf b ! pb_offset b # ahead (shift 1 b)"
proof -
  have "pb_offset b < length (pb_buf b)" using assms by (simp add: valid_buffer_def)
  then have "drop (pb_offset b) (pb_buf b)
      = pb_buf b ! pb_offset b # drop (Suc (pb_offset b)) (pb_buf b)"
    by (simp add: Cons_nth_drop_Suc)
  moreover have "pb_size b - pb_offset b = Suc (pb_size b - Suc (pb_offset b))"
    using assms(2) by simp
  ultimately show ?thesis by (simp add: ahead_def)
qed

lemma ahead_shift: "ahead (shift n b) = drop n (ahead b)"
  by (simp add: ahead_def drop_take add.commute)

lemma char_ahead:
  "valid_buffer b \<Longrightarrow>
   gremlinp_parser_buffer_char b = (case ahead b of [] \<Rightarrow> nul | c # _ \<Rightarrow> c)"
  by (cases "pb_offset b < pb_size b")
     (auto simp: gremlinp_parser_buffer_char_def ahead_Cons ahead_Nil [THEN iffD2] not_less)

lemma valid_shift: "valid_buffer b \<Longrightarrow> n \<le> length (ahead b) \<Longrightarrow> valid_buffer (shift n b)"
  by (auto simp: valid_buffer_def ahead_def)

lemma shift_0 [simp]: "shift 0 b = b"
  by (simp add: shift_def)

lemma shift_shift [simp]: "shift m (shift n b) = shift (n + m) b"
  by (simp add: shift_def add.assoc)

lemma shift_1_consumes [simp]: "pb_offset b < pb_size b \<Longrightarrow> consumes b (shift (Suc 0) b)"
  by (rule shift_consumes) simp_all

lemma rewind_shift [simp]: "rewind (pb_offset b) (shift n b) = b"
  by (simp add: rewind_def shift_def)

section \<open>Scanning a character class\<close>

function scan_while :: "(char \<Rightarrow> bool) \<Rightarrow> parser_buffer \<Rightarrow> parser_buffer" where
  "scan_while p b =
     (let n = gremlinp_parser_buffer_char b in
      if n = nul \<or> \<not> p n then b else scan_while p (shift 1 b))"
  by pat_completeness auto
termination
  by (relation "measure (\<lambda>(p, b). remaining b)")
     (auto simp: remaining_def dest: char_in_text [OF refl])

declare scan_while.simps [simp del]

lemma scan_while_advances: "advances b (scan_while p b)"
proof (induction p b rule: scan_while.induct)
  case (1 p b)
  then show ?case
    using scan_while.simps [of p b] char_in_text [OF refl, of b]
      shift_then [of 1 b "scan_while p (shift 1 b)"]
    by (auto simp: Let_def)
qed

lemma moved_scan_while [parse_rules]: "moved s b0 b \<Longrightarrow> moved s b0 (scan_while p b)"
  using moved_trans [of s b0 b False "scan_while p b"] scan_while_advances [of b p] by simp

lemma scan_while_ahead:
  "valid_buffer b \<Longrightarrow>
   scan_while p b = shift (length (takeWhile (\<lambda>c. c \<noteq> nul \<and> p c) (ahead b))) b"
proof (induction p b rule: scan_while.induct)
  case (1 p b)
  show ?case
  proof (cases "ahead b")
    case Nil
    then show ?thesis
      using scan_while.simps [of p b] char_ahead [OF "1.prems"] by (simp add: Let_def)
  next
    case (Cons c cs)
    then have "pb_offset b < pb_size b" using ahead_Nil [OF "1.prems"] by (simp add: not_le)
    then have "valid_buffer (shift 1 b)" and "ahead (shift 1 b) = cs"
      using ahead_Cons [OF "1.prems"] Cons "1.prems" by (auto simp: valid_buffer_def)
    then show ?thesis
      using 1 Cons scan_while.simps [of p b] char_ahead [OF "1.prems"] by (auto simp: Let_def)
  qed
qed

section \<open>Escape sequences\<close>

fun parse_unicode_escape :: "nat \<Rightarrow> parser_buffer \<Rightarrow> unit parse_result" where
  "parse_unicode_escape 0 b = (Inr (), b)"
| "parse_unicode_escape (Suc n) b =
     (case gremlinp_parser_buffer_should_shift_next b of (c, b') \<Rightarrow>
        if c = nul \<or> \<not> is_hex_digit c then (Inl GREMLINP_ERROR_INVALID_UNICODE_ESCAPE, b')
        else parse_unicode_escape n b')"

definition parse_extended_unicode_escape :: "parser_buffer \<Rightarrow> unit parse_result" where
  "parse_extended_unicode_escape b =
     (case gremlinp_parser_buffer_check_and_shift b (CHR ''0'') of
        (False, b1) \<Rightarrow> (Inl GREMLINP_ERROR_INVALID_UNICODE_ESCAPE, b1)
      | (True, b1) \<Rightarrow>
     (case gremlinp_parser_buffer_check_and_shift b1 (CHR ''0'') of
        (False, b2) \<Rightarrow> (Inl GREMLINP_ERROR_INVALID_UNICODE_ESCAPE, b2)
      | (True, b2) \<Rightarrow>
     (case gremlinp_parser_buffer_should_shift_next b2 of (next_char, b3) \<Rightarrow>
        if next_char = CHR ''0'' then parse_unicode_escape 5 b3
        else if next_char = CHR ''1'' then
          (case gremlinp_parser_buffer_check_and_shift b3 (CHR ''0'') of
             (False, b4) \<Rightarrow> (Inl GREMLINP_ERROR_INVALID_UNICODE_ESCAPE, b4)
           | (True, b4) \<Rightarrow> parse_unicode_escape 4 b4)
        else (Inl GREMLINP_ERROR_INVALID_UNICODE_ESCAPE, b3))))"

definition parse_hex_escape :: "parser_buffer \<Rightarrow> unit parse_result" where
  "parse_hex_escape b =
     (let c = gremlinp_parser_buffer_char b in
      if c = nul \<or> \<not> is_hex_digit c then (Inl GREMLINP_ERROR_INVALID_ESCAPE, b)
      else (Inr (), scan_while is_hex_digit b))"

definition parse_octal_escape :: "parser_buffer \<Rightarrow> parser_buffer" where
  "parse_octal_escape b = scan_while is_octal_digit b"

definition is_simple_escape :: "char \<Rightarrow> bool" where
  "is_simple_escape c \<longleftrightarrow> c \<in> set [CHR ''a'', CHR ''b'', CHR ''f'', CHR ''n'', CHR ''r'',
     CHR ''t'', CHR ''v'', CHR 0x5C, CHR 0x27, CHR 0x22, CHR ''?'']"

definition parse_escape_sequence :: "parser_buffer \<Rightarrow> unit parse_result" where
  "parse_escape_sequence b =
     (let next_char = gremlinp_parser_buffer_char b in
      if next_char = nul then (Inl GREMLINP_ERROR_UNEXPECTED_EOF, b)
      else
        (let b1 = snd (gremlinp_parser_buffer_should_shift_next b) in
         if next_char = CHR ''x'' \<or> next_char = CHR ''X'' then parse_hex_escape b1
         else if CHR ''0'' \<le> next_char \<and> next_char \<le> CHR ''7'' then
           (Inr (), parse_octal_escape b1)
         else if next_char = CHR ''u'' then parse_unicode_escape 4 b1
         else if next_char = CHR ''U'' then parse_extended_unicode_escape b1
         else if is_simple_escape next_char then (Inr (), b1)
         else (Inl GREMLINP_ERROR_INVALID_ESCAPE, b1)))"

lemma should_shift_advances: "advances b (snd (gremlinp_parser_buffer_should_shift_next b))"
  by (simp add: gremlinp_parser_buffer_should_shift_next_def shift_consumes consumes_advances)

lemma check_and_shift_advances:
  "advances b (snd (gremlinp_parser_buffer_check_and_shift b c))"
  by (simp add: gremlinp_parser_buffer_check_and_shift_def shift_consumes consumes_advances)

lemma unicode_escape_advances: "advances b (snd (parse_unicode_escape n b))"
proof (induction n arbitrary: b)
  case (Suc n)
  then show ?case
    using should_shift_advances [of b] by (auto split: prod.split intro: advances_trans)
qed simp

lemma check_and_shift_D:
  "gremlinp_parser_buffer_check_and_shift b c = (ok, b') \<Longrightarrow> advances b b'"
  using check_and_shift_advances [of b c] by simp

lemma should_shift_D: "gremlinp_parser_buffer_should_shift_next b = (c, b') \<Longrightarrow> advances b b'"
  using should_shift_advances [of b] by simp

lemma extended_unicode_advances: "advances b (snd (parse_extended_unicode_escape b))"
  unfolding parse_extended_unicode_escape_def
  by (auto split: prod.split bool.split dest!: check_and_shift_D should_shift_D)
     (blast intro: unicode_escape_advances advances_trans)+

lemma hex_escape_advances: "advances b (snd (parse_hex_escape b))"
  by (simp add: parse_hex_escape_def Let_def scan_while_advances)

lemma escape_advances: "advances b (snd (parse_escape_sequence b))"
  using should_shift_advances [of b]
  by (auto simp: parse_escape_sequence_def Let_def parse_octal_escape_def
      elim!: advances_trans
      intro: hex_escape_advances scan_while_advances unicode_escape_advances
        extended_unicode_advances)

section \<open>String literals\<close>

record gremlinp_span =
  span_start :: nat
  span_length :: nat

function str_lit_single :: "char \<Rightarrow> parser_buffer \<Rightarrow> unit parse_result" where
  "str_lit_single close b =
     (case gremlinp_parser_buffer_should_shift_next b of (c, b1) \<Rightarrow>
        if c = close then (Inr (), b1)
        else if c = CHR 0x5C then
          (case parse_escape_sequence b1 of
             (Inl e, b2) \<Rightarrow> (Inl e, b2)
           | (Inr _, b2) \<Rightarrow> str_lit_single close b2)
        else if c = nul \<or> c = newline then (Inl GREMLINP_ERROR_INVALID_STRING_LITERAL, b1)
        else str_lit_single close b1)"
  by pat_completeness auto
termination
proof (relation "measure (\<lambda>(close, b). remaining b)", goal_cases)
  case (2 close b c b1 r b2 u)
  then have "remaining b1 < remaining b"
    by (auto simp: gremlinp_parser_buffer_should_shift_next_def remaining_def split: if_splits)
  moreover have "b2 = snd (parse_escape_sequence b1)" using 2 by (metis snd_conv)
  then have "remaining b2 \<le> remaining b1"
    using advances_remaining [OF escape_advances] by simp
  ultimately show ?case by simp
next
  case (3 close b c b1)
  then show ?case
    by (auto simp: gremlinp_parser_buffer_should_shift_next_def remaining_def split: if_splits)
qed simp

declare str_lit_single.simps [simp del]

definition gremlinp_lexems_parse_string_literal :: "parser_buffer \<Rightarrow> gremlinp_span parse_result" where
  "gremlinp_lexems_parse_string_literal b =
     (let start = pb_offset b; open_char = gremlinp_parser_buffer_char b in
      if open_char \<noteq> CHR 0x22 \<and> open_char \<noteq> CHR 0x27
      then (Inl GREMLINP_ERROR_INVALID_STRING_LITERAL, b)
      else on_ok start (str_lit_single open_char (shift 1 b)) (\<lambda>_ b'.
        (Inr \<lparr>span_start = start + 1, span_length = pb_offset b' - start - 2\<rparr>, b')))"

lemma str_lit_single_advances: "advances b (snd (str_lit_single close b))"
proof (induction close b rule: str_lit_single.induct)
  case (1 close b)
  obtain c b1 where s: "gremlinp_parser_buffer_should_shift_next b = (c, b1)"
    by (cases "gremlinp_parser_buffer_should_shift_next b")
  have b1: "advances b b1" using should_shift_D [OF s] .
  show ?case
  proof (cases "parse_escape_sequence b1" rule: result_cases)
    case (error e b2)
    then have "advances b1 b2" using escape_advances [of b1] by simp
    with 1 s b1 error str_lit_single.simps [of close b] show ?thesis
      by (auto intro: advances_trans)
  next
    case (ok u b2)
    then have "advances b1 b2" using escape_advances [of b1] by simp
    with 1 s b1 ok str_lit_single.simps [of close b] show ?thesis
      by (auto intro: advances_trans)
  qed
qed

text \<open>A success read at least the closing quote.\<close>

lemma str_lit_single_close:
  "str_lit_single close b = (Inr u, b') \<Longrightarrow> close \<noteq> nul \<Longrightarrow>
   consumes b b' \<and> pb_buf b ! (pb_offset b' - 1) = close"
proof (induction close b rule: str_lit_single.induct)
  case (1 close b)
  obtain c b1 where s: "gremlinp_parser_buffer_should_shift_next b = (c, b1)"
    by (cases "gremlinp_parser_buffer_should_shift_next b")
  show ?case
  proof (cases "c = close")
    case True
    then have "b' = b1" using "1.prems" s str_lit_single.simps [of close b] by simp
    then show ?thesis
      using s True "1.prems"(2)
      by (auto simp: gremlinp_parser_buffer_should_shift_next_def consumes_def split: if_splits)
  next
    case False
    have b1: "advances b b1" using should_shift_D [OF s] .
    show ?thesis
    proof (cases "c = CHR 0x5C")
      case True
      then obtain w b2 where e: "parse_escape_sequence b1 = (Inr w, b2)"
          and r: "str_lit_single close b2 = (Inr u, b')"
        using "1.prems"(1) s False str_lit_single.simps [of close b]
        by (auto split: prod.splits sum.splits)
      have b2: "advances b1 b2" using escape_advances [of b1] e by simp
      then have "pb_buf b2 = pb_buf b"
        using b1 by (auto simp: advances_def consumes_def)
      then show ?thesis
        using "1.IH"(1) [OF s [symmetric] False True e [symmetric] refl r "1.prems"(2)]
          advances_consumes_trans [OF advances_trans [OF b1 b2]] by simp
    next
      case nb: False
      then have r: "str_lit_single close b1 = (Inr u, b')" and "\<not> (c = nul \<or> c = newline)"
        using "1.prems"(1) s False str_lit_single.simps [of close b] by (auto split: if_splits)
      moreover have "pb_buf b1 = pb_buf b"
        using b1 by (auto simp: advances_def consumes_def)
      ultimately show ?thesis
        using "1.IH"(2) [OF s [symmetric] False nb _ r "1.prems"(2)]
          advances_consumes_trans [OF b1] by simp
    qed
  qed
qed

lemma str_lit_single_yields [parse_steps]:
  "close \<noteq> nul \<Longrightarrow> yields True b (str_lit_single close b)"
  using str_lit_single_advances [of b close] str_lit_single_close [of close b]
  by (cases "str_lit_single close b" rule: result_cases) (auto simp: yields_def)

lemma string_literal_settles: "settles b (gremlinp_lexems_parse_string_literal b)"
proof -
  let ?c = "gremlinp_parser_buffer_char b"
  have "moved True b (shift 1 b)" and "yields True (shift 1 b) (str_lit_single ?c (shift 1 b))"
    if "?c = CHR 0x22 \<or> ?c = CHR 0x27"
  proof -
    have n: "?c \<noteq> nul" using that by auto
    then have "pb_offset b < pb_size b" using char_in_text by blast
    then show "moved True b (shift 1 b)" by (simp add: shift_consumes)
    show "yields True (shift 1 b) (str_lit_single ?c (shift 1 b))"
      using n by (rule str_lit_single_yields)
  qed
  then show ?thesis
    unfolding gremlinp_lexems_parse_string_literal_def Let_def
    by (auto intro!: parse_rules settles_on_ok [where s = True and t = True])
qed

text \<open>The span is what stands between two equal quotes.\<close>

lemma string_literal_span:
  assumes "gremlinp_lexems_parse_string_literal b = (Inr s, b')"
  shows "consumes b b' \<and> pb_offset b' = span_start s + span_length s + 1 \<and>
    span_start s = pb_offset b + 1 \<and> gremlinp_parser_buffer_char b \<in> {CHR 0x22, CHR 0x27} \<and>
    pb_buf b ! (span_start s + span_length s) = gremlinp_parser_buffer_char b"
proof -
  let ?c = "gremlinp_parser_buffer_char b"
  have q: "?c = CHR 0x22 \<or> ?c = CHR 0x27"
    using assms by (auto simp: gremlinp_lexems_parse_string_literal_def Let_def split: if_splits)
  then have n: "?c \<noteq> nul" by auto
  have d: "gremlinp_lexems_parse_string_literal b =
      on_ok (pb_offset b) (str_lit_single ?c (shift 1 b)) (\<lambda>_ b'.
        (Inr \<lparr>span_start = pb_offset b + 1, span_length = pb_offset b' - pb_offset b - 2\<rparr>, b'))"
    using q by (auto simp: gremlinp_lexems_parse_string_literal_def Let_def)
  obtain u where r: "str_lit_single ?c (shift 1 b) = (Inr u, b')"
      and s: "s = \<lparr>span_start = pb_offset b + 1, span_length = pb_offset b' - pb_offset b - 2\<rparr>"
    using assms unfolding d by (auto dest!: on_ok_InrD)
  have c: "consumes (shift 1 b) b'" "pb_buf b ! (pb_offset b' - 1) = ?c"
    using str_lit_single_close [OF r n] by auto
  have "consumes b b'"
    using string_literal_settles [of b] assms by (simp add: settles_ok)
  moreover have "pb_offset b + 2 \<le> pb_offset b'" using c(1) by (auto simp: consumes_def)
  moreover from this have "Suc (pb_offset b' - 2) = pb_offset b' - 1" by simp
  ultimately show ?thesis using q c(2) by (auto simp: s)
qed

section \<open>Identifiers\<close>

definition gremlinp_lexems_parse_identifier :: "parser_buffer \<Rightarrow> gremlinp_span parse_result" where
  "gremlinp_lexems_parse_identifier b =
     (let start = pb_offset b; c = gremlinp_parser_buffer_char b in
      if c \<noteq> CHR ''_'' \<and> \<not> (CHR ''a'' \<le> c \<and> c \<le> CHR ''z'') \<and>
         \<not> (CHR ''A'' \<le> c \<and> c \<le> CHR ''Z'')
      then (Inl GREMLINP_ERROR_IDENTIFIER_SHOULD_START_WITH_LETTER, b)
      else
        (let b' = scan_while is_identifier_char (shift 1 b) in
         (Inr \<lparr>span_start = start, span_length = pb_offset b' - start\<rparr>, b')))"

lemma identifier_unfold:
  "gremlinp_lexems_parse_identifier b =
     (if \<not> is_ident_start (gremlinp_parser_buffer_char b)
      then (Inl GREMLINP_ERROR_IDENTIFIER_SHOULD_START_WITH_LETTER, b)
      else
        (let b' = scan_while is_identifier_char (shift 1 b) in
         (Inr \<lparr>span_start = pb_offset b, span_length = pb_offset b' - pb_offset b\<rparr>, b')))"
  by (auto simp: gremlinp_lexems_parse_identifier_def is_ident_start_def Let_def)

lemma ident_start_in_text:
  "is_ident_start (gremlinp_parser_buffer_char b) \<Longrightarrow> pb_offset b < pb_size b"
  using char_in_text [OF refl, of b] by (metis not_nul(5))

lemma identifier_settles: "settles b (gremlinp_lexems_parse_identifier b)"
  unfolding identifier_unfold Let_def
  by (auto simp: settles_ok settles_error dest!: ident_start_in_text
      intro!: consumes_advances_trans [OF shift_consumes scan_while_advances])

function full_identifier_loop :: "parser_buffer \<Rightarrow> parser_buffer" where
  "full_identifier_loop b =
     (if gremlinp_parser_buffer_char b \<noteq> CHR ''.'' then b
      else
        (case gremlinp_lexems_parse_identifier (shift 1 b) of
           (Inl _, b') \<Rightarrow> rewind (pb_offset b) b'
         | (Inr _, b') \<Rightarrow> full_identifier_loop b'))"
  by pat_completeness auto
termination
proof (relation "measure remaining", goal_cases)
  case (2 b r b' u)
  then have "gremlinp_lexems_parse_identifier (shift 1 b) = (Inr u, b')" by simp
  then have "consumes (shift 1 b) b'"
    using identifier_settles [of "shift 1 b"] by (simp add: settles_ok)
  then show ?case by (auto simp: consumes_def remaining_def)
qed simp

declare full_identifier_loop.simps [simp del]

definition gremlinp_lexems_parse_full_identifier ::
  "parser_buffer \<Rightarrow> gremlinp_span parse_result" where
  "gremlinp_lexems_parse_full_identifier b =
     (let start = pb_offset b;
          b1 = (if gremlinp_parser_buffer_char b = CHR ''.'' then shift 1 b else b) in
      on_ok start (gremlinp_lexems_parse_identifier b1) (\<lambda>_ b2.
        (let b3 = full_identifier_loop b2 in
         (Inr \<lparr>span_start = start, span_length = pb_offset b3 - start\<rparr>, b3))))"

interpretation ident: restoring_parser gremlinp_lexems_parse_identifier
  by unfold_locales (rule identifier_settles)

interpretation string_lit: restoring_parser gremlinp_lexems_parse_string_literal
  by unfold_locales (rule string_literal_settles)

lemma dot_in_text: "gremlinp_parser_buffer_char b = CHR ''.'' \<Longrightarrow> pb_offset b < pb_size b"
  by (erule char_in_text) simp

lemma full_identifier_loop_advances: "advances b (full_identifier_loop b)"
proof (induction b rule: full_identifier_loop.induct)
  case (1 b)
  note eq = full_identifier_loop.simps [of b]
  show ?case
  proof (cases "gremlinp_parser_buffer_char b = CHR ''.''")
    case True
    then have s: "consumes b (shift 1 b)" by (simp add: dot_in_text)
    show ?thesis
    proof (cases "gremlinp_lexems_parse_identifier (shift 1 b)" rule: result_cases)
      case (error e b')
      then have "b' = shift 1 b" by (rule ident.error_restores)
      then show ?thesis using True error eq by simp
    next
      case (ok x b')
      then have "consumes b b'" by (blast intro: consumes_trans s ident.ok_consumes)
      then show ?thesis
        using 1 [OF _ ok [symmetric] refl] True ok eq by (auto intro: advances_trans)
    qed
  qed (simp add: eq)
qed

lemma moved_full_identifier_loop [parse_rules]:
  "moved s b0 b \<Longrightarrow> moved s b0 (full_identifier_loop b)"
  using moved_trans [of s b0 b False "full_identifier_loop b"]
    full_identifier_loop_advances [of b] by simp

lemmas [parse_steps] = ident.step string_lit.step
lemmas [parse_contracts] = ident.contract string_lit.contract

lemma full_identifier_settles: "settles b (gremlinp_lexems_parse_full_identifier b)"
proof -
  have "moved False b (if gremlinp_parser_buffer_char b = CHR ''.'' then shift 1 b else b)"
    by (auto simp: consumes_advances dot_in_text)
  then show ?thesis
    unfolding gremlinp_lexems_parse_full_identifier_def Let_def
    by - (assumption | rule parse_rules parse_steps | simp)+
qed

interpretation full_ident: restoring_parser gremlinp_lexems_parse_full_identifier
  by unfold_locales (rule full_identifier_settles)

lemmas [parse_steps] = full_ident.step
lemmas [parse_contracts] = full_ident.contract

section \<open>What an identifier is\<close>

definition valid_identifier :: "string \<Rightarrow> bool" where
  "valid_identifier s \<longleftrightarrow> s \<noteq> [] \<and> is_ident_start (hd s) \<and> list_all is_identifier_char (tl s)"

text \<open>A possibly leading dot and identifiers separated by dots.\<close>

fun dotted :: "string list \<Rightarrow> string" where
  "dotted [] = []"
| "dotted (i # is) = CHR ''.'' # i @ dotted is"

definition full_name :: "bool \<Rightarrow> string \<Rightarrow> string list \<Rightarrow> string" where
  "full_name lead i is = (if lead then ''.'' else []) @ i @ dotted is"

definition stops_ident :: "string \<Rightarrow> bool" where
  "stops_ident r \<longleftrightarrow> r = [] \<or> \<not> is_identifier_char (hd r)"

definition stops_name :: "string \<Rightarrow> bool" where
  "stops_name r \<longleftrightarrow> stops_ident r \<and>
     \<not> (r \<noteq> [] \<and> hd r = CHR ''.'' \<and> tl r \<noteq> [] \<and> is_ident_start (hd (tl r)))"

lemma takeWhile_not_nul:
  "\<not> p nul \<Longrightarrow> takeWhile (\<lambda>c. c \<noteq> nul \<and> p c) cs = takeWhile p cs"
  by (rule takeWhile_cong) auto

lemma identifier_ahead:
  assumes "valid_buffer b"
  shows "gremlinp_lexems_parse_identifier b =
    (case ahead b of
       [] \<Rightarrow> (Inl GREMLINP_ERROR_IDENTIFIER_SHOULD_START_WITH_LETTER, b)
     | c # cs \<Rightarrow>
         if is_ident_start c
         then let n = Suc (length (takeWhile is_identifier_char cs)) in
           (Inr \<lparr>span_start = pb_offset b, span_length = n\<rparr>, shift n b)
         else (Inl GREMLINP_ERROR_IDENTIFIER_SHOULD_START_WITH_LETTER, b))"
proof (cases "ahead b")
  case Nil
  then show ?thesis by (simp add: identifier_unfold char_ahead [OF assms])
next
  case (Cons c cs)
  then have "valid_buffer (shift 1 b)" by (intro valid_shift assms) simp
  moreover have "ahead (shift 1 b) = cs" by (simp add: ahead_shift Cons)
  ultimately have "scan_while is_identifier_char (shift 1 b)
      = shift (Suc (length (takeWhile is_identifier_char cs))) b"
    by (simp add: scan_while_ahead takeWhile_not_nul)
  then show ?thesis
    using Cons by (simp add: identifier_unfold char_ahead [OF assms] Let_def)
qed

lemma takeWhile_stops:
  "list_all is_identifier_char xs \<Longrightarrow> stops_ident r \<Longrightarrow> takeWhile is_identifier_char (xs @ r) = xs"
  by (induction xs) (auto simp: stops_ident_def intro: takeWhile_eq_Nil_iff [THEN iffD2])

text \<open>An identifier that ends where it must is read exactly.\<close>

lemma identifier_read:
  assumes "valid_buffer b" and "ahead b = i @ r" and "valid_identifier i" and "stops_ident r"
  shows "gremlinp_lexems_parse_identifier b =
    (Inr \<lparr>span_start = pb_offset b, span_length = length i\<rparr>, shift (length i) b)"
proof -
  obtain c cs where i: "i = c # cs" using assms(3) by (cases i) (auto simp: valid_identifier_def)
  have "takeWhile is_identifier_char (cs @ r) = cs"
    using assms(3,4) by (intro takeWhile_stops) (auto simp: valid_identifier_def i)
  then show ?thesis
    using assms(2,3) by (simp add: identifier_ahead [OF assms(1)] i valid_identifier_def Let_def)
qed

lemma dotted_stops: "stops_ident r \<Longrightarrow> stops_ident (dotted is @ r)"
  by (cases "is") (auto simp: stops_ident_def)

lemma full_identifier_loop_read:
  "\<lbrakk>valid_buffer b; ahead b = dotted is @ r; list_all valid_identifier is; stops_name r\<rbrakk> \<Longrightarrow>
   full_identifier_loop b = shift (length (dotted is)) b"
proof (induction "is" arbitrary: b)
  case Nil
  note eq = full_identifier_loop.simps [of b]
  show ?case
  proof (cases "gremlinp_parser_buffer_char b = CHR ''.''")
    case True
    then obtain cs where a: "ahead b = CHR ''.'' # cs"
      using char_ahead [OF Nil(1)] by (auto split: list.splits)
    then have v: "valid_buffer (shift 1 b)" by (intro valid_shift Nil(1)) simp
    have "ahead (shift 1 b) = cs" using a by (simp add: ahead_shift)
    moreover have "cs = [] \<or> \<not> is_ident_start (hd cs)"
      using Nil(2,4) a by (auto simp: stops_name_def)
    ultimately have "gremlinp_lexems_parse_identifier (shift 1 b)
        = (Inl GREMLINP_ERROR_IDENTIFIER_SHOULD_START_WITH_LETTER, shift 1 b)"
      unfolding identifier_ahead [OF v] by (auto split: list.split)
    then show ?thesis using eq True by simp
  qed (simp add: eq)
next
  case (Cons i ids)
  note eq = full_identifier_loop.simps [of b]
  have a: "ahead b = CHR ''.'' # i @ dotted ids @ r" using Cons.prems(2) by simp
  then have v: "valid_buffer (shift 1 b)" by (intro valid_shift Cons.prems(1)) simp
  have "stops_ident r" using Cons.prems(4) by (simp add: stops_name_def)
  then have id: "gremlinp_lexems_parse_identifier (shift 1 b)
      = (Inr \<lparr>span_start = pb_offset b + 1, span_length = length i\<rparr>, shift (Suc (length i)) b)"
    using identifier_read [OF v, of i "dotted ids @ r"] a Cons.prems(3) dotted_stops
    by (simp add: ahead_shift)
  have v2: "valid_buffer (shift (Suc (length i)) b)"
    using a by (intro valid_shift Cons.prems(1)) simp
  have "full_identifier_loop (shift (Suc (length i)) b)
      = shift (length (dotted ids)) (shift (Suc (length i)) b)"
    using Cons.prems(3,4) a by (intro Cons.IH v2) (simp_all add: ahead_shift)
  then show ?case
    using eq id char_ahead [OF Cons.prems(1)] a by (simp add: add.assoc)
qed

lemma full_identifier_read:
  assumes "valid_buffer b" and "ahead b = full_name lead i is @ r"
    and "valid_identifier i" and "list_all valid_identifier is" and "stops_name r"
  shows "gremlinp_lexems_parse_full_identifier b =
    (Inr \<lparr>span_start = pb_offset b, span_length = length (full_name lead i is)\<rparr>,
     shift (length (full_name lead i is)) b)"
proof -
  define k where "k = (if lead then 1 else 0 :: nat)"
  have a: "drop k (ahead b) = i @ dotted is @ r" "k \<le> length (ahead b)"
    using assms(2) by (auto simp: full_name_def k_def)
  have "hd i \<noteq> CHR ''.''" using assms(3) by (auto simp: valid_identifier_def)
  then have b1: "(if gremlinp_parser_buffer_char b = CHR ''.'' then shift 1 b else b) = shift k b"
    using assms(2,3) by (cases i)
      (auto simp: char_ahead [OF assms(1)] full_name_def k_def valid_identifier_def)
  have v: "valid_buffer (shift k b)" using a(2) by (intro valid_shift assms(1))
  have st: "stops_ident (dotted is @ r)"
    using assms(5) by (intro dotted_stops) (simp add: stops_name_def)
  have id: "gremlinp_lexems_parse_identifier (shift k b)
      = (Inr \<lparr>span_start = pb_offset b + k, span_length = length i\<rparr>, shift (k + length i) b)"
    using identifier_read [OF v, of i "dotted is @ r"] a assms(3) st by (simp add: ahead_shift)
  have v2: "valid_buffer (shift (k + length i) b)"
    using assms(2) by (intro valid_shift assms(1)) (simp add: full_name_def k_def)
  have "drop (length i) (drop k (ahead b)) = dotted is @ r" using a by simp
  then have "full_identifier_loop (shift (k + length i) b)
      = shift (length (dotted is)) (shift (k + length i) b)"
    using assms(4,5) by (intro full_identifier_loop_read v2) (simp_all add: ahead_shift add.commute)
  then show ?thesis
    unfolding gremlinp_lexems_parse_full_identifier_def Let_def b1 id
    by (simp add: full_name_def k_def)
qed

lemma split_dotted:
  "stops_ident cs \<Longrightarrow> \<exists>is r. cs = dotted is @ r \<and> list_all valid_identifier is \<and> stops_name r"
proof (induction cs rule: length_induct)
  case (1 cs)
  show ?case
  proof (cases "stops_name cs")
    case True
    then show ?thesis by (intro exI [of _ "[]"] exI [of _ cs]) simp
  next
    case False
    then obtain c cs' where cs: "cs = CHR ''.'' # c # cs'" and c: "is_ident_start c"
      using 1(2) by (cases cs; cases "tl cs") (auto simp: stops_name_def)
    let ?i = "c # takeWhile is_identifier_char cs'" and ?r = "dropWhile is_identifier_char cs'"
    have "stops_ident ?r" using hd_dropWhile [of is_identifier_char cs'] by (auto simp: stops_ident_def)
    moreover have "length ?r < length cs" using length_dropWhile_le [of is_identifier_char cs'] cs by simp
    ultimately obtain ids r where "?r = dotted ids @ r" "list_all valid_identifier ids" "stops_name r"
      using 1(1) by blast
    moreover have "valid_identifier ?i"
      using c by (auto simp: valid_identifier_def list_all_iff dest: set_takeWhileD)
    moreover have "cs = CHR ''.'' # ?i @ ?r" by (simp add: cs)
    ultimately have "cs = dotted (?i # ids) @ r \<and> list_all valid_identifier (?i # ids) \<and> stops_name r"
      by simp
    then show ?thesis by blast
  qed
qed

lemma split_name:
  assumes "is_ident_start c"
  obtains i ids r where "c # cs = i @ dotted ids @ r" "valid_identifier i"
    "list_all valid_identifier ids" "stops_name r"
proof -
  let ?i = "c # takeWhile is_identifier_char cs" and ?r = "dropWhile is_identifier_char cs"
  have "stops_ident ?r" using hd_dropWhile [of is_identifier_char cs] by (auto simp: stops_ident_def)
  then obtain ids r where "?r = dotted ids @ r" "list_all valid_identifier ids" "stops_name r"
    using split_dotted by blast
  moreover have "valid_identifier ?i"
    using assms by (auto simp: valid_identifier_def list_all_iff dest: set_takeWhileD)
  moreover have "c # cs = ?i @ ?r" by simp
  ultimately show thesis by (intro that [of ?i ids r]) simp_all
qed

text \<open>Where no name starts, the parse fails.\<close>

lemma full_identifier_fails:
  assumes "valid_buffer b" and "\<not> (\<exists>c cs. ahead b = c # cs \<and> is_ident_start c)"
    and "\<not> (\<exists>c cs. ahead b = CHR ''.'' # c # cs \<and> is_ident_start c)"
  shows "gremlinp_lexems_parse_full_identifier b
    = (Inl GREMLINP_ERROR_IDENTIFIER_SHOULD_START_WITH_LETTER, b)"
proof -
  have nb: "(if gremlinp_parser_buffer_char b = CHR ''.'' then shift 1 b else b) = shift 1 b
      \<and> (\<exists>cs. ahead b = CHR ''.'' # cs)
    \<or> (if gremlinp_parser_buffer_char b = CHR ''.'' then shift 1 b else b) = b"
    by (auto simp: char_ahead [OF assms(1)] split: list.splits)
  have "gremlinp_lexems_parse_identifier (shift 1 b)
      = (Inl GREMLINP_ERROR_IDENTIFIER_SHOULD_START_WITH_LETTER, shift 1 b)"
    if a: "ahead b = CHR ''.'' # cs" for cs
  proof -
    have v: "valid_buffer (shift 1 b)" using a by (intro valid_shift assms(1)) simp
    show ?thesis
      unfolding identifier_ahead [OF v] using a assms(3) by (auto simp: ahead_shift split: list.split)
  qed
  moreover have "gremlinp_lexems_parse_identifier b
      = (Inl GREMLINP_ERROR_IDENTIFIER_SHOULD_START_WITH_LETTER, b)"
    unfolding identifier_ahead [OF assms(1)] using assms(2) by (auto split: list.split)
  moreover have "rewind (pb_offset b) b = b" by (simp add: rewind_def)
  ultimately show ?thesis
    using nb unfolding gremlinp_lexems_parse_full_identifier_def Let_def by auto
qed

section \<open>Properties\<close>

text \<open>A full identifier is exactly an optional leading dot and identifiers separated by
  dots, taken as far as the text allows: the parse succeeds exactly when such a name starts at
  the cursor, returns its span, moves behind it, and otherwise leaves the buffer as it was.\<close>
theorem full_identifier_correct:
  assumes "valid_buffer b"
  shows "(\<exists>lead i ids r. ahead b = full_name lead i ids @ r \<and> valid_identifier i \<and>
            list_all valid_identifier ids \<and> stops_name r \<and>
            gremlinp_lexems_parse_full_identifier b =
              (Inr \<lparr>span_start = pb_offset b, span_length = length (full_name lead i ids)\<rparr>,
               shift (length (full_name lead i ids)) b)) \<or>
         ((\<nexists>lead i ids r. ahead b = full_name lead i ids @ r \<and> valid_identifier i) \<and>
          gremlinp_lexems_parse_full_identifier b
            = (Inl GREMLINP_ERROR_IDENTIFIER_SHOULD_START_WITH_LETTER, b))"
proof (cases "\<exists>lead c cs. ahead b = (if lead then ''.'' else []) @ c # cs \<and> is_ident_start c")
  case True
  then obtain lead c cs where a: "ahead b = (if lead then ''.'' else []) @ c # cs"
      and c: "is_ident_start c" by blast
  obtain i ids r where n: "c # cs = i @ dotted ids @ r" "valid_identifier i"
      "list_all valid_identifier ids" "stops_name r"
    using c by (rule split_name)
  have f: "ahead b = full_name lead i ids @ r" using a n(1) by (simp add: full_name_def)
  show ?thesis
    by (intro disjI1 exI [of _ lead] exI [of _ i] exI [of _ ids] exI [of _ r] conjI f n(2-4)
        full_identifier_read [OF assms f n(2-4)])
next
  case False
  then have F: "\<not> (ahead b = (if lead then ''.'' else []) @ c # cs \<and> is_ident_start c)"
    for lead c cs by blast
  have fails: "gremlinp_lexems_parse_full_identifier b
      = (Inl GREMLINP_ERROR_IDENTIFIER_SHOULD_START_WITH_LETTER, b)"
    using F [of False] F [of True] by (intro full_identifier_fails assms) auto
  have "ahead b \<noteq> full_name lead i ids @ r" if i: "valid_identifier i" for lead i ids r
  proof -
    obtain c cs where "i = c # cs" "is_ident_start c"
      using i by (cases i) (auto simp: valid_identifier_def)
    then show ?thesis using F [of lead c "cs @ dotted ids @ r"] by (auto simp: full_name_def)
  qed
  with fails show ?thesis by (intro disjI2 conjI) (blast, assumption)
qed

theorem full_identifier_correct_witness:
  "\<exists>lead i ids r. ahead (gremlinp_parser_buffer_init ''.foo.B1 x'' 0) = full_name lead i ids @ r
     \<and> valid_identifier i"
proof -
  let ?b = "gremlinp_parser_buffer_init ''.foo.B1 x'' 0"
  have v: "valid_buffer ?b" by (rule init_valid) simp
  have a: "ahead ?b = full_name True ''foo'' [''B1''] @ '' x''"
    by (simp add: ahead_def gremlinp_parser_buffer_init_def full_name_def)
  have "valid_identifier ''foo''"
    by (simp add: valid_identifier_def is_ident_start_def is_identifier_char_def char_le_iff)
  with a full_identifier_correct [OF v] show ?thesis by blast
qed


end
