(* ===== verification/Libc_Numbers.thy ===== *)
theory Libc_Numbers
  imports Lex_Strings
begin

text \<open>
  The number conversions of the C library that \<open>parser/src/entries/std.c\<close> wraps:
  \<open>strtoll\<close> and \<open>strtoull\<close> with base 0, and \<open>strtod\<close>, as functions of the
  characters they read.  A result carries the flag \<open>errno == ERANGE\<close>.  A double
  is its 64-bit pattern; decimal and hexadecimal inputs are rounded to nearest,
  ties to even.  \<open>ERANGE\<close> is raised on overflow and, as glibc does, on a
  subnormal or zero result that is not exact.
\<close>

section \<open>Digits\<close>

definition digit_value :: "char \<Rightarrow> nat" where
  "digit_value c =
     (if CHR ''0'' \<le> c \<and> c \<le> CHR ''9'' then of_char c - 48
      else if CHR ''a'' \<le> c \<and> c \<le> CHR ''z'' then of_char c - 87
      else if CHR ''A'' \<le> c \<and> c \<le> CHR ''Z'' then of_char c - 55
      else 99)"

definition is_digit_of :: "nat \<Rightarrow> char \<Rightarrow> bool" where
  "is_digit_of base c \<longleftrightarrow> digit_value c < base"

text \<open>The value of a run of digits, most significant first.\<close>

definition digits_value :: "nat \<Rightarrow> string \<Rightarrow> nat" where
  "digits_value base ds = foldl (\<lambda>v c. v * base + digit_value c) 0 ds"

lemma digits_value_Nil [simp]: "digits_value base [] = 0"
  by (simp add: digits_value_def)

lemma digits_value_snoc: "digits_value base (ds @ [c]) = digits_value base ds * base + digit_value c"
  by (simp add: digits_value_def)

lemma digits_value_zero: "digits_value base (CHR ''0'' # ds) = digits_value base ds"
  by (simp add: digits_value_def digit_value_def char_le_iff)

definition is_space_c :: "char \<Rightarrow> bool" where
  "is_space_c c \<longleftrightarrow> c \<in> set [CHR '' '', CHR 0x09, CHR 0x0A, CHR 0x0B, CHR 0x0C, CHR 0x0D]"

text \<open>The sign in front of a number, and what follows it.\<close>

definition split_sign :: "string \<Rightarrow> bool \<times> string" where
  "split_sign s =
     (case s of [] \<Rightarrow> (False, s)
      | c # cs \<Rightarrow> if c = CHR ''-'' then (True, cs) else if c = CHR ''+'' then (False, cs)
                 else (False, s))"

text \<open>Base 0: a prefix \<open>0x\<close> before a hexadecimal digit means 16, another 0 means 8.\<close>

definition split_base :: "string \<Rightarrow> nat \<times> string" where
  "split_base s =
     (case s of
        [] \<Rightarrow> (10, s)
      | c # cs \<Rightarrow>
          if c = CHR ''0'' then
            (case cs of
               x # h # hs \<Rightarrow> if (x = CHR ''x'' \<or> x = CHR ''X'') \<and> is_digit_of 16 h
                            then (16, h # hs) else (8, s)
             | _ \<Rightarrow> (8, s))
          else (10, s))"

definition read_unsigned :: "string \<Rightarrow> nat" where
  "read_unsigned s =
     (case split_base s of (base, ds) \<Rightarrow> digits_value base (takeWhile (is_digit_of base) ds))"

section \<open>Integers\<close>

definition strtoll :: "string \<Rightarrow> int \<times> bool" where
  "strtoll s =
     (case split_sign (dropWhile is_space_c s) of (neg, ds) \<Rightarrow>
        let v = int (read_unsigned ds); w = (if neg then - v else v) in
        if w > 9223372036854775807 then (9223372036854775807, True)
        else if w < - 9223372036854775808 then (- 9223372036854775808, True)
        else (w, False))"

definition strtoull :: "string \<Rightarrow> nat \<times> bool" where
  "strtoull s =
     (case split_sign (dropWhile is_space_c s) of (neg, ds) \<Rightarrow>
        let v = read_unsigned ds in
        if v > 18446744073709551615 then (18446744073709551615, True)
        else (if neg then (18446744073709551616 - v) mod 18446744073709551616 else v, False))"

lemma strtoll_range: "strtoll s = (v, False) \<Longrightarrow> - 9223372036854775808 \<le> v \<and> v \<le> 9223372036854775807"
  by (auto simp: strtoll_def Let_def split: prod.splits if_splits)

lemma strtoull_range: "strtoull s = (v, False) \<Longrightarrow> v < 18446744073709551616"
  by (auto simp: strtoull_def Let_def split: prod.splits if_splits)

section \<open>Doubles\<close>

fun bit_length :: "nat \<Rightarrow> nat" where
  "bit_length n = (if n = 0 then 0 else Suc (bit_length (n div 2)))"

declare bit_length.simps [simp del]

text \<open>\<open>num * 2 ^ k / den\<close>, rounded to nearest, ties to even; \<open>k\<close> may be negative.\<close>

definition scale_up :: "nat \<Rightarrow> int \<Rightarrow> nat" where
  "scale_up n k = (if k \<ge> 0 then n * 2 ^ nat k else n)"

definition round_quotient :: "nat \<Rightarrow> nat \<Rightarrow> int \<Rightarrow> nat \<times> bool" where
  "round_quotient num den k =
     (let n = scale_up num k; d = scale_up den (- k); q = n div d; r = n mod d in
      (if 2 * r > d \<or> (2 * r = d \<and> odd q) then q + 1 else q, r \<noteq> 0))"

text \<open>The exponent \<open>e\<close> with \<open>2 ^ e \<le> num / den < 2 ^ (e + 1)\<close>.\<close>

definition quotient_exponent :: "nat \<Rightarrow> nat \<Rightarrow> int" where
  "quotient_exponent num den =
     (let k = int (bit_length num) - int (bit_length den) in
      if scale_up num (- k) \<ge> scale_up den k then k else k - 1)"

definition double_of_quotient :: "bool \<Rightarrow> nat \<Rightarrow> nat \<Rightarrow> u64 \<times> bool" where
  "double_of_quotient neg num den =
     (let sign = (if neg then 2 ^ 63 else 0 :: nat) in
      if num = 0 then (word_of_nat sign, False)
      else
        (let e = max (quotient_exponent num den) (- 1022);
             (m, inexact) = round_quotient num den (52 - e);
             bits = nat (e + 1022) * 2 ^ 52 + m in
         if bits \<ge> 0x7FF0000000000000 then (word_of_nat (sign + 0x7FF0000000000000), True)
         else (word_of_nat (sign + bits), inexact \<and> bits < 2 ^ 52)))"

text \<open>\<open>mantissa * base ^ ex\<close> as a fraction.\<close>

definition scaled_double :: "bool \<Rightarrow> nat \<Rightarrow> nat \<Rightarrow> int \<Rightarrow> u64 \<times> bool" where
  "scaled_double neg mant base ex =
     (if ex \<ge> 0 then double_of_quotient neg (mant * base ^ nat ex) 1
      else double_of_quotient neg mant (base ^ nat (- ex)))"

text \<open>An exponent part: the letter, a sign, at least one digit; otherwise it is not one.\<close>

definition read_exponent :: "char \<Rightarrow> char \<Rightarrow> string \<Rightarrow> int" where
  "read_exponent lower upper s =
     (case s of [] \<Rightarrow> 0
      | c # cs \<Rightarrow>
          if c = lower \<or> c = upper then
            (case split_sign cs of (neg, ds) \<Rightarrow>
               let v = int (digits_value 10 (takeWhile (is_digit_of 10) ds)) in
               if neg then - v else v)
          else 0)"

text \<open>Digits with an optional point: all digits, and how many stand behind the point.\<close>

definition split_point :: "nat \<Rightarrow> string \<Rightarrow> string \<times> nat \<times> string" where
  "split_point base s =
     (let ip = takeWhile (is_digit_of base) s; r = dropWhile (is_digit_of base) s in
      case r of
        [] \<Rightarrow> (ip, 0, r)
      | c # cs \<Rightarrow>
          if c = CHR ''.'' then
            (let fp = takeWhile (is_digit_of base) cs in
             if ip = [] \<and> fp = [] then ([], 0, s)
             else (ip @ fp, length fp, dropWhile (is_digit_of base) cs))
          else (ip, 0, r))"

definition lower_char :: "char \<Rightarrow> char" where
  "lower_char c = (if CHR ''A'' \<le> c \<and> c \<le> CHR ''Z'' then char_of (of_char c + 32 :: nat) else c)"

definition starts_with_ci :: "string \<Rightarrow> string \<Rightarrow> bool" where
  "starts_with_ci kw s \<longleftrightarrow> map lower_char (take (length kw) s) = kw"

definition pos_infinity :: u64 where "pos_infinity = 0x7FF0000000000000"
definition neg_infinity :: u64 where "neg_infinity = 0xFFF0000000000000"
definition quiet_nan :: u64 where "quiet_nan = 0x7FF8000000000000"

definition strtod :: "string \<Rightarrow> u64 \<times> bool" where
  "strtod s =
     (case split_sign (dropWhile is_space_c s) of (neg, ds) \<Rightarrow>
        if starts_with_ci ''inf'' ds then (if neg then neg_infinity else pos_infinity, False)
        else if starts_with_ci ''nan'' ds
        then (if neg then quiet_nan OR 0x8000000000000000 else quiet_nan, False)
        else if starts_with_ci ''0x'' ds \<and> fst (split_point 16 (drop 2 ds)) \<noteq> [] then
          (case split_point 16 (drop 2 ds) of (hs, f, r) \<Rightarrow>
             scaled_double neg (digits_value 16 hs) 2
               (read_exponent (CHR ''p'') (CHR ''P'') r - 4 * int f))
        else
          (case split_point 10 ds of (hs, f, r) \<Rightarrow>
             if hs = [] then (0, False)
             else scaled_double neg (digits_value 10 hs) 10
               (read_exponent (CHR ''e'') (CHR ''E'') r - int f)))"

end
