(* ===== verification/Lex_Numbers.thy ===== *)
theory Lex_Numbers
  imports Libc_Numbers
begin

text \<open>
  The literals of \<open>parser/src/entries/lexems.c\<close>: integers, floats, booleans, the
  constant that is the longest of them, field and enum numbers, ranges, and the
  map type.  An \<open>int64_t\<close> or \<open>int32_t\<close> result is an integer, a \<open>uint64_t\<close> one a
  natural: the C library conversion and the range checks keep them in range.
\<close>

section \<open>Operations\<close>

definition parse_decimal_digits :: "parser_buffer \<Rightarrow> parser_buffer" where
  "parse_decimal_digits b = scan_while is_digit b"

definition parse_octal_or_hex :: "parser_buffer \<Rightarrow> unit parse_result" where
  "parse_octal_or_hex b =
     (let x = gremlinp_parser_buffer_char b in
      if x = nul then (Inr (), b)
      else if x = CHR ''x'' \<or> x = CHR ''X'' then
        (let b1 = shift 1 b; c = gremlinp_parser_buffer_char b1 in
         if c = nul \<or> \<not> is_hex_digit c then (Inl GREMLINP_ERROR_INVALID_INTEGER_LITERAL, b1)
         else (Inr (), scan_while is_hex_digit b1))
      else (Inr (), scan_while is_octal_digit b))"

definition gremlinp_lexems_parse_integer_literal :: "parser_buffer \<Rightarrow> int parse_result" where
  "gremlinp_lexems_parse_integer_literal b =
     (let start = pb_offset b;
          b1 = (if gremlinp_parser_buffer_char b = CHR ''-'' then shift 1 b else b);
          c = gremlinp_parser_buffer_char b1;
          finish = (\<lambda>b2. let r = strtoll (ahead b) in
            if snd r then (Inl GREMLINP_ERROR_OVERFLOW, rewind start b2) else (Inr (fst r), b2)) in
      if CHR ''1'' \<le> c \<and> c \<le> CHR ''9'' then finish (parse_decimal_digits (shift 1 b1))
      else if c = CHR ''0'' then
        on_ok start (parse_octal_or_hex (shift 1 b1)) (\<lambda>_. finish)
      else (Inl GREMLINP_ERROR_INVALID_INTEGER_LITERAL, rewind start b1))"

definition gremlinp_lexems_parse_uint_literal :: "parser_buffer \<Rightarrow> nat parse_result" where
  "gremlinp_lexems_parse_uint_literal b =
     (let start = pb_offset b;
          c = gremlinp_parser_buffer_char b;
          finish = (\<lambda>b2. let r = strtoull (ahead b) in
            if snd r then (Inl GREMLINP_ERROR_OVERFLOW, rewind start b2) else (Inr (fst r), b2)) in
      if CHR ''1'' \<le> c \<and> c \<le> CHR ''9'' then finish (parse_decimal_digits (shift 1 b))
      else if c = CHR ''0'' then
        on_ok start (parse_octal_or_hex (shift 1 b)) (\<lambda>_. finish)
      else (Inl GREMLINP_ERROR_INVALID_INTEGER_LITERAL, b))"

definition parse_exponent :: "parser_buffer \<Rightarrow> parser_buffer" where
  "parse_exponent b =
     (let c = gremlinp_parser_buffer_char b in
      if c \<noteq> CHR ''e'' \<and> c \<noteq> CHR ''E'' then b
      else
        (let b1 = shift 1 b; sign = gremlinp_parser_buffer_char b1;
             b2 = (if sign = CHR ''+'' \<or> sign = CHR ''-'' then shift 1 b1 else b1) in
         parse_decimal_digits b2))"

definition gremlinp_lexems_parse_float_literal :: "parser_buffer \<Rightarrow> u64 parse_result" where
  "gremlinp_lexems_parse_float_literal b =
     (let start = pb_offset b;
          b1 = (if gremlinp_parser_buffer_char b = CHR ''-'' then shift 1 b else b);
          finish = (\<lambda>b2. let r = strtod (ahead b) in
            if snd r then (Inl GREMLINP_ERROR_OVERFLOW, rewind start b2) else (Inr (fst r), b2)) in
      case gremlinp_parser_buffer_check_str_and_shift b1 ''inf'' of (is_inf, b2) \<Rightarrow>
      if is_inf then
        (Inr (if pb_buf b2 ! start = CHR ''-'' then neg_infinity else pos_infinity), b2)
      else
      (case gremlinp_parser_buffer_check_str_and_shift b2 ''nan'' of (is_nan, b3) \<Rightarrow>
      if is_nan then (Inr quiet_nan, b3)
      else
      (if gremlinp_parser_buffer_char b3 = CHR ''.'' then
         finish (parse_exponent (parse_decimal_digits (shift 1 b3)))
       else
         (let b4 = parse_decimal_digits b3 in
          if pb_offset b4 = pb_offset b3
          then (Inl GREMLINP_ERROR_INVALID_FLOAT, rewind start b4)
          else if gremlinp_parser_buffer_char b4 = CHR ''.''
          then finish (parse_exponent (parse_decimal_digits (shift 1 b4)))
          else finish (parse_exponent b4)))))"

definition gremlinp_lexems_parse_boolean_literal :: "parser_buffer \<Rightarrow> bool parse_result" where
  "gremlinp_lexems_parse_boolean_literal b =
     (case gremlinp_parser_buffer_check_str_and_shift b ''true'' of (is_true, b1) \<Rightarrow>
      if is_true then (Inr True, b1)
      else
      (case gremlinp_parser_buffer_check_str_and_shift b1 ''false'' of (is_false, b2) \<Rightarrow>
      if is_false then (Inr False, b2)
      else (Inl GREMLINP_ERROR_INVALID_BOOLEAN_LITERAL, b2)))"

record gremlinp_map_type =
  mt_key_type :: gremlinp_span
  mt_value_type :: gremlinp_span

definition gremlinp_lexems_parse_map_type :: "parser_buffer \<Rightarrow> gremlinp_map_type parse_result" where
  "gremlinp_lexems_parse_map_type b =
     (let start = pb_offset b; err = GREMLINP_ERROR_INVALID_FIELD_VALUE in
      require start err (gremlinp_parser_buffer_check_str_and_shift b ''map'') (\<lambda>b1.
      require start err (gremlinp_parser_buffer_check_and_shift b1 (CHR ''<'')) (\<lambda>b2.
      on_ok_as start err (gremlinp_lexems_parse_full_identifier (skipped b2)) (\<lambda>key b3.
      require start err (gremlinp_parser_buffer_check_and_shift (skipped b3) (CHR '','')) (\<lambda>b4.
      on_ok_as start err (gremlinp_lexems_parse_full_identifier (skipped b4)) (\<lambda>val b5.
      require start err (gremlinp_parser_buffer_check_and_shift (skipped b5) (CHR ''>'')) (\<lambda>b6.
        (Inr \<lparr>mt_key_type = key, mt_value_type = val\<rparr>, b6))))))))"

datatype gremlinp_const =
    GREMLINP_CONST_FLOAT u64
  | GREMLINP_CONST_INT int
  | GREMLINP_CONST_UINT nat
  | GREMLINP_CONST_IDENTIFIER gremlinp_span
  | GREMLINP_CONST_STRING gremlinp_span

text \<open>The longest of the three numbers, then a name, then a string.\<close>

definition gremlinp_lexems_parse_const_value :: "parser_buffer \<Rightarrow> gremlinp_const parse_result" where
  "gremlinp_lexems_parse_const_value b =
     (let start = pb_offset b;
          (int_res, b1) = gremlinp_lexems_parse_integer_literal b;
          int_end = (if isl int_res then start else pb_offset b1);
          b1' = rewind start b1;
          (uint_res, b2) = gremlinp_lexems_parse_uint_literal b1';
          uint_end = (if isl uint_res then start else pb_offset b2);
          b2' = rewind start b2;
          (float_res, b3) = gremlinp_lexems_parse_float_literal b2';
          float_end = (if isl float_res then start else pb_offset b3);
          b3' = rewind start b3 in
      if int_end \<ge> uint_end \<and> int_end \<ge> float_end \<and> \<not> isl int_res
      then (Inr (GREMLINP_CONST_INT (projr int_res)), rewind int_end b3')
      else if uint_end \<ge> float_end \<and> \<not> isl uint_res
      then (Inr (GREMLINP_CONST_UINT (projr uint_res)), rewind uint_end b3')
      else if \<not> isl float_res
      then (Inr (GREMLINP_CONST_FLOAT (projr float_res)), rewind float_end b3')
      else
        (case gremlinp_lexems_parse_full_identifier b3' of
           (Inr ident, b4) \<Rightarrow> (Inr (GREMLINP_CONST_IDENTIFIER ident), b4)
         | (Inl _, b4) \<Rightarrow>
             (case gremlinp_lexems_parse_string_literal b4 of
                (Inr str, b5) \<Rightarrow> (Inr (GREMLINP_CONST_STRING str), b5)
              | (Inl _, b5) \<Rightarrow> (Inl GREMLINP_ERROR_INVALID_CONST, b5))))"

text \<open>Unlike the parsers above, these two leave the cursor behind a number out of range.\<close>

definition gremlinp_lexems_parse_field_number :: "parser_buffer \<Rightarrow> int parse_result" where
  "gremlinp_lexems_parse_field_number b =
     (case gremlinp_lexems_parse_integer_literal b of
        (Inl e, b1) \<Rightarrow> (Inl e, b1)
      | (Inr v, b1) \<Rightarrow>
          if v < 1 \<or> v > 2147483647 then (Inl GREMLINP_ERROR_INVALID_FIELD_VALUE, b1)
          else (Inr v, b1))"

definition gremlinp_lexems_parse_enum_value_number :: "parser_buffer \<Rightarrow> int parse_result" where
  "gremlinp_lexems_parse_enum_value_number b =
     (case gremlinp_lexems_parse_integer_literal b of
        (Inl e, b1) \<Rightarrow> (Inl e, b1)
      | (Inr v, b1) \<Rightarrow>
          if v < - 2147483648 \<or> v > 2147483647 then (Inl GREMLINP_ERROR_OVERFLOW, b1)
          else (Inr v, b1))"

record gremlinp_range =
  rg_start :: int
  rg_end :: int
  rg_is_max :: bool

definition gremlinp_lexems_parse_range :: "parser_buffer \<Rightarrow> gremlinp_range parse_result" where
  "gremlinp_lexems_parse_range b =
     (let saved = pb_offset b in
      on_ok saved (gremlinp_lexems_parse_integer_literal b) (\<lambda>v b1.
      if v < 0 \<or> v > 2147483647
      then (Inl GREMLINP_ERROR_INVALID_EXTENSIONS_RANGE, rewind saved b1)
      else
        (let before_to = pb_offset b1 in
         case gremlinp_parser_buffer_check_str_with_space_and_shift (skipped b1) ''to'' of
           (has_to, b2) \<Rightarrow>
         if has_to then
           (case gremlinp_parser_buffer_check_str_and_shift b2 ''max'' of (is_max, b3) \<Rightarrow>
            if is_max then (Inr \<lparr>rg_start = v, rg_end = 536870911, rg_is_max = True\<rparr>, b3)
            else
              on_ok saved (gremlinp_lexems_parse_integer_literal b3) (\<lambda>w b4.
              if w < 0 \<or> w > 2147483647 \<or> w < v
              then (Inl GREMLINP_ERROR_INVALID_EXTENSIONS_RANGE, rewind saved b4)
              else (Inr \<lparr>rg_start = v, rg_end = w, rg_is_max = False\<rparr>, b4)))
         else (Inr \<lparr>rg_start = v, rg_end = v, rg_is_max = False\<rparr>, rewind before_to b2))))"

section \<open>Names\<close>

definition gremlinp_lexems_is_valid_identifier :: "string \<Rightarrow> bool" where
  "gremlinp_lexems_is_valid_identifier str =
     (case str of [] \<Rightarrow> False
      | c # cs \<Rightarrow>
          if c \<noteq> CHR ''_'' \<and> \<not> (CHR ''a'' \<le> c \<and> c \<le> CHR ''z'') \<and>
             \<not> (CHR ''A'' \<le> c \<and> c \<le> CHR ''Z'') then False
          else list_all is_identifier_char cs)"

definition BUILTIN_TYPES :: "string list" where
  "BUILTIN_TYPES =
     [''double'', ''float'', ''int32'', ''int64'', ''uint32'', ''uint64'', ''sint32'',
      ''sint64'', ''fixed32'', ''fixed64'', ''sfixed32'', ''sfixed64'', ''bool'', ''string'',
      ''bytes'']"

definition VALID_MAP_KEY_TYPES :: "string list" where
  "VALID_MAP_KEY_TYPES =
     [''int32'', ''int64'', ''uint32'', ''uint64'', ''sint32'', ''sint64'', ''fixed32'',
      ''fixed64'', ''sfixed32'', ''sfixed64'', ''bool'', ''string'']"

definition gremlinp_lexems_is_builtin_type :: "string \<Rightarrow> bool" where
  "gremlinp_lexems_is_builtin_type str \<longleftrightarrow> list_ex (\<lambda>t. str = t) BUILTIN_TYPES"

definition gremlinp_lexems_is_valid_map_key_type :: "string \<Rightarrow> bool" where
  "gremlinp_lexems_is_valid_map_key_type str \<longleftrightarrow> list_ex (\<lambda>t. str = t) VALID_MAP_KEY_TYPES"

section \<open>Contracts\<close>

lemma moved_decimal_digits [parse_rules]: "moved s b0 b \<Longrightarrow> moved s b0 (parse_decimal_digits b)"
  unfolding parse_decimal_digits_def by (rule moved_scan_while)

lemma moved_shift_if [parse_rules]:
  "moved s b0 b \<Longrightarrow> (c \<Longrightarrow> pb_offset b < pb_size b) \<Longrightarrow>
   moved s b0 (if c then shift 1 b else b)"
  using moved_trans [of s b0 b True "shift 1 b"] by (cases s) (auto intro: consumes_advances)

lemma moved_shift [parse_rules]:
  "moved s b0 b \<Longrightarrow> pb_offset b < pb_size b \<Longrightarrow> moved True b0 (shift 1 b)"
  using moved_trans [of s b0 b True "shift 1 b"] by simp

lemma octal_or_hex_yields [parse_steps]: "yields False b (parse_octal_or_hex b)"
proof -
  have "advances b (scan_while is_octal_digit b)" by (rule scan_while_advances)
  moreover have "advances b (shift 1 b) \<and> advances b (scan_while is_hex_digit (shift 1 b))"
    if "gremlinp_parser_buffer_char b \<noteq> nul"
  proof
    show "advances b (shift 1 b)"
      using that char_in_text [OF refl, of b] by (simp add: consumes_advances)
    then show "advances b (scan_while is_hex_digit (shift 1 b))"
      by (rule advances_trans) (rule scan_while_advances)
  qed
  ultimately show ?thesis
    by (auto simp: yields_def parse_octal_or_hex_def Let_def)
qed

text \<open>The conversion at the end of a numeric literal.\<close>

lemma settles_convert [parse_rules]:
  "moved s b0 b \<Longrightarrow> s \<Longrightarrow>
   settles b0 (if c then (Inl e, rewind (pb_offset b0) b) else (Inr x, b))"
  using moved_rewind [of s b0 b] by (cases s) (simp_all add: settles_ok settles_error)

lemma nonzero_in_text:
  "CHR ''1'' \<le> gremlinp_parser_buffer_char b \<Longrightarrow> pb_offset b < pb_size b"
  by (erule contrapos_pp) (simp add: gremlinp_parser_buffer_char_def char_le_iff)

lemma char_eq_in_text:
  "gremlinp_parser_buffer_char b = CHR ''0'' \<Longrightarrow> pb_offset b < pb_size b"
  "gremlinp_parser_buffer_char b = CHR ''-'' \<Longrightarrow> pb_offset b < pb_size b"
  "gremlinp_parser_buffer_char b = CHR ''+'' \<Longrightarrow> pb_offset b < pb_size b"
  "gremlinp_parser_buffer_char b = CHR ''e'' \<Longrightarrow> pb_offset b < pb_size b"
  "gremlinp_parser_buffer_char b = CHR ''E'' \<Longrightarrow> pb_offset b < pb_size b"
  by (erule char_in_text, simp)+

lemma integer_literal_settles: "settles b (gremlinp_lexems_parse_integer_literal b)"
proof -
  define b1 where
    "b1 = (if gremlinp_parser_buffer_char b = CHR ''-'' then shift 1 b else b)"
  have m: "moved False b b1"
    unfolding b1_def by (intro moved_shift_if moved_refl char_eq_in_text)
  have nz: "moved True b (shift 1 b1)" if "pb_offset b1 < pb_size b1"
    using m that by (rule moved_shift)
  show ?thesis
    unfolding gremlinp_lexems_parse_integer_literal_def Let_def b1_def [symmetric]
  proof (intro settles_if)
    assume "CHR ''1'' \<le> gremlinp_parser_buffer_char b1 \<and> gremlinp_parser_buffer_char b1 \<le> CHR ''9''"
    then have "moved True b (shift 1 b1)" using nz nonzero_in_text by blast
    then have "moved True b (parse_decimal_digits (shift 1 b1))"
      by (rule moved_decimal_digits)
    then show "settles b (Inl GREMLINP_ERROR_OVERFLOW,
        rewind (pb_offset b) (parse_decimal_digits (shift 1 b1)))"
      by (rule settles_rewind)
    show "settles b (Inr (fst (strtoll (ahead b))), parse_decimal_digits (shift 1 b1))"
      using \<open>moved True b (parse_decimal_digits (shift 1 b1))\<close> by (simp add: settles_ok)
  next
    assume "gremlinp_parser_buffer_char b1 = CHR ''0''"
    then have "moved True b (shift 1 b1)" using nz char_eq_in_text(1) by blast
    then show "settles b (on_ok (pb_offset b) (parse_octal_or_hex (shift 1 b1))
        (\<lambda>_ b2. if snd (strtoll (ahead b)) then (Inl GREMLINP_ERROR_OVERFLOW, rewind (pb_offset b) b2)
               else (Inr (fst (strtoll (ahead b))), b2)))"
      by - (assumption | rule settles_on_ok parse_steps settles_convert | simp)+
  qed (rule settles_rewind [OF m])
qed

lemma uint_literal_settles: "settles b (gremlinp_lexems_parse_uint_literal b)"
proof -
  let ?c = "gremlinp_parser_buffer_char b"
  have nz: "moved True b (shift 1 b)" if "pb_offset b < pb_size b"
    using moved_refl that by (rule moved_shift)
  show ?thesis
    unfolding gremlinp_lexems_parse_uint_literal_def Let_def
  proof (rule settles_if)
    assume "CHR ''1'' \<le> ?c \<and> ?c \<le> CHR ''9''"
    then have "moved True b (shift 1 b)" using nz nonzero_in_text by blast
    then show "settles b (if snd (strtoull (ahead b))
        then (Inl GREMLINP_ERROR_OVERFLOW, rewind (pb_offset b) (parse_decimal_digits (shift 1 b)))
        else (Inr (fst (strtoull (ahead b))), parse_decimal_digits (shift 1 b)))"
      by - (assumption | rule settles_convert moved_decimal_digits | simp)+
  next
    show "settles b (if ?c = CHR ''0''
        then on_ok (pb_offset b) (parse_octal_or_hex (shift 1 b))
          (\<lambda>_ b2. if snd (strtoull (ahead b))
             then (Inl GREMLINP_ERROR_OVERFLOW, rewind (pb_offset b) b2)
             else (Inr (fst (strtoull (ahead b))), b2))
        else (Inl GREMLINP_ERROR_INVALID_INTEGER_LITERAL, b))"
    proof (rule settles_if)
      assume "?c = CHR ''0''"
      then have "moved True b (shift 1 b)" using nz char_eq_in_text(1) by blast
      then show "settles b (on_ok (pb_offset b) (parse_octal_or_hex (shift 1 b))
          (\<lambda>_ b2. if snd (strtoull (ahead b))
             then (Inl GREMLINP_ERROR_OVERFLOW, rewind (pb_offset b) b2)
             else (Inr (fst (strtoull (ahead b))), b2)))"
        by - (assumption | rule settles_on_ok parse_steps settles_convert | simp)+
    qed (rule settles_fail)
  qed
qed

lemma moved_exponent [parse_rules]: "moved s b0 b \<Longrightarrow> moved s b0 (parse_exponent b)"
proof -
  assume m: "moved s b0 b"
  show ?thesis
  proof (cases "gremlinp_parser_buffer_char b = CHR ''e'' \<or> gremlinp_parser_buffer_char b = CHR ''E''")
    case True
    define b1 where "b1 = shift 1 b"
    have m1: "moved True b0 b1"
      unfolding b1_def using m True char_eq_in_text(4,5) by (blast intro: moved_shift)
    let ?c = "gremlinp_parser_buffer_char b1 = CHR ''+'' \<or> gremlinp_parser_buffer_char b1 = CHR ''-''"
    have "moved True b0 (if ?c then shift 1 b1 else b1)"
      using m1 by (rule moved_shift_if) (blast intro: char_eq_in_text)
    then have "moved True b0 (parse_decimal_digits (if ?c then shift 1 b1 else b1))"
      by (rule moved_decimal_digits)
    then have "moved True b0 (parse_exponent b)"
      using True by (auto simp: parse_exponent_def Let_def b1_def)
    then show ?thesis by (cases s) auto
  next
    case False
    with m show ?thesis by (simp add: parse_exponent_def Let_def)
  qed
qed

lemma moved_offset_less: "moved s b0 b \<Longrightarrow> pb_offset b0 < pb_offset b \<Longrightarrow> moved True b0 b"
  by (cases s) (auto simp: advances_def)

lemma decimal_digits_advances: "advances b (parse_decimal_digits b)"
  unfolding parse_decimal_digits_def by (rule scan_while_advances)

lemma float_literal_settles: "settles b (gremlinp_lexems_parse_float_literal b)"
proof -
  define b1 where
    "b1 = (if gremlinp_parser_buffer_char b = CHR ''-'' then shift 1 b else b)"
  have m: "moved False b b1"
    unfolding b1_def by (intro moved_shift_if moved_refl char_eq_in_text)
  have convert: "settles b (if snd (strtod (ahead b))
      then (Inl GREMLINP_ERROR_OVERFLOW, rewind (pb_offset b) x)
      else (Inr (fst (strtod (ahead b))), x))" if "moved True b x" for x
    using that by (rule settles_convert) simp
  have tail: "settles b (if gremlinp_parser_buffer_char b3 = CHR ''.'' then
         (let x = parse_exponent (parse_decimal_digits (shift 1 b3)) in
          if snd (strtod (ahead b)) then (Inl GREMLINP_ERROR_OVERFLOW, rewind (pb_offset b) x)
          else (Inr (fst (strtod (ahead b))), x))
       else
         (let b4 = parse_decimal_digits b3 in
          if pb_offset b4 = pb_offset b3
          then (Inl GREMLINP_ERROR_INVALID_FLOAT, rewind (pb_offset b) b4)
          else if gremlinp_parser_buffer_char b4 = CHR ''.'' then
            (let x = parse_exponent (parse_decimal_digits (shift 1 b4)) in
             if snd (strtod (ahead b)) then (Inl GREMLINP_ERROR_OVERFLOW, rewind (pb_offset b) x)
             else (Inr (fst (strtod (ahead b))), x))
          else
            (let x = parse_exponent b4 in
             if snd (strtod (ahead b)) then (Inl GREMLINP_ERROR_OVERFLOW, rewind (pb_offset b) x)
             else (Inr (fst (strtod (ahead b))), x))))"
    if m3: "moved False b b3" for b3
  proof (cases "gremlinp_parser_buffer_char b3 = CHR ''.''")
    case True
    then have "moved True b (parse_exponent (parse_decimal_digits (shift 1 b3)))"
      using m3 dot_in_text by (intro moved_exponent moved_decimal_digits moved_shift)
    then show ?thesis using True by (simp add: Let_def convert)
  next
    case False
    define b4 where "b4 = parse_decimal_digits b3"
    have m4: "moved False b b4" unfolding b4_def using m3 by (rule moved_decimal_digits)
    have dot: "moved True b (parse_exponent (parse_decimal_digits (shift 1 b4)))"
      if "gremlinp_parser_buffer_char b4 = CHR ''.''"
      using m4 dot_in_text [OF that] by (intro moved_exponent moved_decimal_digits moved_shift)
    have strict: "moved True b (parse_exponent b4)" if "pb_offset b4 \<noteq> pb_offset b3"
    proof -
      have "consumes b3 b4"
        using that decimal_digits_advances [of b3] by (auto simp: advances_def b4_def)
      then show ?thesis
        using m3 by (intro moved_exponent) (auto intro: advances_consumes_trans)
    qed
    show ?thesis
      unfolding b4_def [symmetric] Let_def if_not_P [OF False]
      by (intro settles_if convert dot strict settles_rewind [OF m4])
  qed
  show ?thesis
  proof (cases "gremlinp_parser_buffer_check_str_and_shift b1 ''inf''")
    case (Pair is_inf b2)
    have "checks b1 (is_inf, b2)" using check_str_checks [of "''inf''" b1] Pair by simp
    then have inf: "is_inf \<Longrightarrow> consumes b b2" and m2: "\<not> is_inf \<Longrightarrow> moved False b b2"
      using m by (auto simp: checks_def intro: advances_consumes_trans)
    show ?thesis
    proof (cases "gremlinp_parser_buffer_check_str_and_shift b2 ''nan''")
      case nan: (Pair is_nan b3)
      have "checks b2 (is_nan, b3)" using check_str_checks [of "''nan''" b2] nan by simp
      then have n: "is_nan \<Longrightarrow> \<not> is_inf \<Longrightarrow> consumes b b3"
        and m3: "\<not> is_nan \<Longrightarrow> \<not> is_inf \<Longrightarrow> moved False b b3"
        using m2 by (auto simp: checks_def intro: advances_consumes_trans)
      show ?thesis
        unfolding gremlinp_lexems_parse_float_literal_def Let_def b1_def [symmetric] Pair
          prod.case nan
        by (intro settles_if tail [unfolded Let_def] m3 inf [THEN settles_ok [THEN iffD2]]
            n [THEN settles_ok [THEN iffD2]])
    qed
  qed
qed

interpretation int_lit: restoring_parser gremlinp_lexems_parse_integer_literal
  by unfold_locales (rule integer_literal_settles)

interpretation uint_lit: restoring_parser gremlinp_lexems_parse_uint_literal
  by unfold_locales (rule uint_literal_settles)

interpretation float_lit: restoring_parser gremlinp_lexems_parse_float_literal
  by unfold_locales (rule float_literal_settles)

lemmas [parse_steps] = int_lit.step uint_lit.step float_lit.step
lemmas [parse_contracts] = int_lit.contract uint_lit.contract float_lit.contract

lemma boolean_literal_settles: "settles b (gremlinp_lexems_parse_boolean_literal b)"
  by (simp add: gremlinp_lexems_parse_boolean_literal_def settles_ok settles_error
      gremlinp_parser_buffer_check_str_and_shift_def shift_consumes)

lemma map_type_settles: "settles b (gremlinp_lexems_parse_map_type b)"
  unfolding gremlinp_lexems_parse_map_type_def Let_def
  by (assumption | rule parse_rules parse_steps moved_refl | simp)+

interpretation bool_lit: restoring_parser gremlinp_lexems_parse_boolean_literal
  by unfold_locales (rule boolean_literal_settles)

interpretation map_ty: restoring_parser gremlinp_lexems_parse_map_type
  by unfold_locales (rule map_type_settles)

lemma yields_rewind: "yields s b r \<Longrightarrow> rewind (pb_offset b) (snd r) = b"
  by (blast intro: rewind_advances yields_advances)

lemma rewind_forward: "consumes b b' \<Longrightarrow> rewind (pb_offset b') b = b'"
  by (auto simp: consumes_def rewind_def)

text \<open>What the three numeric attempts amount to: each starts from the same buffer.\<close>

definition number_end :: "parser_buffer \<Rightarrow> 'a parse_result \<Rightarrow> nat" where
  "number_end b r = (if isl (fst r) then pb_offset b else pb_offset (snd r))"

lemma const_value_choice:
  "gremlinp_lexems_parse_const_value b =
     (let i = gremlinp_lexems_parse_integer_literal b;
          u = gremlinp_lexems_parse_uint_literal b;
          f = gremlinp_lexems_parse_float_literal b in
      if number_end b i \<ge> number_end b u \<and> number_end b i \<ge> number_end b f \<and> \<not> isl (fst i)
      then (Inr (GREMLINP_CONST_INT (projr (fst i))), snd i)
      else if number_end b u \<ge> number_end b f \<and> \<not> isl (fst u)
      then (Inr (GREMLINP_CONST_UINT (projr (fst u))), snd u)
      else if \<not> isl (fst f) then (Inr (GREMLINP_CONST_FLOAT (projr (fst f))), snd f)
      else
        (case gremlinp_lexems_parse_full_identifier b of
           (Inr ident, b4) \<Rightarrow> (Inr (GREMLINP_CONST_IDENTIFIER ident), b4)
         | (Inl _, b4) \<Rightarrow>
             (case gremlinp_lexems_parse_string_literal b4 of
                (Inr str, b5) \<Rightarrow> (Inr (GREMLINP_CONST_STRING str), b5)
              | (Inl _, b5) \<Rightarrow> (Inl GREMLINP_ERROR_INVALID_CONST, b5))))"
proof -
  obtain ir b1 where i: "gremlinp_lexems_parse_integer_literal b = (ir, b1)"
    by (cases "gremlinp_lexems_parse_integer_literal b")
  obtain ur b2 where u: "gremlinp_lexems_parse_uint_literal b = (ur, b2)"
    by (cases "gremlinp_lexems_parse_uint_literal b")
  obtain fr b3 where f: "gremlinp_lexems_parse_float_literal b = (fr, b3)"
    by (cases "gremlinp_lexems_parse_float_literal b")
  have r: "rewind (pb_offset b) b1 = b" "rewind (pb_offset b) b2 = b" "rewind (pb_offset b) b3 = b"
    using yields_rewind [OF int_lit.step [of b]] yields_rewind [OF uint_lit.step [of b]]
      yields_rewind [OF float_lit.step [of b]] by (simp_all add: i u f)
  have e: "rewind (pb_offset b1) b = b1" if "\<not> isl ir"
    using that int_lit.ok_consumes [of b _ b1] i by (cases ir) (auto intro: rewind_forward)
  have e2: "rewind (pb_offset b2) b = b2" if "\<not> isl ur"
    using that uint_lit.ok_consumes [of b _ b2] u by (cases ur) (auto intro: rewind_forward)
  have e3: "rewind (pb_offset b3) b = b3" if "\<not> isl fr"
    using that float_lit.ok_consumes [of b _ b3] f by (cases fr) (auto intro: rewind_forward)
  show ?thesis
    by (simp add: gremlinp_lexems_parse_const_value_def Let_def i u f r e e2 e3 number_end_def
        cong: if_cong)
qed

lemma settles_success: "settles b r \<Longrightarrow> \<not> isl (fst r) \<Longrightarrow> consumes b (snd r)"
  by (cases r rule: result_cases) (simp_all add: settles_ok)

lemma const_value_settles: "settles b (gremlinp_lexems_parse_const_value b)"
proof -
  have name: "settles b (case gremlinp_lexems_parse_full_identifier b of
       (Inr ident, b4) \<Rightarrow> (Inr (GREMLINP_CONST_IDENTIFIER ident), b4)
     | (Inl _, b4) \<Rightarrow>
         (case gremlinp_lexems_parse_string_literal b4 of
            (Inr str, b5) \<Rightarrow> (Inr (GREMLINP_CONST_STRING str), b5)
          | (Inl _, b5) \<Rightarrow> (Inl GREMLINP_ERROR_INVALID_CONST, b5)))"
    using full_identifier_settles [of b] string_literal_settles [of b]
    by (auto simp: settles_ok settles_error split: prod.split sum.split)
  then show ?thesis
    unfolding const_value_choice Let_def
    by (intro settles_if) (simp_all add: settles_ok settles_success integer_literal_settles
        uint_literal_settles float_literal_settles)
qed

interpretation const_val: restoring_parser gremlinp_lexems_parse_const_value
  by unfold_locales (rule const_value_settles)

lemma field_number_yields [parse_steps]: "yields True b (gremlinp_lexems_parse_field_number b)"
  using int_lit.step [of b]
  by (cases "gremlinp_lexems_parse_integer_literal b" rule: result_cases)
     (auto simp: gremlinp_lexems_parse_field_number_def yields_def consumes_advances)

lemma enum_value_number_yields [parse_steps]:
  "yields True b (gremlinp_lexems_parse_enum_value_number b)"
  using int_lit.step [of b]
  by (cases "gremlinp_lexems_parse_integer_literal b" rule: result_cases)
     (auto simp: gremlinp_lexems_parse_enum_value_number_def yields_def consumes_advances)

lemma range_settles: "settles b (gremlinp_lexems_parse_range b)"
proof -
  have tail: "settles b (case gremlinp_parser_buffer_check_str_with_space_and_shift (skipped b1) ''to'' of
           (has_to, b2) \<Rightarrow>
         if has_to then
           (case gremlinp_parser_buffer_check_str_and_shift b2 ''max'' of (is_max, b3) \<Rightarrow>
            if is_max then (Inr \<lparr>rg_start = v, rg_end = 536870911, rg_is_max = True\<rparr>, b3)
            else
              on_ok (pb_offset b) (gremlinp_lexems_parse_integer_literal b3) (\<lambda>w b4.
              if w < 0 \<or> w > 2147483647 \<or> w < v
              then (Inl GREMLINP_ERROR_INVALID_EXTENSIONS_RANGE, rewind (pb_offset b) b4)
              else (Inr \<lparr>rg_start = v, rg_end = w, rg_is_max = False\<rparr>, b4)))
         else (Inr \<lparr>rg_start = v, rg_end = v, rg_is_max = False\<rparr>, rewind (pb_offset b1) b2))"
    if m: "moved True b b1" for b1 v
  proof (rule settles_check)
    show "checks (skipped b1) (gremlinp_parser_buffer_check_str_with_space_and_shift (skipped b1) ''to'')"
      by (rule parse_steps)
    show ms: "moved True b (skipped b1)" using m by (rule moved_skipped)
    fix b2
    assume c: "gremlinp_parser_buffer_check_str_with_space_and_shift (skipped b1) ''to'' = (False, b2)"
    then have "b2 = skipped b1"
      using check_str_space_checks [of "skipped b1" "''to''"] by (simp add: checks_def)
    then have "rewind (pb_offset b1) b2 = b1"
      using skip_spaces_advances [of b1] by (simp add: skipped_def rewind_advances)
    then show "settles b (Inr \<lparr>rg_start = v, rg_end = v, rg_is_max = False\<rparr>, rewind (pb_offset b1) b2)"
      using m by (simp add: settles_ok)
  next
    fix b2
    assume "moved True b b2"
    then show "settles b (case gremlinp_parser_buffer_check_str_and_shift b2 ''max'' of (is_max, b3) \<Rightarrow>
            if is_max then (Inr \<lparr>rg_start = v, rg_end = 536870911, rg_is_max = True\<rparr>, b3)
            else
              on_ok (pb_offset b) (gremlinp_lexems_parse_integer_literal b3) (\<lambda>w b4.
              if w < 0 \<or> w > 2147483647 \<or> w < v
              then (Inl GREMLINP_ERROR_INVALID_EXTENSIONS_RANGE, rewind (pb_offset b) b4)
              else (Inr \<lparr>rg_start = v, rg_end = w, rg_is_max = False\<rparr>, b4)))"
      by - (assumption | rule settles_convert settles_check settles_on_ok settles_return
          parse_steps | simp)+
  qed
  show ?thesis
    unfolding gremlinp_lexems_parse_range_def Let_def
    by (rule settles_on_ok, rule parse_steps, rule moved_refl)
       (auto intro!: settles_rewind [where s = True] tail)
qed

interpretation range: restoring_parser gremlinp_lexems_parse_range
  by unfold_locales (rule range_settles)

lemmas [parse_steps] = bool_lit.step map_ty.step const_val.step range.step
lemmas [parse_contracts] = bool_lit.contract map_ty.contract const_val.contract range.contract

end
