(* ===== verification/Lex_Values.thy ===== *)
theory Lex_Values
  imports Lex_Numbers
begin

text \<open>
  What the numeric literals of \<open>lexems.c\<close> denote: the value of an integer literal
  in each base, the error when it does not fit, the printing of a number and its
  reading back, the choice between the readings of a constant, and the ranges of
  field numbers, enum numbers and number ranges.
\<close>

section \<open>Digits of a base\<close>

lemma digit_classes:
  "is_digit_of 10 = is_digit" "is_digit_of 8 = is_octal_digit"
  "is_digit_of 16 = is_hex_digit"
  by (auto simp: fun_eq_iff is_digit_of_def digit_value_def is_digit_def is_octal_digit_def
      is_hex_digit_def char_le_iff)

lemma digit_of_nul [simp]: "base \<le> 16 \<Longrightarrow> \<not> is_digit_of base nul"
  by (simp add: is_digit_of_def digit_value_def char_le_iff)

text \<open>The three ways to write a natural number; the digits of the octal form may be none.\<close>

definition uint_text :: "nat \<Rightarrow> string \<Rightarrow> string" where
  "uint_text base ds =
     (if base = 16 then ''0x'' @ ds else if base = 8 then ''0'' @ ds else ds)"

definition good_digits :: "nat \<Rightarrow> string \<Rightarrow> bool" where
  "good_digits base ds \<longleftrightarrow> list_all (is_digit_of base) ds \<and>
     (base = 10 \<and> ds \<noteq> [] \<and> hd ds \<noteq> CHR ''0'' \<or> base = 8 \<or> base = 16 \<and> ds \<noteq> [])"

definition stops_digits :: "nat \<Rightarrow> string \<Rightarrow> bool" where
  "stops_digits base r \<longleftrightarrow> r = [] \<or>
     (\<not> is_digit_of base (hd r) \<and> (base = 8 \<longrightarrow> hd r \<noteq> CHR ''x'' \<and> hd r \<noteq> CHR ''X''))"

definition int_text :: "bool \<Rightarrow> nat \<Rightarrow> string \<Rightarrow> string" where
  "int_text neg base ds = (if neg then ''-'' else []) @ uint_text base ds"

lemma takeWhile_digits:
  "list_all p ds \<Longrightarrow> r = [] \<or> \<not> p (hd r) \<Longrightarrow> takeWhile p (ds @ r) = ds"
  by (induction ds) (auto simp: takeWhile_eq_Nil_iff)

lemma first_digit:
  assumes "is_digit_of 10 c" "c \<noteq> CHR ''0''"
  shows "CHR ''1'' \<le> c \<and> c \<le> CHR ''9''"
proof -
  have "(of_char c :: nat) = of_char (CHR ''0'') \<longleftrightarrow> c = CHR ''0''"
    by (rule of_char_eq_iff)
  then have "(of_char c :: nat) \<noteq> 48" using assms(2) by simp
  then show ?thesis
    using assms(1) by (auto simp: digit_classes is_digit_def char_le_iff)
qed

lemma uint_text_cases:
  assumes "good_digits base ds"
  obtains (decimal) c cs where "base = 10" "uint_text base ds = c # cs" "ds = c # cs"
      "CHR ''1'' \<le> c" "c \<le> CHR ''9''" "list_all is_digit cs"
    | (octal) "base = 8" "uint_text base ds = CHR ''0'' # ds" "list_all is_octal_digit ds"
    | (hex) h hs where "base = 16" "uint_text base ds = CHR ''0'' # CHR ''x'' # ds" "ds = h # hs"
        "list_all is_hex_digit ds"
proof -
  have "base = 10 \<or> base = 8 \<or> base = 16" using assms by (auto simp: good_digits_def)
  then consider "base = 10" | "base = 8" | "base = 16" by blast
  then show thesis
  proof cases
    case 1
    then obtain c cs where ds: "ds = c # cs" "c \<noteq> CHR ''0''" "list_all (is_digit_of 10) ds"
      using assms by (cases ds) (auto simp: good_digits_def)
    then show thesis
      using first_digit [of c] 1 by (intro decimal [of c cs]) (auto simp: uint_text_def digit_classes)
  next
    case 2
    then show thesis
      using assms by (intro octal) (auto simp: good_digits_def uint_text_def digit_classes)
  next
    case 3
    then obtain h hs where "ds = h # hs" using assms by (cases ds) (auto simp: good_digits_def)
    then show thesis
      using assms 3 by (intro hex [of h hs]) (auto simp: good_digits_def uint_text_def digit_classes)
  qed
qed

section \<open>The C library reads the literal\<close>

lemma read_unsigned_text:
  assumes "good_digits base ds" and "stops_digits base r"
  shows "read_unsigned (uint_text base ds @ r) = digits_value base ds"
  using assms(1)
proof (cases rule: uint_text_cases)
  case (decimal c cs)
  have "c \<noteq> CHR ''0''" using decimal(4) by (auto simp: char_le_iff)
  moreover have "takeWhile is_digit ((c # cs) @ r) = c # cs"
    using decimal assms(1,2) by (intro takeWhile_digits)
      (auto simp: good_digits_def stops_digits_def digit_classes)
  ultimately show ?thesis
    using decimal by (simp add: read_unsigned_def split_base_def digit_classes)
next
  case octal
  have "split_base ((CHR ''0'' # ds) @ r) = (8, (CHR ''0'' # ds) @ r)"
    using octal assms(2)
    by (cases ds; cases r)
       (auto simp: split_base_def stops_digits_def is_octal_digit_def char_le_iff split: list.split)
  moreover have "takeWhile is_octal_digit ((CHR ''0'' # ds) @ r) = CHR ''0'' # ds"
    using octal assms(2) by (intro takeWhile_digits)
      (auto simp: stops_digits_def digit_classes is_octal_digit_def char_le_iff)
  ultimately show ?thesis
    using octal by (simp add: read_unsigned_def digit_classes digits_value_zero)
next
  case (hex h hs)
  have "takeWhile is_hex_digit ((h # hs) @ r) = h # hs"
    using hex assms(2) by (intro takeWhile_digits)
      (auto simp: stops_digits_def digit_classes)
  then show ?thesis
    using hex by (simp add: read_unsigned_def split_base_def digit_classes)
qed

lemma uint_text_head:
  assumes "good_digits base ds"
  obtains c cs where "uint_text base ds = c # cs" "is_digit c"
  using assms
proof (cases rule: uint_text_cases)
  case (decimal c cs)
  then show thesis
    by (intro that [of c cs]) (auto simp: is_digit_def char_le_iff)
qed (use that in \<open>auto simp: is_digit_def char_le_iff\<close>)

lemma digit_not_sign:
  "is_digit c \<Longrightarrow> c \<noteq> CHR ''-'' \<and> c \<noteq> CHR ''+'' \<and> \<not> is_space_c c"
  by (auto simp: is_digit_def is_space_c_def char_le_iff)

definition int_value :: "bool \<Rightarrow> nat \<Rightarrow> string \<Rightarrow> int" where
  "int_value neg base ds = (if neg then - int (digits_value base ds) else int (digits_value base ds))"

lemma split_sign_text:
  assumes "good_digits base ds"
  shows "split_sign (dropWhile is_space_c (int_text neg base ds @ r)) = (neg, uint_text base ds @ r)"
proof -
  obtain c cs where "uint_text base ds = c # cs" "is_digit c"
    using assms by (rule uint_text_head)
  then show ?thesis
    using digit_not_sign [of c]
    by (auto simp: int_text_def split_sign_def is_space_c_def)
qed

lemma strtoll_text:
  assumes "good_digits base ds" and "stops_digits base r"
  shows "strtoll (int_text neg base ds @ r) =
    (let v = int_value neg base ds in
     if v > 9223372036854775807 then (9223372036854775807, True)
     else if v < - 9223372036854775808 then (- 9223372036854775808, True)
     else (v, False))"
  by (simp add: strtoll_def split_sign_text [OF assms(1)] read_unsigned_text [OF assms]
      int_value_def Let_def)

lemma strtoull_text:
  assumes "good_digits base ds" and "stops_digits base r"
  shows "strtoull (uint_text base ds @ r) =
    (if digits_value base ds > 18446744073709551615 then (18446744073709551615, True)
     else (digits_value base ds, False))"
  using split_sign_text [OF assms(1), of False r]
  by (simp add: strtoull_def int_text_def read_unsigned_text [OF assms] Let_def)

section \<open>The parser reads the literal\<close>

lemma scan_read:
  assumes "valid_buffer b" and "ahead b = ds @ r" and "list_all p ds" and "r = [] \<or> \<not> p (hd r)"
    and "\<not> p nul"
  shows "scan_while p b = shift (length ds) b"
  using assms by (simp add: scan_while_ahead takeWhile_not_nul takeWhile_digits)

text \<open>The part after a first 0.\<close>

lemma octal_or_hex_read:
  assumes "valid_buffer b" and "good_digits base ds" and "base \<noteq> 10" and "stops_digits base r"
    and "CHR ''0'' # ahead b = uint_text base ds @ r"
  shows "parse_octal_or_hex b = (Inr (), shift (length (uint_text base ds) - 1) b)"
  using assms(2)
proof (cases rule: uint_text_cases)
  case octal
  have a: "ahead b = ds @ r" using assms(5) octal by simp
  have x: "gremlinp_parser_buffer_char b \<noteq> CHR ''x'' \<and> gremlinp_parser_buffer_char b \<noteq> CHR ''X''"
    using a octal assms(4)
    by (cases ds; cases r) (auto simp: char_ahead [OF assms(1)] stops_digits_def
        is_octal_digit_def char_le_iff)
  have s: "scan_while is_octal_digit b = shift (length ds) b"
    using octal assms(4) by (intro scan_read [OF assms(1) a])
      (auto simp: stops_digits_def digit_classes)
  moreover have "ds = []" if "gremlinp_parser_buffer_char b = nul"
    using that a octal by (cases ds) (auto simp: char_ahead [OF assms(1)])
  ultimately show ?thesis
    using x octal by (auto simp: parse_octal_or_hex_def Let_def)
next
  case (hex h hs)
  have a: "ahead b = CHR ''x'' # ds @ r" using assms(5) hex by simp
  then have v: "valid_buffer (shift 1 b)" by (intro valid_shift assms(1)) simp
  have a1: "ahead (shift 1 b) = ds @ r" using a by (simp add: ahead_shift)
  have "scan_while is_hex_digit (shift 1 b) = shift (length ds) (shift 1 b)"
    using hex assms(4) by (intro scan_read [OF v a1])
      (auto simp: stops_digits_def digit_classes)
  moreover have "gremlinp_parser_buffer_char (shift 1 b) = h"
    unfolding char_ahead [OF v] a1 using hex by simp
  moreover have "h \<noteq> nul" "is_hex_digit h" using hex by (auto simp: list_all_iff)
  ultimately show ?thesis
    using hex a by (simp add: parse_octal_or_hex_def Let_def char_ahead [OF assms(1)])
qed (use assms in simp)

text \<open>The characters of an unsigned literal, read behind an optional sign.\<close>

lemma unsigned_scan:
  assumes "valid_buffer b" and "good_digits base ds" and "stops_digits base r"
    and "ahead b = uint_text base ds @ r"
  shows "if base = 10
    then CHR ''1'' \<le> gremlinp_parser_buffer_char b \<and> gremlinp_parser_buffer_char b \<le> CHR ''9'' \<and>
      parse_decimal_digits (shift 1 b) = shift (length (uint_text base ds)) b
    else \<not> (CHR ''1'' \<le> gremlinp_parser_buffer_char b) \<and>
      gremlinp_parser_buffer_char b = CHR ''0'' \<and>
      parse_octal_or_hex (shift 1 b) = (Inr (), shift (length (uint_text base ds)) b)"
proof -
  obtain c cs where u: "uint_text base ds = c # cs" using assms(2) by (rule uint_text_head)
  have v: "valid_buffer (shift 1 b)" using assms(4) u by (intro valid_shift assms(1)) simp
  have a1: "ahead (shift 1 b) = cs @ r" using assms(4) u by (simp add: ahead_shift)
  have c: "gremlinp_parser_buffer_char b = c" using assms(4) u by (simp add: char_ahead [OF assms(1)])
  from assms(2) show ?thesis
  proof (cases rule: uint_text_cases)
    case (decimal d ds')
    have "scan_while is_digit (shift 1 b) = shift (length cs) (shift 1 b)"
      using decimal u assms(3) by (intro scan_read [OF v a1])
        (auto simp: stops_digits_def digit_classes)
    then show ?thesis using decimal u c by (simp add: parse_decimal_digits_def)
  next
    case octal
    have "parse_octal_or_hex (shift 1 b) = (Inr (), shift (length (uint_text base ds) - 1) (shift 1 b))"
      using octal u a1 assms(3)
      by (intro octal_or_hex_read [OF v assms(2) _ assms(3)]) simp_all
    moreover have "c = CHR ''0''" using octal u by simp
    ultimately show ?thesis using octal u c by (simp add: char_le_iff)
  next
    case (hex h hs)
    have "parse_octal_or_hex (shift 1 b) = (Inr (), shift (length (uint_text base ds) - 1) (shift 1 b))"
      using hex u a1 assms(3)
      by (intro octal_or_hex_read [OF v assms(2) _ assms(3)]) simp_all
    moreover have "c = CHR ''0''" using hex u by simp
    ultimately show ?thesis using hex u c by (simp add: char_le_iff)
  qed
qed

lemma rewind_id [simp]: "rewind (pb_offset b) b = b"
  by (simp add: rewind_def)

lemma integer_literal_read:
  assumes "valid_buffer b" and "good_digits base ds" and "stops_digits base r"
    and "ahead b = int_text neg base ds @ r"
  shows "gremlinp_lexems_parse_integer_literal b =
    (let v = int_value neg base ds in
     if - 9223372036854775808 \<le> v \<and> v \<le> 9223372036854775807
     then (Inr v, shift (length (int_text neg base ds)) b)
     else (Inl GREMLINP_ERROR_OVERFLOW, b))"
proof -
  define k where "k = (if neg then 1 else 0 :: nat)"
  obtain c cs where u: "uint_text base ds = c # cs" "is_digit c"
    using assms(2) by (rule uint_text_head)
  have a: "ahead (shift k b) = uint_text base ds @ r"
    using assms(4) by (simp add: ahead_shift int_text_def k_def)
  have v: "valid_buffer (shift k b)"
    using assms(4) by (intro valid_shift assms(1)) (simp add: int_text_def k_def)
  have b1: "(if gremlinp_parser_buffer_char b = CHR ''-'' then shift 1 b else b) = shift k b"
    using assms(4) u digit_not_sign [of c]
    by (auto simp: char_ahead [OF assms(1)] int_text_def k_def)
  have n: "length (int_text neg base ds) = k + length (uint_text base ds)"
    by (simp add: int_text_def k_def)
  have st: "strtoll (ahead b) = (let w = int_value neg base ds in
     if w > 9223372036854775807 then (9223372036854775807, True)
     else if w < - 9223372036854775808 then (- 9223372036854775808, True)
     else (w, False))"
    using strtoll_text [OF assms(2,3), of neg] assms(4) by simp
  have fin: "(if snd (strtoll (ahead b))
       then (Inl GREMLINP_ERROR_OVERFLOW, rewind (pb_offset b) (shift (length (int_text neg base ds)) b))
       else (Inr (fst (strtoll (ahead b))), shift (length (int_text neg base ds)) b))
     = (let v = int_value neg base ds in
     if - 9223372036854775808 \<le> v \<and> v \<le> 9223372036854775807
     then (Inr v, shift (length (int_text neg base ds)) b)
     else (Inl GREMLINP_ERROR_OVERFLOW, b))"
    by (auto simp: st Let_def)
  have sc: "parse_decimal_digits (shift 1 (shift k b)) = shift (length (int_text neg base ds)) b"
    "CHR ''1'' \<le> gremlinp_parser_buffer_char (shift k b) \<and>
     gremlinp_parser_buffer_char (shift k b) \<le> CHR ''9''" if "base = 10"
    using unsigned_scan [OF v assms(2,3) a] that n by (simp_all add: add.commute)
  have so: "parse_octal_or_hex (shift 1 (shift k b)) = (Inr (), shift (length (int_text neg base ds)) b)"
    "gremlinp_parser_buffer_char (shift k b) = CHR ''0''"
    "\<not> CHR ''1'' \<le> gremlinp_parser_buffer_char (shift k b)" if "base \<noteq> 10"
    using unsigned_scan [OF v assms(2,3) a] that n by (simp_all add: add.commute)
  show ?thesis
  proof (cases "base = 10")
    case True
    show ?thesis
      unfolding gremlinp_lexems_parse_integer_literal_def b1 Let_def if_P [OF sc(2) [OF True]]
        sc(1) [OF True] using fin unfolding Let_def .
  next
    case False
    then show ?thesis
      unfolding gremlinp_lexems_parse_integer_literal_def b1 Let_def
      using so [OF False] fin by (simp add: Let_def)
  qed
qed

lemma uint_literal_read:
  assumes "valid_buffer b" and "good_digits base ds" and "stops_digits base r"
    and "ahead b = uint_text base ds @ r"
  shows "gremlinp_lexems_parse_uint_literal b =
    (if digits_value base ds \<le> 18446744073709551615
     then (Inr (digits_value base ds), shift (length (uint_text base ds)) b)
     else (Inl GREMLINP_ERROR_OVERFLOW, b))"
  using unsigned_scan [OF assms] strtoull_text [OF assms(2,3)] assms(4)
  by (cases "base = 10") (simp_all add: gremlinp_lexems_parse_uint_literal_def Let_def)

section \<open>Printing a number and reading it\<close>

definition digit_char :: "nat \<Rightarrow> char" where
  "digit_char d = char_of (48 + d)"

fun show_nat :: "nat \<Rightarrow> string" where
  "show_nat n = (if n < 10 then [digit_char n] else show_nat (n div 10) @ [digit_char (n mod 10)])"

declare show_nat.simps [simp del]

definition show_int :: "int \<Rightarrow> string" where
  "show_int v = (if v < 0 then ''-'' @ show_nat (nat (- v)) else show_nat (nat v))"

lemma digit_char_value: "d < 10 \<Longrightarrow> digit_value (digit_char d) = d \<and> is_digit (digit_char d)"
  by (simp add: digit_char_def digit_value_def is_digit_def char_le_iff)

lemma show_nat_value: "digits_value 10 (show_nat n) = n"
proof (induction n rule: show_nat.induct)
  case (1 n)
  then show ?case
    using show_nat.simps [of n] digits_value_snoc [of 10 "show_nat (n div 10)"]
      digit_char_value [of n] digit_char_value [of "n mod 10"] digits_value_snoc [of 10 "[]"]
    by (cases "n < 10") simp_all
qed

lemma show_nat_digits: "list_all is_digit (show_nat n)"
proof (induction n rule: show_nat.induct)
  case (1 n)
  then show ?case
    using show_nat.simps [of n] digit_char_value [of n] digit_char_value [of "n mod 10"]
    by (cases "n < 10") simp_all
qed

lemma show_nat_head: "0 < n \<Longrightarrow> show_nat n \<noteq> [] \<and> hd (show_nat n) \<noteq> CHR ''0''"
proof (induction n rule: show_nat.induct)
  case (1 n)
  show ?case
  proof (cases "n < 10")
    case True
    have "digit_value (digit_char n) = n" using digit_char_value [OF True] by simp
    then have "digit_char n \<noteq> CHR ''0''"
      using "1.prems" by (auto simp: digit_value_def char_le_iff)
    then show ?thesis using True show_nat.simps [of n] by simp
  next
    case False
    then have "0 < n div 10" by simp
    then show ?thesis using 1 False show_nat.simps [of n] by simp
  qed
qed

text \<open>The printed form of an integer is one of the literals: decimal, or octal for 0.\<close>

lemma show_int_text:
  "show_int v = (if v = 0 then int_text False 8 [] else int_text (v < 0) 10 (show_nat (nat \<bar>v\<bar>)))"
proof -
  have "show_nat 0 = ''0''"
    by code_simp
  then show ?thesis
    by (auto simp: show_int_def int_text_def uint_text_def)
qed

lemma integer_literal_show:
  assumes "valid_buffer b" and "ahead b = show_int v @ r"
    and "r = [] \<or> \<not> is_identifier_char (hd r)"
    and "- 9223372036854775808 \<le> v" and "v \<le> 9223372036854775807"
  shows "gremlinp_lexems_parse_integer_literal b = (Inr v, shift (length (show_int v)) b)"
proof -
  have st: "stops_digits 10 r" "stops_digits 8 r"
    using assms(3) by (auto simp: stops_digits_def digit_classes is_identifier_char_def is_digit_def
        is_octal_digit_def char_le_iff)
  show ?thesis
  proof (cases "v = 0")
    case True
    have "good_digits 8 []" by (simp add: good_digits_def)
    from integer_literal_read [OF assms(1) this st(2), of False] show ?thesis
      using True assms(2) by (simp add: show_int_text int_value_def)
  next
    case False
    have "good_digits 10 (show_nat (nat \<bar>v\<bar>))"
      using show_nat_digits show_nat_head [of "nat \<bar>v\<bar>"] False
      by (simp add: good_digits_def digit_classes)
    from integer_literal_read [OF assms(1) this st(1), of "v < 0"] show ?thesis
      using False assms by (simp add: show_int_text int_value_def show_nat_value)
  qed
qed

section \<open>The reading of a constant\<close>

lemma text_at_ahead:
  assumes "valid_buffer b" and "pb_offset b + length kw \<le> pb_size b"
  shows "text_at b kw \<longleftrightarrow> take (length kw) (ahead b) = kw"
  using assms by (auto simp: text_at_def ahead_def min_def)

lemma check_str_ahead:
  assumes "valid_buffer b"
  shows "gremlinp_parser_buffer_check_str_and_shift b kw =
    (if take (length kw) (ahead b) = kw then (True, shift (length kw) b) else (False, b))"
proof (cases "pb_offset b + length kw > pb_size b")
  case True
  then have "length (ahead b) < length kw"
    using assms length_ahead [OF assms] by (auto simp: valid_buffer_def)
  then have "take (length kw) (ahead b) \<noteq> kw" by (metis length_take min.absorb1 nless_le)
  then show ?thesis
    using True by (simp add: gremlinp_parser_buffer_check_str_and_shift_def)
next
  case False
  then show ?thesis
    using text_at_ahead [OF assms, of kw] by (simp add: gremlinp_parser_buffer_check_str_and_shift_def)
qed

definition ends_number :: "string \<Rightarrow> bool" where
  "ends_number r \<longleftrightarrow> r = [] \<or> (\<not> is_identifier_char (hd r) \<and> hd r \<noteq> CHR ''.'')"

lemma ends_number_stops:
  "ends_number r \<Longrightarrow> base = 8 \<or> base = 10 \<or> base = 16 \<Longrightarrow> stops_digits base r"
  by (auto simp: ends_number_def stops_digits_def digit_classes is_identifier_char_def is_digit_def
      is_octal_digit_def is_hex_digit_def char_le_iff)

text \<open>On a plain decimal number the float reading is no longer than the integer one.\<close>

lemma float_literal_plain:
  assumes "valid_buffer b" and "ahead b = (if neg then ''-'' else []) @ ds @ r"
    and "ds \<noteq> []" and "list_all is_digit ds" and "ends_number r"
  shows "number_end b (gremlinp_lexems_parse_float_literal b)
           \<le> pb_offset b + length ((if neg then ''-'' else []) @ ds)"
proof -
  define k where "k = (if neg then 1 else 0 :: nat)"
  obtain c cs where ds: "ds = c # cs" "is_digit c" using assms(3,4) by (cases ds) auto
  have a: "ahead (shift k b) = ds @ r" using assms(2) by (simp add: ahead_shift k_def)
  have v: "valid_buffer (shift k b)" using assms(2) by (intro valid_shift assms(1)) (simp add: k_def)
  have b1: "(if gremlinp_parser_buffer_char b = CHR ''-'' then shift 1 b else b) = shift k b"
    using assms(2) ds digit_not_sign [of c] by (auto simp: char_ahead [OF assms(1)] k_def)
  have ni: "c \<noteq> CHR ''i'' \<and> c \<noteq> CHR ''n'' \<and> c \<noteq> CHR ''.''"
    using ds(2) by (auto simp: is_digit_def char_le_iff)
  have kw: "gremlinp_parser_buffer_check_str_and_shift (shift k b) ''inf'' = (False, shift k b)"
    "gremlinp_parser_buffer_check_str_and_shift (shift k b) ''nan'' = (False, shift k b)"
    using ni a ds by (simp_all add: check_str_ahead [OF v])
  have ch: "gremlinp_parser_buffer_char (shift k b) \<noteq> CHR ''.''"
    using ni a ds by (simp add: char_ahead [OF v])
  have "r = [] \<or> \<not> is_digit (hd r)"
    using assms(5) digit_is_ident_char by (auto simp: ends_number_def)
  then have sc: "parse_decimal_digits (shift k b) = shift (k + length ds) b"
    using scan_read [OF v a assms(4)] by (simp add: parse_decimal_digits_def add.commute)
  have v2: "valid_buffer (shift (k + length ds) b)"
    using assms(2) by (intro valid_shift assms(1)) (simp add: k_def)
  have "ahead (shift (k + length ds) b) = r" using assms(2) by (simp add: ahead_shift k_def)
  then have "gremlinp_parser_buffer_char (shift (k + length ds) b) = (case r of [] \<Rightarrow> nul | x # _ \<Rightarrow> x)"
    by (simp add: char_ahead [OF v2])
  then have r: "gremlinp_parser_buffer_char (shift (k + length ds) b)
      \<notin> {CHR ''.'', CHR ''e'', CHR ''E''}"
    using assms(5) by (auto simp: ends_number_def is_identifier_char_def char_le_iff split: list.splits)
  then have ex: "parse_exponent (shift (k + length ds) b) = shift (k + length ds) b"
    by (simp add: parse_exponent_def Let_def)
  have "gremlinp_lexems_parse_float_literal b =
      (if snd (strtod (ahead b)) then (Inl GREMLINP_ERROR_OVERFLOW, b)
       else (Inr (fst (strtod (ahead b))), shift (k + length ds) b))"
    unfolding gremlinp_lexems_parse_float_literal_def Let_def b1 kw prod.case
    using ch sc ex r ds by (simp add: rewind_def shift_def)
  then show ?thesis by (simp add: number_end_def k_def)
qed

lemma show_int_digits:
  obtains ds where "show_int v = (if v < 0 then ''-'' else []) @ ds" "ds \<noteq> []" "list_all is_digit ds"
proof -
  have "show_nat n \<noteq> []" for n using show_nat.simps [of n] by simp
  then show thesis
    using that [of "show_nat (nat \<bar>v\<bar>)"] show_nat_digits by (simp add: show_int_def)
qed

text \<open>A printed 64-bit integer is read back as that integer.\<close>

lemma const_value_int:
  assumes "valid_buffer b" and "ahead b = show_int v @ r" and "ends_number r"
    and "- 9223372036854775808 \<le> v" and "v \<le> 9223372036854775807"
  shows "gremlinp_lexems_parse_const_value b
    = (Inr (GREMLINP_CONST_INT v), shift (length (show_int v)) b)"
proof -
  obtain ds where ds: "show_int v = (if v < 0 then ''-'' else []) @ ds" "ds \<noteq> []" "list_all is_digit ds"
    by (rule show_int_digits)
  have i: "gremlinp_lexems_parse_integer_literal b = (Inr v, shift (length (show_int v)) b)"
    using assms by (intro integer_literal_show) (auto simp: ends_number_def)
  have f: "number_end b (gremlinp_lexems_parse_float_literal b) \<le> pb_offset b + length (show_int v)"
    using float_literal_plain [OF assms(1), of "v < 0" ds r] ds assms(2,3) by simp
  have u: "number_end b (gremlinp_lexems_parse_uint_literal b) \<le> pb_offset b + length (show_int v)"
  proof (cases "v < 0")
    case True
    then have "gremlinp_parser_buffer_char b = CHR ''-''"
      using assms(2) ds by (simp add: char_ahead [OF assms(1)])
    then show ?thesis
      by (simp add: gremlinp_lexems_parse_uint_literal_def number_end_def char_le_iff)
  next
    case False
    have "show_int v = uint_text (if v = 0 then 8 else 10) (if v = 0 then [] else show_nat (nat v))"
      using show_int_text [of v] False by (simp add: int_text_def)
    moreover have "good_digits (if v = 0 then 8 else 10) (if v = 0 then [] else show_nat (nat v))"
      using show_nat_digits show_nat_head [of "nat v"] False by (simp add: good_digits_def digit_classes)
    moreover have "stops_digits (if v = 0 then 8 else 10) r"
      using assms(3) by (intro ends_number_stops) auto
    ultimately show ?thesis
      using uint_literal_read [OF assms(1)] assms(2) by (simp add: number_end_def)
  qed
  show ?thesis
    using f u by (simp add: const_value_choice i Let_def number_end_def [of b "(Inr v, _)"])
qed

text \<open>An unsigned integer past the signed range fails as an \<open>int64_t\<close> and is read as a \<open>uint64_t\<close>.\<close>

lemma const_value_uint:
  assumes "valid_buffer b" and "ahead b = show_nat n @ r" and "ends_number r"
    and "9223372036854775807 < n" and "n \<le> 18446744073709551615"
  shows "gremlinp_lexems_parse_const_value b
    = (Inr (GREMLINP_CONST_UINT n), shift (length (show_nat n)) b)"
proof -
  have g: "good_digits 10 (show_nat n)" "stops_digits 10 r"
    using show_nat_digits show_nat_head [of n] assms(3,4)
    by (simp_all add: good_digits_def digit_classes ends_number_stops)
  have i: "gremlinp_lexems_parse_integer_literal b = (Inl GREMLINP_ERROR_OVERFLOW, b)"
    using integer_literal_read [OF assms(1) g, of False] assms
    by (simp add: int_text_def uint_text_def int_value_def show_nat_value)
  have u: "gremlinp_lexems_parse_uint_literal b = (Inr n, shift (length (show_nat n)) b)"
    using uint_literal_read [OF assms(1) g] assms by (simp add: uint_text_def show_nat_value)
  have ne: "show_nat n \<noteq> []" using show_nat_head [of n] assms(4) by simp
  have f: "number_end b (gremlinp_lexems_parse_float_literal b) \<le> pb_offset b + length (show_nat n)"
    using float_literal_plain [OF assms(1), of False "show_nat n" r] assms(2,3) ne show_nat_digits
    by simp
  show ?thesis
    using f ne by (simp add: const_value_choice i u Let_def number_end_def [of b "(Inr n, _)"]
        number_end_def [of b "(Inl _, _)"])
qed

section \<open>The properties of the literals\<close>

text \<open>C28. Integer literals have the value they spell: in decimal, octal or hexadecimal, with a
  minus sign for the signed reader, the reader consumes exactly the literal and returns
  its value when it fits into 64 bits, and otherwise reports an overflow with the cursor
  where it was.\<close>
theorem integer_literal_correct:
  assumes "valid_buffer b" and "good_digits base ds" and "stops_digits base r"
    and "ahead b = int_text neg base ds @ r"
  shows "gremlinp_lexems_parse_integer_literal b =
      (if - 9223372036854775808 \<le> int_value neg base ds \<and> int_value neg base ds \<le> 9223372036854775807
       then (Inr (int_value neg base ds), shift (length (int_text neg base ds)) b)
       else (Inl GREMLINP_ERROR_OVERFLOW, b))
    \<and> gremlinp_lexems_parse_uint_literal b =
      (if neg then (Inl GREMLINP_ERROR_INVALID_INTEGER_LITERAL, b)
       else if digits_value base ds \<le> 18446744073709551615
       then (Inr (digits_value base ds), shift (length (uint_text base ds)) b)
       else (Inl GREMLINP_ERROR_OVERFLOW, b))"
proof
  show "gremlinp_lexems_parse_uint_literal b =
      (if neg then (Inl GREMLINP_ERROR_INVALID_INTEGER_LITERAL, b)
       else if digits_value base ds \<le> 18446744073709551615
       then (Inr (digits_value base ds), shift (length (uint_text base ds)) b)
       else (Inl GREMLINP_ERROR_OVERFLOW, b))"
  proof (cases neg)
    case True
    then have "gremlinp_parser_buffer_char b = CHR ''-''"
      using assms(4) by (simp add: char_ahead [OF assms(1)] int_text_def)
    then show ?thesis
      using True by (simp add: gremlinp_lexems_parse_uint_literal_def char_le_iff)
  next
    case False
    then show ?thesis
      using uint_literal_read [OF assms(1-3)] assms(4) by (simp add: int_text_def)
  qed
qed (use integer_literal_read [OF assms] in \<open>simp add: Let_def\<close>)

lemma integer_literal_correct_witness:
  "gremlinp_lexems_parse_integer_literal (\<lparr>pb_buf = ''-0x1F;'', pb_size = 6, pb_offset = 0\<rparr>)
    = (Inr (- 31), \<lparr>pb_buf = ''-0x1F;'', pb_size = 6, pb_offset = 5\<rparr>)"
proof -
  have "valid_buffer \<lparr>pb_buf = ''-0x1F;'', pb_size = 6, pb_offset = 0\<rparr>"
    "good_digits 16 ''1F''" "stops_digits 16 '';''"
    "ahead \<lparr>pb_buf = ''-0x1F;'', pb_size = 6, pb_offset = 0\<rparr> = int_text True 16 ''1F'' @ '';''"
    "int_value True 16 ''1F'' = - 31" "int_text True 16 ''1F'' = ''-0x1F''"
    by code_simp+
  then show ?thesis
    using integer_literal_correct [of "\<lparr>pb_buf = ''-0x1F;'', pb_size = 6, pb_offset = 0\<rparr>"
        16 "''1F''" "'';''" True] by (simp add: shift_def)
qed

text \<open>A printed integer is read back by the reader of constants: as a signed constant when
  it fits into \<open>int64_t\<close>, as an unsigned one when it only fits into \<open>uint64_t\<close>,
  never as a float, whatever follows that cannot continue a number.\<close>
theorem constant_integer_roundtrip:
  assumes "valid_buffer b" and "ahead b = show_int v @ r" and "ends_number r"
    and "- 9223372036854775808 \<le> v" and "v \<le> 18446744073709551615"
  shows "gremlinp_lexems_parse_const_value b =
    (Inr (if v \<le> 9223372036854775807 then GREMLINP_CONST_INT v else GREMLINP_CONST_UINT (nat v)),
     shift (length (show_int v)) b)"
proof (cases "v \<le> 9223372036854775807")
  case False
  then have "show_int v = show_nat (nat v)" by (simp add: show_int_def)
  then show ?thesis using const_value_uint [of b "nat v" r] assms False by simp
qed (use const_value_int [of b v r] assms in simp)

lemma constant_integer_roundtrip_witness:
  "gremlinp_lexems_parse_const_value (\<lparr>pb_buf = ''-42]'', pb_size = 4, pb_offset = 0\<rparr>)
    = (Inr (GREMLINP_CONST_INT (- 42)), \<lparr>pb_buf = ''-42]'', pb_size = 4, pb_offset = 3\<rparr>)"
proof -
  have "valid_buffer \<lparr>pb_buf = ''-42]'', pb_size = 4, pb_offset = 0\<rparr>" "ends_number '']''"
    "ahead \<lparr>pb_buf = ''-42]'', pb_size = 4, pb_offset = 0\<rparr> = show_int (- 42) @ '']''"
    "length (show_int (- 42)) = 3"
    by code_simp+
  then show ?thesis
    using constant_integer_roundtrip [of "\<lparr>pb_buf = ''-42]'', pb_size = 4, pb_offset = 0\<rparr>"
        "- 42" "'']''"] by (simp add: shift_def)
qed



text \<open>A constant that starts with \<open>inf\<close> or \<open>nan\<close> is a float, whatever follows: the
  keyword is taken without a word boundary, so that \<open>info\<close> or \<open>nanos\<close>, names of enum
  values, are read as a float and the rest of the name is left behind.\<close>
theorem constant_inf_nan_prefix:
  assumes "valid_buffer b" and "ahead b = kw @ r" and "kw = ''inf'' \<or> kw = ''nan''"
  shows "gremlinp_lexems_parse_const_value b =
    (Inr (GREMLINP_CONST_FLOAT (if kw = ''inf'' then pos_infinity else quiet_nan)), shift 3 b)"
proof -
  have c: "gremlinp_parser_buffer_char b = (if kw = ''inf'' then CHR ''i'' else CHR ''n'')"
    using assms by (auto simp: char_ahead [OF assms(1)])
  have l: "pb_buf b ! pb_offset b = gremlinp_parser_buffer_char b"
    using c by (auto simp: gremlinp_parser_buffer_char_def split: if_splits)
  have k: "gremlinp_parser_buffer_check_str_and_shift b ''inf'' = (if kw = ''inf'' then (True, shift 3 b) else (False, b))"
    "kw \<noteq> ''inf'' \<Longrightarrow> gremlinp_parser_buffer_check_str_and_shift b ''nan'' = (True, shift 3 b)"
    using assms by (auto simp: check_str_ahead [OF assms(1)])
  have "gremlinp_lexems_parse_integer_literal b = (Inl GREMLINP_ERROR_INVALID_INTEGER_LITERAL, b)"
    "gremlinp_lexems_parse_uint_literal b = (Inl GREMLINP_ERROR_INVALID_INTEGER_LITERAL, b)"
    using c by (auto simp: gremlinp_lexems_parse_integer_literal_def
        gremlinp_lexems_parse_uint_literal_def Let_def char_le_iff)
  moreover have "gremlinp_lexems_parse_float_literal b =
      (Inr (if kw = ''inf'' then pos_infinity else quiet_nan), shift 3 b)"
    using c k l assms(2,3) by (auto simp: gremlinp_lexems_parse_float_literal_def Let_def shift_def)
  ultimately show ?thesis
    by (simp add: const_value_choice Let_def number_end_def)
qed

lemma constant_inf_nan_prefix_witness:
  "gremlinp_lexems_parse_const_value (\<lparr>pb_buf = ''info]'', pb_size = 5, pb_offset = 0\<rparr>)
    = (Inr (GREMLINP_CONST_FLOAT pos_infinity), \<lparr>pb_buf = ''info]'', pb_size = 5, pb_offset = 3\<rparr>)"
proof -
  have "valid_buffer \<lparr>pb_buf = ''info]'', pb_size = 5, pb_offset = 0\<rparr>"
    "ahead \<lparr>pb_buf = ''info]'', pb_size = 5, pb_offset = 0\<rparr> = ''inf'' @ ''o]''"
    by code_simp+
  then show ?thesis
    using constant_inf_nan_prefix [of "\<lparr>pb_buf = ''info]'', pb_size = 5, pb_offset = 0\<rparr>" "''inf''" "''o]''"]
    by (simp add: shift_def)
qed

text \<open>The lexical parsers are transactions on the cursor: a failure leaves the buffer as it
  was, a success moves the cursor forward inside the text and changes nothing else, and
  at the end of the text none of them succeeds.  The callers back out of a failed
  alternative, and terminate, because of this.\<close>
theorem lexemes_restore:
  "settles b (gremlinp_lexems_parse_identifier b) \<and> settles b (gremlinp_lexems_parse_full_identifier b) \<and>
   settles b (gremlinp_lexems_parse_string_literal b) \<and> settles b (gremlinp_lexems_parse_integer_literal b) \<and>
   settles b (gremlinp_lexems_parse_uint_literal b) \<and> settles b (gremlinp_lexems_parse_float_literal b) \<and>
   settles b (gremlinp_lexems_parse_boolean_literal b) \<and> settles b (gremlinp_lexems_parse_const_value b) \<and>
   settles b (gremlinp_lexems_parse_range b) \<and> settles b (gremlinp_lexems_parse_map_type b)"
  using ident.contract full_ident.contract string_lit.contract int_lit.contract uint_lit.contract
    float_lit.contract bool_lit.contract const_val.contract range.contract map_ty.contract by blast

end
