(* ===== verification/Entry_Simple.thy ===== *)
theory Entry_Simple
  imports Lex_Values
begin

text \<open>
  The declarations without a body: \<open>syntax\<close>, \<open>edition\<close>, \<open>package\<close>, \<open>import\<close> and
  \<open>option\<close>, and the option list in brackets.  Each record holds the members of
  the result struct in \<open>gremlinp/entries.h\<close>, with a name or a text as its span;
  the \<open>error\<close> member is the left side of the result.
\<close>

section \<open>Results\<close>

record gremlinp_syntax =
  sy_version :: gremlinp_span
  sy_start :: nat
  sy_end :: nat

record gremlinp_edition =
  ed_edition :: gremlinp_span
  ed_start :: nat
  ed_end :: nat

record gremlinp_package =
  pk_name :: gremlinp_span
  pk_start :: nat
  pk_end :: nat

datatype gremlinp_import_type =
  GREMLINP_IMPORT_TYPE_REGULAR | GREMLINP_IMPORT_TYPE_WEAK | GREMLINP_IMPORT_TYPE_PUBLIC

record gremlinp_import =
  im_path :: gremlinp_span
  im_type :: gremlinp_import_type
  im_start :: nat
  im_end :: nat

record gremlinp_option =
  op_name :: gremlinp_span
  op_value :: gremlinp_const
  op_start :: nat
  op_end :: nat

record gremlinp_option_item =
  oi_name :: gremlinp_span
  oi_value :: gremlinp_const

record gremlinp_option_list =
  ol_start :: nat
  ol_end :: nat
  ol_count :: nat

section \<open>Operations\<close>

abbreviation skip_spaces :: "parser_buffer \<Rightarrow> unit parse_result" where
  "skip_spaces \<equiv> gremlinp_parser_buffer_skip_spaces"

abbreviation check_str :: "parser_buffer \<Rightarrow> string \<Rightarrow> bool \<times> parser_buffer" where
  "check_str \<equiv> gremlinp_parser_buffer_check_str_and_shift"

abbreviation check_char :: "parser_buffer \<Rightarrow> char \<Rightarrow> bool \<times> parser_buffer" where
  "check_char \<equiv> gremlinp_parser_buffer_check_and_shift"

text \<open>The characters of a span, as the code reads them through the start pointer.\<close>

definition span_text :: "parser_buffer \<Rightarrow> gremlinp_span \<Rightarrow> string" where
  "span_text b s = take (span_length s) (drop (span_start s) (pb_buf b))"

definition version_is_valid :: "string \<Rightarrow> bool" where
  "version_is_valid s \<longleftrightarrow> length s = 6 \<and>
     s ! 0 = CHR ''p'' \<and> s ! 1 = CHR ''r'' \<and> s ! 2 = CHR ''o'' \<and>
     s ! 3 = CHR ''t'' \<and> s ! 4 = CHR ''o'' \<and>
     (s ! 5 = CHR ''2'' \<or> s ! 5 = CHR ''3'')"

definition gremlinp_syntax_parse :: "parser_buffer \<Rightarrow> gremlinp_syntax parse_result" where
  "gremlinp_syntax_parse b =
     (let start = pb_offset b in
      require start GREMLINP_ERROR_INVALID_SYNTAX_DEF (check_str b ''syntax'') (\<lambda>b1.
      on_ok start (skip_spaces b1) (\<lambda>_ b2.
      require start GREMLINP_ERROR_ASSIGNMENT_EXPECTED (check_char b2 (CHR ''='')) (\<lambda>b3.
      on_ok start (skip_spaces b3) (\<lambda>_ b4.
      on_ok start (gremlinp_lexems_parse_string_literal b4) (\<lambda>version b5.
      if \<not> version_is_valid (span_text b5 version)
      then (Inl GREMLINP_ERROR_INVALID_SYNTAX_VERSION, rewind start b5)
      else
      on_ok start (skip_spaces b5) (\<lambda>_ b6.
      require start GREMLINP_ERROR_SEMICOLON_EXPECTED (check_char b6 (CHR '';'')) (\<lambda>b7.
        (Inr \<lparr>sy_version = version, sy_start = start, sy_end = pb_offset b7\<rparr>, b7)))))))))"

definition gremlinp_edition_parse :: "parser_buffer \<Rightarrow> gremlinp_edition parse_result" where
  "gremlinp_edition_parse b =
     (let start = pb_offset b in
      require start GREMLINP_ERROR_INVALID_SYNTAX_DEF (check_str b ''edition'') (\<lambda>b1.
      on_ok start (skip_spaces b1) (\<lambda>_ b2.
      require start GREMLINP_ERROR_ASSIGNMENT_EXPECTED (check_char b2 (CHR ''='')) (\<lambda>b3.
      on_ok start (skip_spaces b3) (\<lambda>_ b4.
      on_ok start (gremlinp_lexems_parse_string_literal b4) (\<lambda>edition_val b5.
      if span_length edition_val = 0
      then (Inl GREMLINP_ERROR_INVALID_SYNTAX_DEF, rewind start b5)
      else
      on_ok start (skip_spaces b5) (\<lambda>_ b6.
      require start GREMLINP_ERROR_SEMICOLON_EXPECTED (check_char b6 (CHR '';'')) (\<lambda>b7.
        (Inr \<lparr>ed_edition = edition_val, ed_start = start, ed_end = pb_offset b7\<rparr>, b7)))))))))"

definition gremlinp_package_parse :: "parser_buffer \<Rightarrow> gremlinp_package parse_result" where
  "gremlinp_package_parse b =
     (let start = pb_offset b in
      require start GREMLINP_ERROR_UNEXPECTED_TOKEN (check_str b ''package'') (\<lambda>b1.
      on_ok start (skip_spaces b1) (\<lambda>_ b2.
      on_ok start (gremlinp_lexems_parse_full_identifier b2) (\<lambda>name b3.
      on_ok start (skip_spaces b3) (\<lambda>_ b4.
      require start GREMLINP_ERROR_SEMICOLON_EXPECTED (check_char b4 (CHR '';'')) (\<lambda>b5.
        (Inr \<lparr>pk_name = name, pk_start = start, pk_end = pb_offset b5\<rparr>, b5)))))))"

text \<open>The kind of the import and the spaces behind its keyword.\<close>

definition import_type_parse :: "nat \<Rightarrow> parser_buffer
    \<Rightarrow> (gremlinp_import_type \<Rightarrow> parser_buffer \<Rightarrow> 'a parse_result) \<Rightarrow> 'a parse_result" where
  "import_type_parse start b k =
     (case check_str b ''weak'' of (is_weak, b1) \<Rightarrow>
      if is_weak then on_ok start (skip_spaces b1) (\<lambda>_. k GREMLINP_IMPORT_TYPE_WEAK)
      else
      (case check_str b1 ''public'' of (is_public, b2) \<Rightarrow>
       if is_public then on_ok start (skip_spaces b2) (\<lambda>_. k GREMLINP_IMPORT_TYPE_PUBLIC)
       else k GREMLINP_IMPORT_TYPE_REGULAR b2))"

definition gremlinp_import_parse :: "parser_buffer \<Rightarrow> gremlinp_import parse_result" where
  "gremlinp_import_parse b =
     (let start = pb_offset b in
      require start GREMLINP_ERROR_UNEXPECTED_TOKEN (check_str b ''import'') (\<lambda>b1.
      on_ok start (skip_spaces b1) (\<lambda>_ b2.
      import_type_parse start b2 (\<lambda>type b3.
      on_ok start (gremlinp_lexems_parse_string_literal b3) (\<lambda>path b4.
      if span_length path = 0
      then (Inl GREMLINP_ERROR_IMPORT_PATH_INVALID, rewind start b4)
      else
      on_ok start (skip_spaces b4) (\<lambda>_ b5.
      require start GREMLINP_ERROR_SEMICOLON_EXPECTED (check_char b5 (CHR '';'')) (\<lambda>b6.
        (Inr \<lparr>im_path = path, im_type = type, im_start = start, im_end = pb_offset b6\<rparr>, b6))))))))"

text \<open>A part of an option name: an identifier, or an extension name in parentheses.\<close>

definition parse_option_name_part :: "parser_buffer \<Rightarrow> gremlinp_span parse_result" where
  "parse_option_name_part b =
     (let start = pb_offset b; err = GREMLINP_ERROR_INVALID_OPTION_NAME;
          named = (\<lambda>b'. (Inr \<lparr>span_start = start, span_length = pb_offset b' - start\<rparr>, b')) in
      if gremlinp_parser_buffer_char b = CHR ''('' then
        (let b1 = shift 1 b;
             b2 = (if gremlinp_parser_buffer_char b1 = CHR ''.'' then shift 1 b1 else b1) in
         on_ok_as start err (gremlinp_lexems_parse_full_identifier b2) (\<lambda>_ b3.
         require start err (check_char b3 (CHR '')'')) (\<lambda>b4. named b4)))
      else
        attempt (gremlinp_lexems_parse_identifier b) (\<lambda>_ b1. named b1) (\<lambda>_ b1. (Inl err, b1)))"

section \<open>Contracts\<close>

lemma edition_settles: "settles b (gremlinp_edition_parse b)"
  unfolding gremlinp_edition_parse_def Let_def
  by (assumption | rule parse_rules parse_steps parse_contracts moved_refl | simp)+

lemma syntax_settles: "settles b (gremlinp_syntax_parse b)"
  unfolding gremlinp_syntax_parse_def Let_def
  by (assumption | rule parse_rules parse_steps parse_contracts moved_refl | simp)+

lemma package_settles: "settles b (gremlinp_package_parse b)"
  unfolding gremlinp_package_parse_def Let_def
  by (assumption | rule parse_rules parse_steps parse_contracts moved_refl | simp)+

lemma settles_import_type [parse_rules]:
  assumes "moved s b0 b" and "\<And>t b'. moved s b0 b' \<Longrightarrow> settles b0 (k t b')"
  shows "settles b0 (import_type_parse (pb_offset b0) b k)"
proof -
  have k: "settles b0 (k t b')" if "moved True b0 b'" for t b'
    using that assms(2) by (cases s) (auto intro: consumes_advances)
  show ?thesis
    unfolding import_type_parse_def
    by (assumption | rule assms k parse_rules parse_steps | simp)+
qed

lemma import_settles: "settles b (gremlinp_import_parse b)"
  unfolding gremlinp_import_parse_def Let_def
  by (assumption | rule parse_rules parse_steps parse_contracts moved_refl | simp)+

lemma option_name_part_settles: "settles b (parse_option_name_part b)"
proof -
  have m: "moved True b (shift 1 b)" if "gremlinp_parser_buffer_char b = CHR ''(''"
    using that moved_shift [OF moved_refl] char_in_text [OF that] by simp
  have m2: "moved True b (if gremlinp_parser_buffer_char (shift 1 b) = CHR ''.''
      then shift 1 (shift 1 b) else shift 1 b)" if "gremlinp_parser_buffer_char b = CHR ''(''"
    using m [OF that] by (rule moved_shift_if) (rule dot_in_text)
  show ?thesis
    unfolding parse_option_name_part_def Let_def
    by (assumption | rule m2 | rule parse_rules parse_steps parse_contracts moved_refl | simp)+
qed

interpretation syntax_decl: restoring_parser gremlinp_syntax_parse
  by unfold_locales (rule syntax_settles)

interpretation edition_decl: restoring_parser gremlinp_edition_parse
  by unfold_locales (rule edition_settles)

interpretation package_decl: restoring_parser gremlinp_package_parse
  by unfold_locales (rule package_settles)

interpretation import_decl: restoring_parser gremlinp_import_parse
  by unfold_locales (rule import_settles)

interpretation option_part: restoring_parser parse_option_name_part
  by unfold_locales (rule option_name_part_settles)

lemmas [parse_steps] =
  syntax_decl.step edition_decl.step package_decl.step import_decl.step option_part.step
lemmas [parse_contracts] =
  syntax_decl.contract edition_decl.contract package_decl.contract import_decl.contract option_part.contract

section \<open>Options\<close>

function option_name_loop :: "nat \<Rightarrow> parser_buffer \<Rightarrow> unit parse_result" where
  "option_name_loop start b =
     (if gremlinp_parser_buffer_char b = CHR ''.'' then
        on_ok start (parse_option_name_part (shift 1 b)) (\<lambda>_ b1. option_name_loop start b1)
      else (Inr (), b))"
  by pat_completeness auto
termination
proof (relation "measure (\<lambda>(start, b). remaining b)")
  fix start :: nat and b x b1
  assume "gremlinp_parser_buffer_char b = CHR ''.''"
    and "parse_option_name_part (shift 1 b) = (Inr x, b1)"
  then show "((start, b1), start, b) \<in> measure (\<lambda>(start, b). remaining b)"
    using dot_in_text [of b] shift_shrinks [of b 1] by (auto dest!: option_part.ok_decreases)
qed simp

declare option_name_loop.simps [simp del]

definition gremlinp_option_parse :: "parser_buffer \<Rightarrow> gremlinp_option parse_result" where
  "gremlinp_option_parse b =
     (let start = pb_offset b in
      require start GREMLINP_ERROR_UNEXPECTED_TOKEN (check_str b ''option'') (\<lambda>b1.
      on_ok start (skip_spaces b1) (\<lambda>_ b2.
      let name_start = pb_offset b2 in
      on_ok start (parse_option_name_part b2) (\<lambda>_ b3.
      on_ok start (option_name_loop start b3) (\<lambda>_ b4.
      let name_end = pb_offset b4 in
      on_ok start (skip_spaces b4) (\<lambda>_ b5.
      require start GREMLINP_ERROR_ASSIGNMENT_EXPECTED (check_char b5 (CHR ''='')) (\<lambda>b6.
      on_ok start (skip_spaces b6) (\<lambda>_ b7.
      on_ok start (gremlinp_lexems_parse_const_value b7) (\<lambda>val b8.
      on_ok start (skip_spaces b8) (\<lambda>_ b9.
      require start GREMLINP_ERROR_SEMICOLON_EXPECTED (check_char b9 (CHR '';'')) (\<lambda>b10.
        (Inr \<lparr>op_name = \<lparr>span_start = name_start, span_length = name_end - name_start\<rparr>,
              op_value = val, op_start = start, op_end = pb_offset b10\<rparr>, b10))))))))))))"

definition gremlinp_option_item_parse :: "parser_buffer \<Rightarrow> gremlinp_option_item parse_result" where
  "gremlinp_option_item_parse b =
     (let item_start = pb_offset b in
      attempt (gremlinp_lexems_parse_full_identifier b) (\<lambda>name b1.
        on_ok item_start (skip_spaces b1) (\<lambda>_ b2.
        require item_start GREMLINP_ERROR_ASSIGNMENT_EXPECTED (check_char b2 (CHR ''='')) (\<lambda>b3.
        on_ok item_start (skip_spaces b3) (\<lambda>_ b4.
        on_ok item_start (gremlinp_lexems_parse_const_value b4) (\<lambda>val b5.
          (Inr \<lparr>oi_name = name, oi_value = val\<rparr>, b5))))))
        (\<lambda>_ b1. (Inl GREMLINP_ERROR_INVALID_OPTION_NAME, b1)))"

lemma option_name_loop_ends [loop_rules]: "ends start b (option_name_loop start b)"
proof (induction b rule: ends_induct)
  case (step b)
  have m: "moved True b (shift 1 b)" if "gremlinp_parser_buffer_char b = CHR ''.''"
    using that moved_shift [OF moved_refl] dot_in_text by blast
  note again = ends_again [where f = "option_name_loop start", OF _ step]
  show ?case
    unfolding option_name_loop.simps [of start b]
    by (assumption | rule loop_rules m again parse_steps parse_contracts moved_refl | simp)+
qed

lemma option_settles: "settles b (gremlinp_option_parse b)"
  unfolding gremlinp_option_parse_def Let_def
  by (assumption | rule settles_loop [OF option_name_loop_ends] | rule parse_rules parse_steps parse_contracts moved_refl | simp)+

lemma option_item_settles: "settles b (gremlinp_option_item_parse b)"
  unfolding gremlinp_option_item_parse_def Let_def
  by (assumption | rule parse_rules parse_steps parse_contracts moved_refl | simp)+

interpretation option_decl: restoring_parser gremlinp_option_parse
  by unfold_locales (rule option_settles)

interpretation option_item: restoring_parser gremlinp_option_item_parse
  by unfold_locales (rule option_item_settles)

lemmas [parse_steps] = option_decl.step option_item.step
lemmas [parse_contracts] = option_decl.contract option_item.contract

function option_list_loop :: "nat \<Rightarrow> nat \<Rightarrow> parser_buffer \<Rightarrow> nat parse_result" where
  "option_list_loop start count b =
     on_ok start (gremlinp_option_item_parse b) (\<lambda>_ b1.
     on_ok start (skip_spaces b1) (\<lambda>_ b2.
     (case check_char b2 (CHR '']'') of (closed, b3) \<Rightarrow>
      if closed then (Inr (count + 1), b3)
      else
      require start GREMLINP_ERROR_INVALID_CHARACTER (check_char b3 (CHR '','')) (\<lambda>b4.
      on_ok start (skip_spaces b4) (\<lambda>_ b5.
        option_list_loop start (count + 1) b5)))))"
  by pat_completeness auto
termination
  by (relation "measure (\<lambda>(start, count, b). remaining b)")
     (auto dest!: shrinks option_item.ok_decreases)

declare option_list_loop.simps [simp del]

definition gremlinp_option_list_consume :: "parser_buffer \<Rightarrow> gremlinp_option_list parse_result" where
  "gremlinp_option_list_consume b =
     (let start = pb_offset b in
      require start GREMLINP_ERROR_UNEXPECTED_TOKEN (check_char b (CHR ''['')) (\<lambda>b1.
      on_ok start (skip_spaces b1) (\<lambda>_ b2.
      case check_char b2 (CHR '']'') of (closed, b3) \<Rightarrow>
      if closed then (Inr \<lparr>ol_start = start, ol_end = pb_offset b3, ol_count = 0\<rparr>, b3)
      else
      on_ok start (option_list_loop start 0 b3) (\<lambda>count b4.
        (Inr \<lparr>ol_start = start, ol_end = pb_offset b4, ol_count = count\<rparr>, b4)))))"

lemma option_list_loop_ends [loop_rules]: "ends start b (option_list_loop start count b)"
proof (induction b arbitrary: count rule: ends_induct)
  case (step b)
  note again = ends_again [where f = "option_list_loop start (count + 1)", OF _ step]
  show ?case
    unfolding option_list_loop.simps [of start count b]
    by (assumption | rule loop_rules again parse_steps parse_contracts moved_refl | simp)+
qed

lemma option_list_settles: "settles b (gremlinp_option_list_consume b)"
  unfolding gremlinp_option_list_consume_def Let_def
  by (assumption | rule settles_loop [OF option_list_loop_ends]
      | rule parse_rules parse_steps moved_refl | simp)+

interpretation option_list: restoring_parser gremlinp_option_list_consume
  by unfold_locales (rule option_list_settles)

lemmas [parse_steps] = option_list.step
lemmas [parse_contracts] = option_list.contract

end
