(* ===== verification/Entry_Fields.thy ===== *)
theory Entry_Fields
  imports Entry_Simple
begin

text \<open>
  The declarations that end in a semicolon inside a body: fields of a message, a
  oneof and an enum with their type and options, \<open>reserved\<close> and \<open>extensions\<close>.
\<close>

section \<open>Results\<close>

datatype gremlinp_field_type_kind =
    GREMLINP_FIELD_TYPE_NAMED gremlinp_span
  | GREMLINP_FIELD_TYPE_MAP gremlinp_map_type

record gremlinp_field_type =
  ft_type :: gremlinp_field_type_kind
  ft_start :: nat
  ft_end :: nat

datatype gremlinp_field_label =
    GREMLINP_FIELD_LABEL_NONE
  | GREMLINP_FIELD_LABEL_OPTIONAL
  | GREMLINP_FIELD_LABEL_REQUIRED
  | GREMLINP_FIELD_LABEL_REPEATED

record gremlinp_field =
  fd_label :: gremlinp_field_label
  fd_type :: gremlinp_field_type
  fd_name :: gremlinp_span
  fd_index :: int
  fd_options :: gremlinp_option_list
  fd_start :: nat
  fd_end :: nat

record gremlinp_oneof_field =
  of_type_name :: gremlinp_span
  of_name :: gremlinp_span
  of_index :: int
  of_options :: gremlinp_option_list
  of_start :: nat
  of_end :: nat

record gremlinp_enum_field =
  ef_name :: gremlinp_span
  ef_index :: int
  ef_options :: gremlinp_option_list
  ef_start :: nat
  ef_end :: nat

datatype gremlinp_reserved_kind = GREMLINP_RESERVED_RANGES | GREMLINP_RESERVED_NAMES

record gremlinp_reserved =
  rs_start :: nat
  rs_end :: nat
  rs_count :: nat
  rs_kind :: gremlinp_reserved_kind

record gremlinp_extensions =
  ex_start :: nat
  ex_end :: nat
  ex_count :: nat

section \<open>Fields\<close>

definition gremlinp_field_type_parse :: "parser_buffer \<Rightarrow> gremlinp_field_type parse_result" where
  "gremlinp_field_type_parse b =
     (let start = pb_offset b in
      attempt (gremlinp_lexems_parse_map_type b)
        (\<lambda>map_type b1. (Inr \<lparr>ft_type = GREMLINP_FIELD_TYPE_MAP map_type,
                            ft_start = start, ft_end = pb_offset b1\<rparr>, b1))
        (\<lambda>_ b1.
      attempt (gremlinp_lexems_parse_full_identifier b1)
        (\<lambda>named b2. (Inr \<lparr>ft_type = GREMLINP_FIELD_TYPE_NAMED named,
                         ft_start = start, ft_end = pb_offset b2\<rparr>, b2))
        (\<lambda>_ b2. (Inl GREMLINP_ERROR_INVALID_FIELD_NAME, b2))))"

definition field_label_parse :: "nat \<Rightarrow> parser_buffer
    \<Rightarrow> (gremlinp_field_label \<Rightarrow> parser_buffer \<Rightarrow> 'a parse_result) \<Rightarrow> 'a parse_result" where
  "field_label_parse start b k =
     (case check_str b ''optional'' of (is_optional, b1) \<Rightarrow>
      if is_optional
      then on_ok start (skip_spaces b1) (\<lambda>_. k GREMLINP_FIELD_LABEL_OPTIONAL)
      else
      (case check_str b1 ''required'' of (is_required, b2) \<Rightarrow>
       if is_required
       then on_ok start (skip_spaces b2) (\<lambda>_. k GREMLINP_FIELD_LABEL_REQUIRED)
       else
       (case check_str b2 ''repeated'' of (is_repeated, b3) \<Rightarrow>
        if is_repeated
        then on_ok start (skip_spaces b3) (\<lambda>_. k GREMLINP_FIELD_LABEL_REPEATED)
        else k GREMLINP_FIELD_LABEL_NONE b3)))"

definition empty_opts :: gremlinp_option_list where
  "empty_opts = \<lparr>ol_start = 0, ol_end = 0, ol_count = 0\<rparr>"

definition field_options_parse :: "nat \<Rightarrow> parser_buffer
    \<Rightarrow> (gremlinp_option_list \<Rightarrow> parser_buffer \<Rightarrow> 'a parse_result) \<Rightarrow> 'a parse_result" where
  "field_options_parse start b k =
     (if gremlinp_parser_buffer_char b = CHR ''['' then
        on_ok start (gremlinp_option_list_consume b) (\<lambda>opts b1.
        on_ok start (skip_spaces b1) (\<lambda>_. k opts))
      else k empty_opts b)"

definition gremlinp_field_parse :: "parser_buffer \<Rightarrow> gremlinp_field parse_result" where
  "gremlinp_field_parse b =
     (let start = pb_offset b in
      field_label_parse start b (\<lambda>label b1.
      on_ok start (gremlinp_field_type_parse b1) (\<lambda>type b2.
      on_ok start (skip_spaces b2) (\<lambda>_ b3.
      on_ok start (gremlinp_lexems_parse_identifier b3) (\<lambda>name b4.
      on_ok start (skip_spaces b4) (\<lambda>_ b5.
      require start GREMLINP_ERROR_ASSIGNMENT_EXPECTED (check_char b5 (CHR ''='')) (\<lambda>b6.
      on_ok start (skip_spaces b6) (\<lambda>_ b7.
      on_ok start (gremlinp_lexems_parse_field_number b7) (\<lambda>num b8.
      on_ok start (skip_spaces b8) (\<lambda>_ b9.
      field_options_parse start b9 (\<lambda>opts b10.
      require start GREMLINP_ERROR_SEMICOLON_EXPECTED (check_char b10 (CHR '';'')) (\<lambda>b11.
        (Inr \<lparr>fd_label = label, fd_type = type, fd_name = name, fd_index = num,
              fd_options = opts, fd_start = start, fd_end = pb_offset b11\<rparr>, b11)))))))))))))"

definition gremlinp_oneof_field_parse :: "parser_buffer \<Rightarrow> gremlinp_oneof_field parse_result" where
  "gremlinp_oneof_field_parse b =
     (let start = pb_offset b in
      attempt (gremlinp_lexems_parse_full_identifier b) (\<lambda>type_name b1.
      on_ok start (skip_spaces b1) (\<lambda>_ b2.
      on_ok start (gremlinp_lexems_parse_identifier b2) (\<lambda>name b3.
      on_ok start (skip_spaces b3) (\<lambda>_ b4.
      require start GREMLINP_ERROR_ASSIGNMENT_EXPECTED (check_char b4 (CHR ''='')) (\<lambda>b5.
      on_ok start (skip_spaces b5) (\<lambda>_ b6.
      on_ok start (gremlinp_lexems_parse_field_number b6) (\<lambda>num b7.
      on_ok start (skip_spaces b7) (\<lambda>_ b8.
      field_options_parse start b8 (\<lambda>opts b9.
      require start GREMLINP_ERROR_SEMICOLON_EXPECTED (check_char b9 (CHR '';'')) (\<lambda>b10.
        (Inr \<lparr>of_type_name = type_name, of_name = name, of_index = num,
              of_options = opts, of_start = start, of_end = pb_offset b10\<rparr>, b10)))))))))))
        (\<lambda>e b1. (Inl e, b1)))"

definition gremlinp_enum_field_parse :: "parser_buffer \<Rightarrow> gremlinp_enum_field parse_result" where
  "gremlinp_enum_field_parse b =
     (let start = pb_offset b in
      attempt (gremlinp_lexems_parse_identifier b) (\<lambda>name b1.
      on_ok start (skip_spaces b1) (\<lambda>_ b2.
      require start GREMLINP_ERROR_ASSIGNMENT_EXPECTED (check_char b2 (CHR ''='')) (\<lambda>b3.
      on_ok start (skip_spaces b3) (\<lambda>_ b4.
      on_ok start (gremlinp_lexems_parse_enum_value_number b4) (\<lambda>num b5.
      on_ok start (skip_spaces b5) (\<lambda>_ b6.
      field_options_parse start b6 (\<lambda>opts b7.
      require start GREMLINP_ERROR_SEMICOLON_EXPECTED (check_char b7 (CHR '';'')) (\<lambda>b8.
        (Inr \<lparr>ef_name = name, ef_index = num, ef_options = opts,
              ef_start = start, ef_end = pb_offset b8\<rparr>, b8)))))))))
        (\<lambda>e b1. (Inl e, b1)))"

section \<open>Reserved and extension ranges\<close>

function reserved_names_loop :: "nat \<Rightarrow> nat \<Rightarrow> parser_buffer \<Rightarrow> nat parse_result" where
  "reserved_names_loop start count b =
     (case check_char b (CHR '','') of (comma, b1) \<Rightarrow>
      if comma then
        on_ok start (skip_spaces b1) (\<lambda>_ b2.
        on_ok start (gremlinp_lexems_parse_string_literal b2) (\<lambda>_ b3.
        on_ok start (skip_spaces b3) (\<lambda>_ b4.
          reserved_names_loop start (count + 1) b4)))
      else (Inr count, b1))"
  by pat_completeness auto
termination
  by (relation "measure (\<lambda>(start, count, b). remaining b)")
     (auto dest!: shrinks string_lit.ok_decreases dest: sym)

text \<open>The loop over ranges, of \<open>reserved\<close> and of \<open>extensions\<close>.\<close>

function ranges_loop :: "nat \<Rightarrow> nat \<Rightarrow> parser_buffer \<Rightarrow> nat parse_result" where
  "ranges_loop start count b =
     (case check_char b (CHR '','') of (comma, b1) \<Rightarrow>
      if comma then
        on_ok start (skip_spaces b1) (\<lambda>_ b2.
        on_ok start (gremlinp_lexems_parse_range b2) (\<lambda>_ b3.
        on_ok start (skip_spaces b3) (\<lambda>_ b4.
          ranges_loop start (count + 1) b4)))
      else (Inr count, b1))"
  by pat_completeness auto
termination
  by (relation "measure (\<lambda>(start, count, b). remaining b)")
     (auto dest!: shrinks range.ok_decreases dest: sym)

declare reserved_names_loop.simps [simp del] ranges_loop.simps [simp del]

definition gremlinp_reserved_parse :: "parser_buffer \<Rightarrow> gremlinp_reserved parse_result" where
  "gremlinp_reserved_parse b =
     (let start = pb_offset b;
          finish = (\<lambda>kind count b1.
            require start GREMLINP_ERROR_SEMICOLON_EXPECTED (check_char b1 (CHR '';'')) (\<lambda>b2.
              (Inr \<lparr>rs_start = start, rs_end = pb_offset b2, rs_count = count, rs_kind = kind\<rparr>, b2))) in
      require start GREMLINP_ERROR_UNEXPECTED_TOKEN (check_str b ''reserved'') (\<lambda>b1.
      on_ok start (skip_spaces b1) (\<lambda>_ b2.
      let first = gremlinp_parser_buffer_char b2 in
      if first = CHR 0x22 \<or> first = CHR 0x27 then
        on_ok start (gremlinp_lexems_parse_string_literal b2) (\<lambda>_ b3.
        on_ok start (skip_spaces b3) (\<lambda>_ b4.
        on_ok start (reserved_names_loop start 1 b4) (finish GREMLINP_RESERVED_NAMES)))
      else
        on_ok start (gremlinp_lexems_parse_range b2) (\<lambda>_ b3.
        on_ok start (skip_spaces b3) (\<lambda>_ b4.
        on_ok start (ranges_loop start 1 b4) (finish GREMLINP_RESERVED_RANGES))))))"

definition gremlinp_extensions_parse :: "parser_buffer \<Rightarrow> gremlinp_extensions parse_result" where
  "gremlinp_extensions_parse b =
     (let start = pb_offset b in
      require start GREMLINP_ERROR_UNEXPECTED_TOKEN (check_str b ''extensions'') (\<lambda>b1.
      on_ok start (skip_spaces b1) (\<lambda>_ b2.
      on_ok start (gremlinp_lexems_parse_range b2) (\<lambda>_ b3.
      on_ok start (skip_spaces b3) (\<lambda>_ b4.
      on_ok start (ranges_loop start 1 b4) (\<lambda>count b5.
      require start GREMLINP_ERROR_SEMICOLON_EXPECTED (check_char b5 (CHR '';'')) (\<lambda>b6.
        (Inr \<lparr>ex_start = start, ex_end = pb_offset b6, ex_count = count\<rparr>, b6))))))))"

section \<open>Contracts\<close>

lemma settles_field_label [parse_rules]:
  assumes "moved s b0 b" and "\<And>l b'. moved s b0 b' \<Longrightarrow> settles b0 (k l b')"
  shows "settles b0 (field_label_parse (pb_offset b0) b k)"
proof -
  have k: "settles b0 (k l b')" if "moved True b0 b'" for l b'
    using that assms(2) by (cases s) (auto intro: consumes_advances)
  show ?thesis
    unfolding field_label_parse_def
    by (assumption | rule assms k parse_rules parse_steps | simp)+
qed

lemma settles_field_options [parse_rules]:
  assumes "moved s b0 b" and "\<And>l b'. moved s b0 b' \<Longrightarrow> settles b0 (k l b')"
  shows "settles b0 (field_options_parse (pb_offset b0) b k)"
proof -
  have k: "settles b0 (k l b')" if "moved True b0 b'" for l b'
    using that assms(2) by (cases s) (auto intro: consumes_advances)
  show ?thesis
    unfolding field_options_parse_def
    by (assumption | rule assms k parse_rules parse_steps | simp)+
qed

lemma field_type_settles: "settles b (gremlinp_field_type_parse b)"
  unfolding gremlinp_field_type_parse_def Let_def
  by (assumption | rule parse_rules parse_steps parse_contracts moved_refl | simp)+

interpretation field_type: restoring_parser gremlinp_field_type_parse
  by unfold_locales (rule field_type_settles)

lemmas [parse_steps] = field_type.step
lemmas [parse_contracts] = field_type.contract

lemma field_settles: "settles b (gremlinp_field_parse b)"
  unfolding gremlinp_field_parse_def Let_def
  by (assumption | rule parse_rules parse_steps parse_contracts moved_refl | simp)+

lemma oneof_field_settles: "settles b (gremlinp_oneof_field_parse b)"
  unfolding gremlinp_oneof_field_parse_def Let_def
  by (assumption | rule parse_rules parse_steps parse_contracts moved_refl | simp)+

lemma enum_field_settles: "settles b (gremlinp_enum_field_parse b)"
  unfolding gremlinp_enum_field_parse_def Let_def
  by (assumption | rule parse_rules parse_steps parse_contracts moved_refl | simp)+

lemma reserved_names_loop_ends: "ends start b (reserved_names_loop start count b)"
proof (induction b arbitrary: count rule: ends_induct)
  case (step b)
  note again = ends_again [where f = "reserved_names_loop start (count + 1)", OF _ step]
  show ?case
    unfolding reserved_names_loop.simps [of start count b]
    by (assumption | rule loop_rules again parse_steps parse_contracts moved_refl | simp)+
qed

lemma ranges_loop_ends: "ends start b (ranges_loop start count b)"
proof (induction b arbitrary: count rule: ends_induct)
  case (step b)
  note again = ends_again [where f = "ranges_loop start (count + 1)", OF _ step]
  show ?case
    unfolding ranges_loop.simps [of start count b]
    by (assumption | rule loop_rules again parse_steps parse_contracts moved_refl | simp)+
qed

lemma reserved_settles: "settles b (gremlinp_reserved_parse b)"
  unfolding gremlinp_reserved_parse_def Let_def
  by (assumption
      | rule settles_loop [OF reserved_names_loop_ends] settles_loop [OF ranges_loop_ends]
      | rule parse_rules parse_steps moved_refl | simp)+

lemma extensions_settles: "settles b (gremlinp_extensions_parse b)"
  unfolding gremlinp_extensions_parse_def Let_def
  by (assumption | rule settles_loop [OF ranges_loop_ends]
      | rule parse_rules parse_steps moved_refl | simp)+

interpretation field: restoring_parser gremlinp_field_parse
  by unfold_locales (rule field_settles)

interpretation oneof_field: restoring_parser gremlinp_oneof_field_parse
  by unfold_locales (rule oneof_field_settles)

interpretation enum_field: restoring_parser gremlinp_enum_field_parse
  by unfold_locales (rule enum_field_settles)

interpretation reserved: restoring_parser gremlinp_reserved_parse
  by unfold_locales (rule reserved_settles)

interpretation extensions: restoring_parser gremlinp_extensions_parse
  by unfold_locales (rule extensions_settles)

lemmas [parse_steps] =
  field.step oneof_field.step enum_field.step reserved.step extensions.step
lemmas [parse_contracts] =
  field.contract oneof_field.contract enum_field.contract reserved.contract extensions.contract

end
