(* ===== verification/Entry_Bodies.thy ===== *)
theory Entry_Bodies
  imports Entry_Fields
begin

text \<open>
  The declarations with a body in braces: \<open>enum\<close>, \<open>oneof\<close> and \<open>extend\<close> parse
  their entries, \<open>service\<close> and \<open>group\<close> skip over them.  The iterators return the
  entries of an enum or oneof body one by one.  A body loop returns the offset of
  the closing brace and the buffer behind it.
\<close>

section \<open>Results\<close>

record gremlinp_enum =
  em_name :: gremlinp_span
  em_body_start :: nat
  em_body_end :: nat
  em_start :: nat
  em_end :: nat

record gremlinp_oneof =
  oo_name :: gremlinp_span
  oo_body_start :: nat
  oo_body_end :: nat
  oo_start :: nat
  oo_end :: nat

record gremlinp_extend =
  et_base_type :: gremlinp_span
  et_body_start :: nat
  et_body_end :: nat
  et_start :: nat
  et_end :: nat

record gremlinp_service =
  sv_start :: nat
  sv_end :: nat

record gremlinp_group =
  gr_start :: nat
  gr_end :: nat

text \<open>The tagged union of an entry result, with the span of the entry.\<close>

record 'a gremlinp_entry_result =
  en_entry :: 'a
  en_start :: nat
  en_end :: nat

datatype gremlinp_enum_entry =
    GREMLINP_ENUM_ENTRY_FIELD gremlinp_enum_field
  | GREMLINP_ENUM_ENTRY_OPTION gremlinp_option
  | GREMLINP_ENUM_ENTRY_RESERVED gremlinp_reserved

datatype gremlinp_oneof_entry =
    GREMLINP_ONEOF_ENTRY_FIELD gremlinp_oneof_field
  | GREMLINP_ONEOF_ENTRY_OPTION gremlinp_option

section \<open>Body loops\<close>

lemma semicolon_shrinks [shrinks]:
  "gremlinp_parser_buffer_char b = CHR '';'' \<Longrightarrow> remaining (shift (Suc 0) b) < remaining b"
  "CHR '';'' = gremlinp_parser_buffer_char b \<Longrightarrow> remaining (shift (Suc 0) b) < remaining b"
proof -
  show less: "remaining (shift (Suc 0) b) < remaining b" if "gremlinp_parser_buffer_char b = CHR '';''"
    using char_in_text [OF that] shift_shrinks [of b 1] by simp
  show "remaining (shift (Suc 0) b) < remaining b" if "CHR '';'' = gremlinp_parser_buffer_char b"
    using that [symmetric] by (rule less)
qed

function enum_body_loop :: "nat \<Rightarrow> parser_buffer \<Rightarrow> nat parse_result" where
  "enum_body_loop start b =
     on_ok start (skip_spaces b) (\<lambda>_ b1.
     let c = gremlinp_parser_buffer_char b1 in
     if c = CHR ''}'' then (Inr (pb_offset b1), shift 1 b1)
     else if c = nul then (Inl GREMLINP_ERROR_UNEXPECTED_EOF, rewind start b1)
     else if c = CHR '';'' then enum_body_loop start (shift 1 b1)
     else
       attempt (gremlinp_option_parse b1) (\<lambda>_ b2. enum_body_loop start b2) (\<lambda>_ b2.
       attempt (gremlinp_reserved_parse b2) (\<lambda>_ b3. enum_body_loop start b3) (\<lambda>_ b3.
       attempt (gremlinp_enum_field_parse b3) (\<lambda>_ b4. enum_body_loop start b4) (\<lambda>_ b4.
         (Inl GREMLINP_ERROR_INVALID_ENUM_DEF, rewind start b4)))))"
  by pat_completeness auto

termination
  by (relation "measure (\<lambda>(start, b). remaining b)")
     (auto dest!: shrinks 
        option_decl.ok_decreases reserved.ok_decreases enum_field.ok_decreases
        option_decl.error_restores reserved.error_restores)

declare enum_body_loop.simps [simp del]

definition gremlinp_enum_parse :: "parser_buffer \<Rightarrow> gremlinp_enum parse_result" where
  "gremlinp_enum_parse b =
     (let start = pb_offset b in
      require start GREMLINP_ERROR_UNEXPECTED_TOKEN (check_str b ''enum'') (\<lambda>b1.
      on_ok start (skip_spaces b1) (\<lambda>_ b2.
      on_ok start (gremlinp_lexems_parse_identifier b2) (\<lambda>name b3.
      on_ok start (skip_spaces b3) (\<lambda>_ b4.
      require start GREMLINP_ERROR_BRACKET_EXPECTED (check_char b4 (CHR ''{'')) (\<lambda>b5.
      let body_start = pb_offset b5 in
      on_ok start (enum_body_loop start b5) (\<lambda>body_end b6.
        (Inr \<lparr>em_name = name, em_body_start = body_start, em_body_end = body_end,
              em_start = start, em_end = pb_offset b6\<rparr>, b6))))))))"

function oneof_body_loop :: "nat \<Rightarrow> parser_buffer \<Rightarrow> nat parse_result" where
  "oneof_body_loop start b =
     on_ok start (skip_spaces b) (\<lambda>_ b1.
     let c = gremlinp_parser_buffer_char b1 in
     if c = CHR ''}'' then (Inr (pb_offset b1), shift 1 b1)
     else if c = nul then (Inl GREMLINP_ERROR_UNEXPECTED_EOF, rewind start b1)
     else if c = CHR '';'' then oneof_body_loop start (shift 1 b1)
     else
       attempt (gremlinp_option_parse b1) (\<lambda>_ b2. oneof_body_loop start b2) (\<lambda>_ b2.
       attempt (gremlinp_oneof_field_parse b2) (\<lambda>_ b3. oneof_body_loop start b3) (\<lambda>_ b3.
         (Inl GREMLINP_ERROR_INVALID_ONEOF_ELEMENT, rewind start b3))))"
  by pat_completeness auto
termination
  by (relation "measure (\<lambda>(start, b). remaining b)")
     (auto dest!: shrinks option_decl.ok_decreases oneof_field.ok_decreases option_decl.error_restores)

declare oneof_body_loop.simps [simp del]

definition gremlinp_oneof_parse :: "parser_buffer \<Rightarrow> gremlinp_oneof parse_result" where
  "gremlinp_oneof_parse b =
     (let start = pb_offset b in
      require start GREMLINP_ERROR_UNEXPECTED_TOKEN (check_str b ''oneof'') (\<lambda>b1.
      on_ok start (skip_spaces b1) (\<lambda>_ b2.
      on_ok start (gremlinp_lexems_parse_identifier b2) (\<lambda>name b3.
      on_ok start (skip_spaces b3) (\<lambda>_ b4.
      require start GREMLINP_ERROR_BRACKET_EXPECTED (check_char b4 (CHR ''{'')) (\<lambda>b5.
      let body_start = pb_offset b5 in
      on_ok start (oneof_body_loop start b5) (\<lambda>body_end b6.
        (Inr \<lparr>oo_name = name, oo_body_start = body_start, oo_body_end = body_end,
              oo_start = start, oo_end = pb_offset b6\<rparr>, b6))))))))"

function extend_body_loop :: "nat \<Rightarrow> parser_buffer \<Rightarrow> nat parse_result" where
  "extend_body_loop start b =
     on_ok start (skip_spaces b) (\<lambda>_ b1.
     let c = gremlinp_parser_buffer_char b1 in
     if c = CHR ''}'' then (Inr (pb_offset b1), shift 1 b1)
     else if c = nul then (Inl GREMLINP_ERROR_UNEXPECTED_EOF, rewind start b1)
     else if c = CHR '';'' then extend_body_loop start (shift 1 b1)
     else
       attempt (gremlinp_field_parse b1) (\<lambda>_ b2. extend_body_loop start b2) (\<lambda>e b2.
         (Inl e, rewind start b2)))"
  by pat_completeness auto
termination
  by (relation "measure (\<lambda>(start, b). remaining b)")
     (auto dest!: shrinks field.ok_decreases)

declare extend_body_loop.simps [simp del]

definition gremlinp_extend_parse :: "parser_buffer \<Rightarrow> gremlinp_extend parse_result" where
  "gremlinp_extend_parse b =
     (let start = pb_offset b in
      require start GREMLINP_ERROR_UNEXPECTED_TOKEN (check_str b ''extend'') (\<lambda>b1.
      on_ok start (skip_spaces b1) (\<lambda>_ b2.
      on_ok start (gremlinp_lexems_parse_full_identifier b2) (\<lambda>base b3.
      on_ok start (skip_spaces b3) (\<lambda>_ b4.
      require start GREMLINP_ERROR_BRACKET_EXPECTED (check_char b4 (CHR ''{'')) (\<lambda>b5.
      let body_start = pb_offset b5 in
      on_ok start (extend_body_loop start b5) (\<lambda>body_end b6.
        (Inr \<lparr>et_base_type = base, et_body_start = body_start, et_body_end = body_end,
              et_start = start, et_end = pb_offset b6\<rparr>, b6))))))))"

section \<open>Skipped bodies\<close>

text \<open>Inside quotes: up to the closing one, over escaped characters.\<close>

function skip_quoted :: "char \<Rightarrow> parser_buffer \<Rightarrow> unit parse_result" where
  "skip_quoted c b =
     (let sc = gremlinp_parser_buffer_char b in
      if sc = nul then (Inl GREMLINP_ERROR_UNEXPECTED_EOF, b)
      else
        let b1 = shift 1 b in
        if sc = c then (Inr (), b1)
        else if sc = CHR 0x5C \<and> gremlinp_parser_buffer_char b1 \<noteq> nul
        then skip_quoted c (shift 1 b1)
        else skip_quoted c b1)"
  by pat_completeness auto
termination
  by (relation "measure (\<lambda>(c, b). remaining b)")
     (auto simp: remaining_def gremlinp_parser_buffer_char_def split: if_splits)

declare skip_quoted.simps [simp del]

text \<open>The brace counter of \<open>service\<close> and \<open>group\<close>.  \<open>depth\<close> is a \<open>size_t\<close>, at most the
  number of characters of the text, so that it does not wrap.\<close>

lemma skip_quoted_advances: "advances b (snd (skip_quoted c b))"
proof (induction b rule: measure_induct_rule [of remaining])
  case (less b)
  have s1: "consumes b (shift 1 b)" if "gremlinp_parser_buffer_char b \<noteq> nul"
    using char_in_text [OF refl that] by simp
  have s2: "consumes b (shift 2 b)" if "gremlinp_parser_buffer_char b \<noteq> nul"
    "gremlinp_parser_buffer_char (shift 1 b) \<noteq> nul"
    using char_in_text [OF refl that(2)] by (simp add: consumes_def)
  have "advances b (snd (skip_quoted c b'))" if "consumes b b'" for b'
    using less consumes_remaining [OF that] that consumes_advances_trans by blast
  then show ?case
    using s1 s2 skip_quoted.simps [of c b] by (auto simp: Let_def consumes_advances numeral_2_eq_2)
qed

lemma skip_quoted_shrinks [shrinks]: "skip_quoted c b = (r, b') \<Longrightarrow> remaining b' \<le> remaining b"
  using skip_quoted_advances [of b c] by (auto intro: advances_remaining)

lemma char_shrinks:
  "gremlinp_parser_buffer_char b \<noteq> nul \<Longrightarrow> remaining (shift (Suc 0) b) < remaining b"
  using char_in_text [OF refl, of b] shift_shrinks [of b 1] by simp

function skip_block_loop :: "nat \<Rightarrow> nat \<Rightarrow> parser_buffer \<Rightarrow> unit parse_result" where
  "skip_block_loop start depth b =
     (if depth = 0 then (Inr (), b)
      else
        let c = gremlinp_parser_buffer_char b in
        if c = nul then (Inl GREMLINP_ERROR_UNEXPECTED_EOF, rewind start b)
        else
          let b1 = shift 1 b in
          if c = CHR ''{'' then skip_block_loop start (depth + 1) b1
          else if c = CHR ''}'' then skip_block_loop start (depth - 1) b1
          else if c = CHR 0x22 \<or> c = CHR 0x27 then
            on_ok start (skip_quoted c b1) (\<lambda>_ b2. skip_block_loop start depth b2)
          else skip_block_loop start depth b1)"
  by pat_completeness auto

termination
  by (relation "measure (\<lambda>(start, depth, b). remaining b)")
     (auto dest!: shrinks char_shrinks)

declare skip_block_loop.simps [simp del]

definition gremlinp_service_parse :: "parser_buffer \<Rightarrow> gremlinp_service parse_result" where
  "gremlinp_service_parse b =
     (let start = pb_offset b in
      require start GREMLINP_ERROR_UNEXPECTED_TOKEN (check_str b ''service'') (\<lambda>b1.
      on_ok start (skip_spaces b1) (\<lambda>_ b2.
      on_ok start (gremlinp_lexems_parse_identifier b2) (\<lambda>_ b3.
      on_ok start (skip_spaces b3) (\<lambda>_ b4.
      require start GREMLINP_ERROR_BRACKET_EXPECTED (check_char b4 (CHR ''{'')) (\<lambda>b5.
      on_ok start (skip_block_loop start 1 b5) (\<lambda>_ b6.
        (Inr \<lparr>sv_start = start, sv_end = pb_offset b6\<rparr>, b6))))))))"

text \<open>The three label tests follow each other: a group may carry several labels.\<close>

definition gremlinp_group_parse :: "parser_buffer \<Rightarrow> gremlinp_group parse_result" where
  "gremlinp_group_parse b =
     (let start = pb_offset b;
          b1 = snd (check_str b ''optional'');
          b2 = snd (check_str b1 ''required'');
          b3 = snd (check_str b2 ''repeated'') in
      on_ok start (skip_spaces b3) (\<lambda>_ b4.
      require start GREMLINP_ERROR_UNEXPECTED_TOKEN (check_str b4 ''group'') (\<lambda>b5.
      on_ok start (skip_spaces b5) (\<lambda>_ b6.
      on_ok start (gremlinp_lexems_parse_identifier b6) (\<lambda>_ b7.
      on_ok start (skip_spaces b7) (\<lambda>_ b8.
      require start GREMLINP_ERROR_ASSIGNMENT_EXPECTED (check_char b8 (CHR ''='')) (\<lambda>b9.
      on_ok start (skip_spaces b9) (\<lambda>_ b10.
      on_ok start (gremlinp_lexems_parse_integer_literal b10) (\<lambda>_ b11.
      on_ok start (skip_spaces b11) (\<lambda>_ b12.
      require start GREMLINP_ERROR_BRACKET_EXPECTED (check_char b12 (CHR ''{'')) (\<lambda>b13.
      on_ok start (skip_block_loop start 1 b13) (\<lambda>_ b14.
        (Inr \<lparr>gr_start = start, gr_end = pb_offset b14\<rparr>, b14)))))))))))))"

section \<open>Iterators\<close>

lemma skipped_shrinks: "remaining (skipped b) \<le> remaining b"
  unfolding skipped_def by (intro advances_remaining skip_spaces_advances)

function skip_semicolons :: "parser_buffer \<Rightarrow> parser_buffer" where
  "skip_semicolons b =
     (if gremlinp_parser_buffer_char b = CHR '';'' then skip_semicolons (skipped (shift 1 b)) else b)"
  by pat_completeness auto

termination
  by (relation "measure remaining")
     (auto dest!: shrinks intro: le_less_trans [OF skipped_shrinks])

declare skip_semicolons.simps [simp del]

definition gremlinp_enum_next_entry ::
  "parser_buffer \<Rightarrow> gremlinp_enum_entry gremlinp_entry_result parse_result" where
  "gremlinp_enum_next_entry b =
     (let saved = pb_offset b;
          b1 = skip_semicolons (skipped b);
          entry_start = pb_offset b1;
          found = (\<lambda>x b'. (Inr \<lparr>en_entry = x, en_start = entry_start, en_end = pb_offset b'\<rparr>, b')) in
      attempt (gremlinp_option_parse b1) (\<lambda>opt. found (GREMLINP_ENUM_ENTRY_OPTION opt)) (\<lambda>_ b2.
      attempt (gremlinp_reserved_parse b2) (\<lambda>res. found (GREMLINP_ENUM_ENTRY_RESERVED res)) (\<lambda>_ b3.
      attempt (gremlinp_enum_field_parse b3) (\<lambda>fld. found (GREMLINP_ENUM_ENTRY_FIELD fld)) (\<lambda>e b4.
        (Inl e, rewind saved b4)))))"

definition gremlinp_oneof_next_entry ::
  "parser_buffer \<Rightarrow> gremlinp_oneof_entry gremlinp_entry_result parse_result" where
  "gremlinp_oneof_next_entry b =
     (let saved = pb_offset b;
          b1 = skip_semicolons (skipped b);
          entry_start = pb_offset b1;
          found = (\<lambda>x b'. (Inr \<lparr>en_entry = x, en_start = entry_start, en_end = pb_offset b'\<rparr>, b')) in
      attempt (gremlinp_option_parse b1) (\<lambda>opt. found (GREMLINP_ONEOF_ENTRY_OPTION opt)) (\<lambda>_ b2.
      attempt (gremlinp_oneof_field_parse b2) (\<lambda>fld. found (GREMLINP_ONEOF_ENTRY_FIELD fld)) (\<lambda>e b3.
        (Inl e, rewind saved b3))))"

section \<open>Contracts\<close>

lemma moved_next [loop_rules]:
  "moved s b0 b \<Longrightarrow> gremlinp_parser_buffer_char b = c \<Longrightarrow> c \<noteq> nul \<Longrightarrow> moved True b0 (shift 1 b)"
  by (erule moved_shift) (rule char_in_text)

lemma enum_body_loop_ends: "ends start b (enum_body_loop start b)"
proof (induction b rule: ends_induct)
  case (step b)
  note again = ends_again [where f = "enum_body_loop start", OF _ step]
  show ?case
    unfolding enum_body_loop.simps [of start b] Let_def
    by (assumption | rule loop_rules again parse_steps parse_contracts moved_refl | simp)+
qed

lemma oneof_body_loop_ends: "ends start b (oneof_body_loop start b)"
proof (induction b rule: ends_induct)
  case (step b)
  note again = ends_again [where f = "oneof_body_loop start", OF _ step]
  show ?case
    unfolding oneof_body_loop.simps [of start b] Let_def
    by (assumption | rule loop_rules again parse_steps parse_contracts moved_refl | simp)+
qed

lemma extend_body_loop_ends: "ends start b (extend_body_loop start b)"
proof (induction b rule: ends_induct)
  case (step b)
  note again = ends_again [where f = "extend_body_loop start", OF _ step]
  show ?case
    unfolding extend_body_loop.simps [of start b] Let_def
    by (assumption | rule loop_rules again parse_steps parse_contracts moved_refl | simp)+
qed

lemma skip_quoted_yields [parse_steps]: "yields False b (skip_quoted c b)"
  using skip_quoted_advances [of b c] by (simp add: yields_def)

lemma skip_block_loop_ends: "ends start b (skip_block_loop start depth b)"
proof (induction b arbitrary: depth rule: ends_induct)
  case (step b)
  note again = ends_again [where f = "skip_block_loop start d" for d, OF _ step]
  have m: "moved True b (shift 1 b)" if "gremlinp_parser_buffer_char b \<noteq> nul"
    using that by (intro moved_next [OF moved_refl refl])
  show ?case
    unfolding skip_block_loop.simps [of start depth b] Let_def
    by (assumption | rule m loop_rules again parse_steps moved_refl | simp)+
qed

lemmas body_loops =
  settles_loop [OF enum_body_loop_ends] settles_loop [OF oneof_body_loop_ends]
  settles_loop [OF extend_body_loop_ends] settles_loop [OF skip_block_loop_ends]

lemma enum_settles: "settles b (gremlinp_enum_parse b)"
  unfolding gremlinp_enum_parse_def Let_def
  by (assumption | rule body_loops | rule parse_rules parse_steps moved_refl | simp)+

lemma oneof_settles: "settles b (gremlinp_oneof_parse b)"
  unfolding gremlinp_oneof_parse_def Let_def
  by (assumption | rule body_loops | rule parse_rules parse_steps moved_refl | simp)+

lemma extend_settles: "settles b (gremlinp_extend_parse b)"
  unfolding gremlinp_extend_parse_def Let_def
  by (assumption | rule body_loops | rule parse_rules parse_steps moved_refl | simp)+

lemma service_settles: "settles b (gremlinp_service_parse b)"
  unfolding gremlinp_service_parse_def Let_def
  by (assumption | rule body_loops | rule parse_rules parse_steps moved_refl | simp)+

lemma moved_checked: "moved False b0 b \<Longrightarrow> moved False b0 (snd (check_str b kw))"
  by (auto simp: gremlinp_parser_buffer_check_str_and_shift_def advances_def consumes_def)

lemma group_settles: "settles b (gremlinp_group_parse b)"
  unfolding gremlinp_group_parse_def Let_def
  by (assumption | rule body_loops | rule moved_checked | rule parse_rules parse_steps moved_refl
      | simp)+

lemma moved_semicolons [parse_rules]: "moved s b0 b \<Longrightarrow> moved s b0 (skip_semicolons b)"
proof (induction b rule: skip_semicolons.induct)
  case (1 b)
  show ?case
  proof (cases "gremlinp_parser_buffer_char b = CHR '';''")
    case True
    then have "moved True b0 (skipped (shift 1 b))"
      using "1.prems" by (intro moved_skipped moved_next [where c = "CHR '';''"]) simp_all
    then have "moved s b0 (skipped (shift 1 b))" by (cases s) auto
    then show ?thesis using 1 True skip_semicolons.simps [of b] by simp
  next
    case False
    then show ?thesis using "1.prems" skip_semicolons.simps [of b] by simp
  qed
qed

lemma enum_entry_settles: "settles b (gremlinp_enum_next_entry b)"
  unfolding gremlinp_enum_next_entry_def Let_def
  by (assumption | rule parse_rules parse_contracts moved_refl | simp)+

lemma oneof_entry_settles: "settles b (gremlinp_oneof_next_entry b)"
  unfolding gremlinp_oneof_next_entry_def Let_def
  by (assumption | rule parse_rules parse_contracts moved_refl | simp)+

interpretation enum_decl: restoring_parser gremlinp_enum_parse
  by unfold_locales (rule enum_settles)

interpretation oneof_decl: restoring_parser gremlinp_oneof_parse
  by unfold_locales (rule oneof_settles)

interpretation extend_decl: restoring_parser gremlinp_extend_parse
  by unfold_locales (rule extend_settles)

interpretation service_decl: restoring_parser gremlinp_service_parse
  by unfold_locales (rule service_settles)

interpretation group_decl: restoring_parser gremlinp_group_parse
  by unfold_locales (rule group_settles)

interpretation enum_entry: restoring_parser gremlinp_enum_next_entry
  by unfold_locales (rule enum_entry_settles)

interpretation oneof_entry: restoring_parser gremlinp_oneof_next_entry
  by unfold_locales (rule oneof_entry_settles)

lemmas [parse_steps] =
  enum_decl.step oneof_decl.step extend_decl.step service_decl.step group_decl.step
lemmas [parse_contracts] =
  enum_decl.contract oneof_decl.contract extend_decl.contract service_decl.contract
  group_decl.contract

end
