(* ===== verification/Entry_File.thy ===== *)
theory Entry_File
  imports Entry_Bodies
begin

text \<open>
  Messages and whole files: the flat loop over a message body, in which nested
  messages are followed by a depth counter, and the iterators over the entries of
  a message body and of a file.
\<close>

section \<open>Messages\<close>

record gremlinp_message =
  mg_name :: gremlinp_span
  mg_body_start :: nat
  mg_body_end :: nat
  mg_start :: nat
  mg_end :: nat

text \<open>The header of a nested message, up to its opening brace; the errors are not looked at.\<close>

definition nested_message_header :: "parser_buffer \<Rightarrow> unit parse_result" where
  "nested_message_header b =
     (let msg_save = pb_offset b; ignored = GREMLINP_ERROR_UNEXPECTED_TOKEN in
      require msg_save ignored (check_str b ''message'') (\<lambda>b1.
      on_ok msg_save (skip_spaces b1) (\<lambda>_ b2.
      on_ok msg_save (gremlinp_lexems_parse_identifier b2) (\<lambda>_ b3.
      on_ok msg_save (skip_spaces b3) (\<lambda>_ b4.
      require msg_save ignored (check_char b4 (CHR ''{'')) (\<lambda>b5. (Inr (), b5)))))))"

lemma nested_message_header_settles: "settles b (nested_message_header b)"
  unfolding nested_message_header_def Let_def
  by (assumption | rule parse_rules parse_steps moved_refl | simp)+

interpretation nested_header: restoring_parser nested_message_header
  by unfold_locales (rule nested_message_header_settles)

lemmas [parse_contracts] = nested_header.contract

lemma brace_shrinks [shrinks]:
  "gremlinp_parser_buffer_char b = CHR ''}'' \<Longrightarrow> remaining (shift (Suc 0) b) < remaining b"
  "CHR ''}'' = gremlinp_parser_buffer_char b \<Longrightarrow> remaining (shift (Suc 0) b) < remaining b"
proof -
  show less: "remaining (shift (Suc 0) b) < remaining b" if "gremlinp_parser_buffer_char b = CHR ''}''"
    using char_in_text [OF that] shift_shrinks [of b 1] by simp
  show "remaining (shift (Suc 0) b) < remaining b" if "CHR ''}'' = gremlinp_parser_buffer_char b"
    using that [symmetric] by (rule less)
qed

lemmas entry_restores =
  enum_decl.error_restores nested_header.error_restores oneof_decl.error_restores
  option_decl.error_restores extensions.error_restores reserved.error_restores
  extend_decl.error_restores group_decl.error_restores field.error_restores

lemmas entry_decreases =
  enum_decl.ok_decreases nested_header.ok_decreases oneof_decl.ok_decreases
  option_decl.ok_decreases extensions.ok_decreases reserved.ok_decreases
  extend_decl.ok_decreases group_decl.ok_decreases field.ok_decreases

text \<open>\<open>depth\<close> is a \<open>size_t\<close>, at most the number of characters of the text.\<close>

function message_body_loop :: "nat \<Rightarrow> nat \<Rightarrow> parser_buffer \<Rightarrow> unit parse_result" where
  "message_body_loop start depth b =
     (if depth = 0 then (Inr (), b)
      else
        on_ok start (skip_spaces b) (\<lambda>_ b1.
        let c = gremlinp_parser_buffer_char b1 in
        if c = nul then (Inl GREMLINP_ERROR_UNEXPECTED_EOF, rewind start b1)
        else if c = CHR ''}'' then message_body_loop start (depth - 1) (shift 1 b1)
        else if c = CHR '';'' then message_body_loop start depth (shift 1 b1)
        else
          attempt (gremlinp_enum_parse b1) (\<lambda>_ b2. message_body_loop start depth b2) (\<lambda>_ b2.
          attempt (nested_message_header b2) (\<lambda>_ b3. message_body_loop start (depth + 1) b3) (\<lambda>_ b3.
          attempt (gremlinp_oneof_parse b3) (\<lambda>_ b4. message_body_loop start depth b4) (\<lambda>_ b4.
          attempt (gremlinp_option_parse b4) (\<lambda>_ b5. message_body_loop start depth b5) (\<lambda>_ b5.
          attempt (gremlinp_extensions_parse b5) (\<lambda>_ b6. message_body_loop start depth b6) (\<lambda>_ b6.
          attempt (gremlinp_reserved_parse b6) (\<lambda>_ b7. message_body_loop start depth b7) (\<lambda>_ b7.
          attempt (gremlinp_extend_parse b7) (\<lambda>_ b8. message_body_loop start depth b8) (\<lambda>_ b8.
          attempt (gremlinp_group_parse b8) (\<lambda>_ b9. message_body_loop start depth b9) (\<lambda>_ b9.
          attempt (gremlinp_field_parse b9) (\<lambda>_ b10. message_body_loop start depth b10) (\<lambda>_ b10.
            (Inl GREMLINP_ERROR_INVALID_CHARACTER, rewind start b10))))))))))))"
  by pat_completeness auto

termination
  by (relation "measure (\<lambda>(start, depth, b). remaining b)")
     (auto dest!: shrinks entry_restores entry_decreases)

declare message_body_loop.simps [simp del]

definition gremlinp_message_parse :: "parser_buffer \<Rightarrow> gremlinp_message parse_result" where
  "gremlinp_message_parse b =
     (let start = pb_offset b in
      require start GREMLINP_ERROR_UNEXPECTED_TOKEN (check_str b ''message'') (\<lambda>b1.
      on_ok start (skip_spaces b1) (\<lambda>_ b2.
      on_ok start (gremlinp_lexems_parse_identifier b2) (\<lambda>name b3.
      on_ok start (skip_spaces b3) (\<lambda>_ b4.
      require start GREMLINP_ERROR_BRACKET_EXPECTED (check_char b4 (CHR ''{'')) (\<lambda>b5.
      let body_start = pb_offset b5 in
      on_ok start (message_body_loop start 1 b5) (\<lambda>_ b6.
        (Inr \<lparr>mg_name = name, mg_body_start = body_start, mg_body_end = pb_offset b6 - 1,
              mg_start = start, mg_end = pb_offset b6\<rparr>, b6))))))))"

datatype gremlinp_message_entry =
    GREMLINP_MSG_ENTRY_FIELD gremlinp_field
  | GREMLINP_MSG_ENTRY_ENUM gremlinp_enum
  | GREMLINP_MSG_ENTRY_MESSAGE gremlinp_message
  | GREMLINP_MSG_ENTRY_ONEOF gremlinp_oneof
  | GREMLINP_MSG_ENTRY_OPTION gremlinp_option
  | GREMLINP_MSG_ENTRY_EXTENSIONS gremlinp_extensions
  | GREMLINP_MSG_ENTRY_RESERVED gremlinp_reserved
  | GREMLINP_MSG_ENTRY_EXTEND gremlinp_extend
  | GREMLINP_MSG_ENTRY_GROUP gremlinp_group

definition gremlinp_message_next_entry ::
  "parser_buffer \<Rightarrow> gremlinp_message_entry gremlinp_entry_result parse_result" where
  "gremlinp_message_next_entry b =
     (let saved = pb_offset b;
          b1 = skip_semicolons (skipped b);
          entry_start = pb_offset b1;
          found = (\<lambda>x b'. (Inr \<lparr>en_entry = x, en_start = entry_start, en_end = pb_offset b'\<rparr>, b')) in
      attempt (gremlinp_enum_parse b1) (\<lambda>x. found (GREMLINP_MSG_ENTRY_ENUM x)) (\<lambda>_ b2.
      attempt (gremlinp_message_parse b2) (\<lambda>x. found (GREMLINP_MSG_ENTRY_MESSAGE x)) (\<lambda>_ b3.
      attempt (gremlinp_oneof_parse b3) (\<lambda>x. found (GREMLINP_MSG_ENTRY_ONEOF x)) (\<lambda>_ b4.
      attempt (gremlinp_option_parse b4) (\<lambda>x. found (GREMLINP_MSG_ENTRY_OPTION x)) (\<lambda>_ b5.
      attempt (gremlinp_extensions_parse b5) (\<lambda>x. found (GREMLINP_MSG_ENTRY_EXTENSIONS x)) (\<lambda>_ b6.
      attempt (gremlinp_reserved_parse b6) (\<lambda>x. found (GREMLINP_MSG_ENTRY_RESERVED x)) (\<lambda>_ b7.
      attempt (gremlinp_extend_parse b7) (\<lambda>x. found (GREMLINP_MSG_ENTRY_EXTEND x)) (\<lambda>_ b8.
      attempt (gremlinp_group_parse b8) (\<lambda>x. found (GREMLINP_MSG_ENTRY_GROUP x)) (\<lambda>_ b9.
      attempt (gremlinp_field_parse b9) (\<lambda>x. found (GREMLINP_MSG_ENTRY_FIELD x)) (\<lambda>_ b10.
        (Inl GREMLINP_ERROR_INVALID_CHARACTER, rewind saved b10)))))))))))"

lemma message_body_loop_ends: "ends start b (message_body_loop start depth b)"
proof (induction b arbitrary: depth rule: ends_induct)
  case (step b)
  note again = ends_again [where f = "message_body_loop start d" for d, OF _ step]
  show ?case
    unfolding message_body_loop.simps [of start depth b] Let_def
    by (assumption | rule loop_rules again parse_steps parse_contracts moved_refl | simp)+
qed

lemma message_settles: "settles b (gremlinp_message_parse b)"
  unfolding gremlinp_message_parse_def Let_def
  by (assumption | rule settles_loop [OF message_body_loop_ends]
      | rule parse_rules parse_steps moved_refl | simp)+

interpretation message_decl: restoring_parser gremlinp_message_parse
  by unfold_locales (rule message_settles)

lemmas [parse_contracts] = message_decl.contract

lemma message_entry_settles: "settles b (gremlinp_message_next_entry b)"
  unfolding gremlinp_message_next_entry_def Let_def
  by (assumption | rule parse_rules parse_contracts moved_refl | simp)+

interpretation message_entry: restoring_parser gremlinp_message_next_entry
  by unfold_locales (rule message_entry_settles)

section \<open>Files\<close>

datatype gremlinp_file_entry =
    GREMLINP_FILE_ENTRY_SYNTAX gremlinp_syntax
  | GREMLINP_FILE_ENTRY_EDITION gremlinp_edition
  | GREMLINP_FILE_ENTRY_PACKAGE gremlinp_package
  | GREMLINP_FILE_ENTRY_IMPORT gremlinp_import
  | GREMLINP_FILE_ENTRY_OPTION gremlinp_option
  | GREMLINP_FILE_ENTRY_MESSAGE gremlinp_message
  | GREMLINP_FILE_ENTRY_ENUM gremlinp_enum
  | GREMLINP_FILE_ENTRY_SERVICE gremlinp_service
  | GREMLINP_FILE_ENTRY_EXTEND gremlinp_extend

definition gremlinp_file_next_entry ::
  "parser_buffer \<Rightarrow> gremlinp_file_entry gremlinp_entry_result parse_result" where
  "gremlinp_file_next_entry b =
     (let saved = pb_offset b;
          b1 = skip_semicolons (skipped b);
          entry_start = pb_offset b1;
          found = (\<lambda>x b'. (Inr \<lparr>en_entry = x, en_start = entry_start, en_end = pb_offset b'\<rparr>, b')) in
      attempt (gremlinp_syntax_parse b1) (\<lambda>x. found (GREMLINP_FILE_ENTRY_SYNTAX x)) (\<lambda>_ b2.
      attempt (gremlinp_edition_parse b2) (\<lambda>x. found (GREMLINP_FILE_ENTRY_EDITION x)) (\<lambda>_ b3.
      attempt (gremlinp_package_parse b3) (\<lambda>x. found (GREMLINP_FILE_ENTRY_PACKAGE x)) (\<lambda>_ b4.
      attempt (gremlinp_import_parse b4) (\<lambda>x. found (GREMLINP_FILE_ENTRY_IMPORT x)) (\<lambda>_ b5.
      attempt (gremlinp_option_parse b5) (\<lambda>x. found (GREMLINP_FILE_ENTRY_OPTION x)) (\<lambda>_ b6.
      attempt (gremlinp_message_parse b6) (\<lambda>x. found (GREMLINP_FILE_ENTRY_MESSAGE x)) (\<lambda>_ b7.
      attempt (gremlinp_enum_parse b7) (\<lambda>x. found (GREMLINP_FILE_ENTRY_ENUM x)) (\<lambda>_ b8.
      attempt (gremlinp_service_parse b8) (\<lambda>x. found (GREMLINP_FILE_ENTRY_SERVICE x)) (\<lambda>_ b9.
      attempt (gremlinp_extend_parse b9) (\<lambda>x. found (GREMLINP_FILE_ENTRY_EXTEND x)) (\<lambda>_ b10.
        (Inl GREMLINP_ERROR_UNEXPECTED_TOKEN, rewind saved b10)))))))))))"

lemma file_entry_settles: "settles b (gremlinp_file_next_entry b)"
  unfolding gremlinp_file_next_entry_def Let_def
  by (assumption | rule parse_rules parse_contracts moved_refl | simp)+

interpretation file_entry: restoring_parser gremlinp_file_next_entry
  by unfold_locales (rule file_entry_settles)

end
