(* ===== verification/Nodes.thy ===== *)
theory Nodes
  imports Pool Entry_File
begin

text \<open>
  The syntax tree of \<open>descriptors/include/gremlind/nodes.h\<close> and \<open>name.h\<close>.  A span
  into a source buffer is the text it designates; an arena array with its count is
  a list; a pointer to a file is its position in the context's \<open>files\<close>, and a
  pointer to a message or an enum the position of its file with its own position
  in the file's flat array.  A name segment is a text, a scoped name the list of
  its segments with the \<open>absolute\<close> flag.  Of the parser's result a node wraps the
  model keeps what is read later: the texts, the options of a field, the whole result
  of a message and an enum.
\<close>

record gremlind_scoped_name =
  segments :: "string list"
  absolute :: bool

datatype gremlind_type_ref =
    GREMLIND_TYPE_REF_UNRESOLVED
  | GREMLIND_TYPE_REF_BUILTIN string
  | GREMLIND_TYPE_REF_MESSAGE nat nat
  | GREMLIND_TYPE_REF_ENUM nat nat
  | GREMLIND_TYPE_REF_MAP gremlind_type_ref gremlind_type_ref

text \<open>The type as written: the parser's \<open>NAMED\<close> or \<open>MAP\<close> with the texts of its spans.\<close>

datatype written_type = Written_Named string | Written_Map string string

record gremlind_import =
  ni_path :: string
  ni_type :: gremlinp_import_type
  ni_resolved :: "nat option"

record gremlind_enum =
  ne_parsed :: gremlinp_enum
  ne_name :: string
  ne_values :: "(string \<times> int) list"
  ne_parent :: "nat option"
  ne_scoped_name :: gremlind_scoped_name
  ne_c_name :: "string option"

datatype gremlind_packing =
    GREMLIND_PACKING_AUTO | GREMLIND_PACKING_PACKED | GREMLIND_PACKING_EXPANDED

record gremlind_field =
  nf_name :: string
  nf_label :: gremlinp_field_label
  nf_index :: int
  nf_written :: written_type
  nf_options :: gremlinp_option_list
  nf_type :: gremlind_type_ref
  nf_default :: "gremlinp_const option"
  nf_packing :: gremlind_packing
  nf_origin_file :: "nat option"
  nf_origin_scope :: "gremlind_scoped_name option"

record gremlind_message =
  nm_parsed :: gremlinp_message
  nm_name :: string
  nm_fields :: "gremlind_field list"
  nm_parent :: "nat option"
  nm_scoped_name :: gremlind_scoped_name
  nm_c_name :: "string option"
  nm_c_reader_ok :: "string option"
  nm_c_predeclared :: bool

record gremlind_file =
  nl_syntax :: "string option"
  nl_edition :: "string option"
  nl_package :: "string option"
  nl_imports :: "gremlind_import list"
  nl_enums :: "gremlind_enum list"
  nl_messages :: "gremlind_message list"
  nl_visible :: "nat list"
  nl_needs_math_h :: bool
  nl_needs_string_h :: bool

end
