(* ===== verification/Scoped_Names.thy ===== *)
theory Scoped_Names
  imports Nodes
begin

text \<open>
  Scoped names, \<open>descriptors/src/name.c\<close>: comparison, parsing of a dotted name,
  concatenation, and the pass that gives every message and enum of a file its
  full name.  The parser of names is shown equal to splitting at the dots, and the
  inverse of the way the \<open>.proto\<close> parser writes full identifiers.
\<close>

abbreviation (input) sizeof_name_segment :: nat where "sizeof_name_segment \<equiv> 16"

section \<open>Operations\<close>

definition gremlind_scoped_name_eq :: "gremlind_scoped_name \<Rightarrow> gremlind_scoped_name \<Rightarrow> bool" where
  "gremlind_scoped_name_eq a b =
     (length (segments a) = length (segments b) \<and>
      list_all2 (\<lambda>x y. length x = length y \<and> (length x > 0 \<longrightarrow> x = y)) (segments a) (segments b))"

definition subspan :: "string \<Rightarrow> nat \<Rightarrow> nat \<Rightarrow> string" where
  "subspan s i j = take (j - i) (drop i s)"

text \<open>\<open>segs\<close> holds the segments stored so far, so \<open>seg_idx\<close> is its length.\<close>

function segments_loop :: "string \<Rightarrow> nat \<Rightarrow> nat \<Rightarrow> string list \<Rightarrow> (string list \<times> nat) option" where
  "segments_loop span k seg_start segs =
     (if k < length span then
        if span ! k = CHR ''.'' then
          if k = seg_start then None
          else segments_loop span (k + 1) (k + 1) (segs @ [subspan span seg_start k])
        else segments_loop span (k + 1) seg_start segs
      else Some (segs, seg_start))"
  by pat_completeness auto
termination by (relation "measure (\<lambda>(span, k, _). length span - k)") auto

definition gremlind_scoped_name_parse ::
    "'w pool \<Rightarrow> string \<Rightarrow> (gremlind_scoped_name, 'w) pooled" where
  "gremlind_scoped_name_parse s span =
     (let is_abs = length span > 0 \<and> span ! 0 = CHR ''.'';
          i = (if is_abs then 1 else 0) in
      if i \<ge> length span then (Inl GREMLINP_ERROR_INVALID_OPTION_NAME, s)
      else let n_segs = 1 + length (filter (\<lambda>c. c = CHR ''.'') (drop i span)) in
        with_alloc (n_segs * sizeof_name_segment) s (\<lambda>s1.
          case segments_loop span i i [] of
            None \<Rightarrow> (Inl GREMLINP_ERROR_INVALID_OPTION_NAME, s1)
          | Some (segs, seg_start) \<Rightarrow>
              if seg_start \<ge> length span then (Inl GREMLINP_ERROR_INVALID_OPTION_NAME, s1)
              else (Inr \<lparr>segments = segs @ [subspan span seg_start (length span)], absolute = is_abs\<rparr>, s1)))"

definition gremlind_scoped_name_extend ::
    "'w pool \<Rightarrow> gremlind_scoped_name \<Rightarrow> string list \<Rightarrow> (gremlind_scoped_name, 'w) pooled" where
  "gremlind_scoped_name_extend s pre extra =
     (let total = length (segments pre) + length extra in
      if total = 0 then (Inr \<lparr>segments = [], absolute = True\<rparr>, s)
      else with_alloc (total * sizeof_name_segment) s (\<lambda>s1.
        (Inr \<lparr>segments = segments pre @ extra, absolute = True\<rparr>, s1)))"

text \<open>The two loops of \<open>gremlind_compute_scoped_names\<close>, from position \<open>i\<close> on.\<close>

function name_messages_loop ::
    "gremlind_scoped_name \<Rightarrow> nat \<Rightarrow> gremlind_file \<Rightarrow> 'w pool \<Rightarrow> (gremlind_file, 'w) pooled" where
  "name_messages_loop pkg i file s =
     (if i < length (nl_messages file) then
        let m = nl_messages file ! i;
            pre = (case nm_parent m of Some p \<Rightarrow> nm_scoped_name (nl_messages file ! p) | None \<Rightarrow> pkg) in
        then_ok (gremlind_scoped_name_extend s pre [nm_name m]) (\<lambda>sn s1.
          name_messages_loop pkg (i + 1)
            (file\<lparr>nl_messages := (nl_messages file)[i := m\<lparr>nm_scoped_name := sn\<rparr>]\<rparr>) s1)
      else (Inr file, s))"
  by pat_completeness auto
termination by (relation "measure (\<lambda>(_, i, file, _). length (nl_messages file) - i)") auto

function name_enums_loop ::
    "gremlind_scoped_name \<Rightarrow> nat \<Rightarrow> gremlind_file \<Rightarrow> 'w pool \<Rightarrow> (gremlind_file, 'w) pooled" where
  "name_enums_loop pkg i file s =
     (if i < length (nl_enums file) then
        let e = nl_enums file ! i;
            pre = (case ne_parent e of Some p \<Rightarrow> nm_scoped_name (nl_messages file ! p) | None \<Rightarrow> pkg) in
        then_ok (gremlind_scoped_name_extend s pre [ne_name e]) (\<lambda>sn s1.
          name_enums_loop pkg (i + 1)
            (file\<lparr>nl_enums := (nl_enums file)[i := e\<lparr>ne_scoped_name := sn\<rparr>]\<rparr>) s1)
      else (Inr file, s))"
  by pat_completeness auto
termination by (relation "measure (\<lambda>(_, i, file, _). length (nl_enums file) - i)") auto

definition gremlind_compute_scoped_names :: "'w pool \<Rightarrow> gremlind_file \<Rightarrow> (gremlind_file, 'w) pooled" where
  "gremlind_compute_scoped_names s file =
     (let pkg = (case nl_package file of
          Some name \<Rightarrow>
            if length name > 0
            then then_ok (gremlind_scoped_name_parse s name) (\<lambda>sn s1. (Inr (sn\<lparr>absolute := True\<rparr>), s1))
            else (Inr \<lparr>segments = [], absolute = True\<rparr>, s)
        | None \<Rightarrow> (Inr \<lparr>segments = [], absolute = True\<rparr>, s)) in
      then_ok pkg (\<lambda>pkg s1.
      then_ok (name_messages_loop pkg 0 file s1) (\<lambda>file s2.
        name_enums_loop pkg 0 file s2)))"

declare segments_loop.simps [simp del] name_messages_loop.simps [simp del] name_enums_loop.simps [simp del]

section \<open>Splitting at dots\<close>

fun split_dots :: "string \<Rightarrow> string list" where
  "split_dots [] = [[]]"
| "split_dots (c # cs) =
     (if c = CHR ''.'' then [] # split_dots cs
      else (c # hd (split_dots cs)) # tl (split_dots cs))"

lemma split_dots_not_Nil [simp]: "split_dots s \<noteq> []"
  by (cases s) auto

lemma length_split_dots: "length (split_dots s) = 1 + length (filter (\<lambda>c. c = CHR ''.'') s)"
  by (induction s) (auto simp: Suc_leI)

lemma split_dots_dot_free: "CHR ''.'' \<notin> set x \<Longrightarrow> split_dots (x @ y) = (x @ hd (split_dots y)) # tl (split_dots y)"
  by (induction x) auto

lemma split_dots_dotted:
  "CHR ''.'' \<notin> set i \<Longrightarrow> \<forall>x \<in> set is. CHR ''.'' \<notin> set x \<Longrightarrow> split_dots (i @ dotted is) = i # is"
proof (induction "is" arbitrary: i)
  case Nil
  then show ?case using split_dots_dot_free [of i "[]"] by simp
next
  case (Cons x xs)
  then show ?case using split_dots_dot_free [of i "dotted (x # xs)"] by simp
qed

lemma slice_self [simp]: "subspan s i i = []"
  by (simp add: subspan_def)

lemma slice_Suc: "i \<le> k \<Longrightarrow> k < length s \<Longrightarrow> subspan s i (Suc k) = subspan s i k @ [s ! k]"
  by (simp add: subspan_def Suc_diff_le take_Suc_conv_app_nth)

lemma length_slice: "i \<le> j \<Longrightarrow> j \<le> length s \<Longrightarrow> length (subspan s i j) = j - i"
  by (simp add: subspan_def)

text \<open>The parts that remain when the current segment began at \<open>i\<close> and the cursor is at \<open>k\<close>.\<close>

definition parts_from :: "string \<Rightarrow> nat \<Rightarrow> nat \<Rightarrow> string list" where
  "parts_from s i k = (subspan s i k @ hd (split_dots (drop k s))) # tl (split_dots (drop k s))"

lemma parts_from_dot:
  assumes "k < length s" "s ! k = CHR ''.''"
  shows "parts_from s i k = subspan s i k # parts_from s (Suc k) (Suc k)"
proof -
  have "drop k s = s ! k # drop (Suc k) s" using Cons_nth_drop_Suc assms by metis
  then show ?thesis using assms by (simp add: parts_from_def)
qed

lemma parts_from_other:
  assumes "i \<le> k" "k < length s" "s ! k \<noteq> CHR ''.''"
  shows "parts_from s i k = parts_from s i (Suc k)"
proof -
  have "drop k s = s ! k # drop (Suc k) s" using Cons_nth_drop_Suc assms by metis
  then show ?thesis using assms by (simp add: parts_from_def slice_Suc)
qed

lemma parts_from_end: "length s \<le> k \<Longrightarrow> parts_from s i k = [subspan s i k]"
  by (simp add: parts_from_def)

lemma segments_loop_parts:
  "i \<le> k \<Longrightarrow> k \<le> length s \<Longrightarrow>
   if [] \<in> set (butlast (parts_from s i k)) then segments_loop s k i segs = None
   else \<exists>st \<le> length s. last (parts_from s i k) = subspan s st (length s) \<and>
     segments_loop s k i segs = Some (segs @ butlast (parts_from s i k), st)"
proof (induction s k i segs rule: segments_loop.induct)
  case (1 s k i segs)
  consider (e) "\<not> k < length s" | (d) "k < length s" "s ! k = CHR ''.''" | (o) "k < length s" "s ! k \<noteq> CHR ''.''"
    by blast
  then show ?case
  proof cases
    case e
    then have "segments_loop s k i segs = Some (segs, i)" by (subst segments_loop.simps) simp
    moreover have "k = length s" using e "1.prems" by simp
    ultimately show ?thesis using "1.prems" by (simp add: parts_from_end)
  next
    case o
    then have "segments_loop s k i segs = segments_loop s (k + 1) i segs"
      by (subst segments_loop.simps) simp
    moreover have "parts_from s i k = parts_from s i (k + 1)" using parts_from_other o "1.prems" by simp
    ultimately show ?thesis using 1(2) [OF o, unfolded Suc_eq_plus1 [symmetric]] o "1.prems" by simp
  next
    case d
    let ?ps = "parts_from s (k + 1) (k + 1)"
    have ps: "parts_from s i k = subspan s i k # ?ps" using parts_from_dot [OF d] by simp
    have ne: "?ps \<noteq> []" by (simp add: parts_from_def)
    have e: "segments_loop s k i segs =
        (if k = i then None else segments_loop s (k + 1) (k + 1) (segs @ [subspan s i k]))"
      using d by (subst segments_loop.simps) simp
    have "length (subspan s i k) = k - i" using "1.prems" by (rule length_slice)
    then have k: "subspan s i k = [] \<longleftrightarrow> k = i" using "1.prems"(1) by (cases "subspan s i k") auto
    show ?thesis
    proof (cases "k = i")
      case True
      then show ?thesis using e k ne unfolding ps by simp
    next
      case False
      then show ?thesis using 1(1) [OF d False, unfolded Suc_eq_plus1 [symmetric]] d e k ne by (simp add: ps split: if_split_asm)
    qed
  qed
qed

lemma length_parts: "length (parts_from s i i) = length (split_dots (drop i s))"
  "set (parts_from s i i) = set (split_dots (drop i s))" "parts_from s i i = split_dots (drop i s)"
  by (simp_all add: parts_from_def)

lemma slice_empty_iff: "i \<le> length s \<Longrightarrow> subspan s i (length s) = [] \<longleftrightarrow> length s \<le> i"
  by (auto simp: subspan_def)

section \<open>Properties\<close>

text \<open>What parsing a name means: cut at the dots after an optional leading one; no part may be empty.\<close>

definition leading_dot :: "string \<Rightarrow> bool" where
  "leading_dot span \<longleftrightarrow> span \<noteq> [] \<and> hd span = CHR ''.''"

definition name_parts :: "string \<Rightarrow> string list" where
  "name_parts span = split_dots (if leading_dot span then tl span else span)"

lemma scoped_name_parse_eq:
  "gremlind_scoped_name_parse s span =
     (if name_parts span = [[]] then (Inl GREMLINP_ERROR_INVALID_OPTION_NAME, s)
      else with_alloc (length (name_parts span) * sizeof_name_segment) s (\<lambda>s1.
        if [] \<in> set (name_parts span) then (Inl GREMLINP_ERROR_INVALID_OPTION_NAME, s1)
        else (Inr \<lparr>segments = name_parts span, absolute = leading_dot span\<rparr>, s1)))"
proof -
  define i :: nat where "i = (if leading_dot span then 1 else 0)"
  have lead: "length span > 0 \<and> span ! 0 = CHR ''.'' \<longleftrightarrow> leading_dot span"
    by (cases span) (auto simp: leading_dot_def)
  have parts: "name_parts span = split_dots (drop i span)"
    by (simp add: name_parts_def i_def drop_Suc)
  have "split_dots x = [[]] \<longleftrightarrow> x = []" for x by (cases x) auto
  then have nil: "name_parts span = [[]] \<longleftrightarrow> length span \<le> i" by (simp add: parts)
  show ?thesis
  proof (cases "length span \<le> i")
    case True
    then show ?thesis using nil unfolding gremlind_scoped_name_parse_def lead Let_def
      by (simp flip: i_def)
  next
    case False
    let ?ps = "split_dots (drop i span)"
    have "?ps = butlast ?ps @ [last ?ps]" by simp
    then have mem: "[] \<in> set ?ps \<longleftrightarrow> [] \<in> set (butlast ?ps) \<or> last ?ps = []"
      by (metis Un_iff empty_iff insert_iff list.set(1,2) set_append)
    have loop: "if [] \<in> set (butlast ?ps) then segments_loop span i i [] = None
      else \<exists>st \<le> length span. last ?ps = subspan span st (length span) \<and>
        segments_loop span i i [] = Some (butlast ?ps, st)"
      using segments_loop_parts [of i i span "[]"] False unfolding length_parts(3) by (simp split: if_split_asm)
    have "(case segments_loop span i i [] of
            None \<Rightarrow> (Inl GREMLINP_ERROR_INVALID_OPTION_NAME, s1)
          | Some (segs, seg_start) \<Rightarrow>
              if seg_start \<ge> length span then (Inl GREMLINP_ERROR_INVALID_OPTION_NAME, s1)
              else (Inr \<lparr>segments = segs @ [subspan span seg_start (length span)], absolute = leading_dot span\<rparr>, s1)) =
        (if [] \<in> set ?ps then (Inl GREMLINP_ERROR_INVALID_OPTION_NAME, s1)
         else (Inr \<lparr>segments = ?ps, absolute = leading_dot span\<rparr>, s1))" for s1 :: "'a pool"
    proof (cases "[] \<in> set (butlast ?ps)")
      case True
      then show ?thesis using loop by (simp add: mem)
    next
      case nb: False
      then obtain st where st: "st \<le> length span" "last ?ps = subspan span st (length span)"
        "segments_loop span i i [] = Some (butlast ?ps, st)" using loop by auto
      have "last ?ps = [] \<longleftrightarrow> length span \<le> st" using slice_empty_iff st(1,2) by simp
      moreover have "butlast ?ps @ [subspan span st (length span)] = ?ps"
        using append_butlast_last_id [of ?ps] by (simp add: st(2))
      ultimately show ?thesis using nb st(3) by (simp add: mem)
    qed
    then show ?thesis using False nil unfolding gremlind_scoped_name_parse_def lead Let_def parts
      by (simp add: length_split_dots flip: i_def)
  qed
qed

lemma scoped_name_eq_iff: "gremlind_scoped_name_eq a b \<longleftrightarrow> segments a = segments b"
proof -
  have "(length x = length y \<and> (length x > 0 \<longrightarrow> x = y)) = (x = y)" for x y :: string by auto
  then show ?thesis by (auto simp: gremlind_scoped_name_eq_def list_all2_eq [symmetric])
qed

lemma extend_delivers:
  "delivers (\<lambda>sn. sn = \<lparr>segments = segments pre @ extra, absolute = True\<rparr>)
     (gremlind_scoped_name_extend s pre extra)"
  by (auto simp: gremlind_scoped_name_extend_def Let_def intro!: delivers_with_alloc)

lemma identifier_dot_free: "valid_identifier i \<Longrightarrow> CHR ''.'' \<notin> set i \<and> i \<noteq> [] \<and> hd i \<noteq> CHR ''.''"
  by (cases i) (auto simp: valid_identifier_def list_all_iff is_ident_start_def is_identifier_char_def is_digit_def)

text \<open>Parsing a dotted name is cutting it at its dots, after an optional leading
  dot that makes it absolute: one slot per part is allocated, a text whose parts
  are all non-empty yields exactly those parts, and every other text, the empty
  one, a lone dot, two dots in a row or a trailing dot, is \<open>INVALID_OPTION_NAME\<close>.
  The identifiers of a full identifier as the \<open>.proto\<close> parser reads it come back.\<close>
theorem scoped_name_parse_correct:
  "gremlind_scoped_name_parse s span =
     (if name_parts span = [[]] then (Inl GREMLINP_ERROR_INVALID_OPTION_NAME, s)
      else with_alloc (length (name_parts span) * sizeof_name_segment) s (\<lambda>s1.
        if [] \<in> set (name_parts span) then (Inl GREMLINP_ERROR_INVALID_OPTION_NAME, s1)
        else (Inr \<lparr>segments = name_parts span, absolute = leading_dot span\<rparr>, s1)))
   \<and> (valid_identifier i \<and> list_all valid_identifier ids \<longrightarrow>
        name_parts (full_name lead i ids) = i # ids \<and> leading_dot (full_name lead i ids) = lead)"
proof (rule conjI [OF scoped_name_parse_eq])
  show "valid_identifier i \<and> list_all valid_identifier ids \<longrightarrow>
      name_parts (full_name lead i ids) = i # ids \<and> leading_dot (full_name lead i ids) = lead"
    using identifier_dot_free split_dots_dotted [of i ids]
    by (auto simp: name_parts_def leading_dot_def full_name_def list_all_iff)
qed

lemma scoped_name_parse_correct_witness:
  "name_parts ''.foo.Bar'' = [''foo'', ''Bar''] \<and> leading_dot ''.foo.Bar''"
  using conjunct2 [OF scoped_name_parse_correct [where i = "''foo''" and ids = "[''Bar'']" and lead = True]]
  by (simp add: full_name_def valid_identifier_def is_ident_start_def is_identifier_char_def)

section \<open>Names of the messages and enums of a file\<close>

text \<open>The names of the ancestors of message \<open>i\<close>, outermost first, and its own.\<close>

function message_path :: "gremlind_message list \<Rightarrow> nat \<Rightarrow> string list" where
  "message_path ms i =
     (case nm_parent (ms ! i) of
        Some p \<Rightarrow> if p < i then message_path ms p else []
      | None \<Rightarrow> []) @ [nm_name (ms ! i)]"
  by pat_completeness auto
termination by (relation "measure snd") auto

declare message_path.simps [simp del]

text \<open>Parents come before their children, as the pre-order of the build leaves them.\<close>

definition preordered :: "gremlind_file \<Rightarrow> bool" where
  "preordered file \<longleftrightarrow>
     (\<forall>i < length (nl_messages file). \<forall>p. nm_parent (nl_messages file ! i) = Some p \<longrightarrow> p < i) \<and>
     (\<forall>e \<in> set (nl_enums file). \<forall>p. ne_parent e = Some p \<longrightarrow> p < length (nl_messages file))"

definition package_parts :: "gremlind_file \<Rightarrow> string list" where
  "package_parts file = (case nl_package file of
      Some name \<Rightarrow> if name = [] then [] else name_parts name | None \<Rightarrow> [])"

definition named_message :: "string list \<Rightarrow> gremlind_message list \<Rightarrow> nat \<Rightarrow> gremlind_message" where
  "named_message pkg ms i = (ms ! i)\<lparr>nm_scoped_name := \<lparr>segments = pkg @ message_path ms i, absolute = True\<rparr>\<rparr>"

definition named_enum :: "string list \<Rightarrow> gremlind_message list \<Rightarrow> gremlind_enum \<Rightarrow> gremlind_enum" where
  "named_enum pkg ms e = e\<lparr>ne_scoped_name := \<lparr>segments = pkg @
     (case ne_parent e of Some p \<Rightarrow> message_path ms p | None \<Rightarrow> []) @ [ne_name e], absolute = True\<rparr>\<rparr>"

definition named_file :: "gremlind_file \<Rightarrow> gremlind_file" where
  "named_file file = file\<lparr>
     nl_messages := map (named_message (package_parts file) (nl_messages file)) [0..<length (nl_messages file)],
     nl_enums := map (named_enum (package_parts file) (nl_messages file)) (nl_enums file)\<rparr>"

lemma pre_messages:
  "nm_scoped_name (named_message pkg ms i) = \<lparr>segments = pkg @ message_path ms i, absolute = True\<rparr>"
  by (simp add: named_message_def)

text \<open>The state of the loop: the messages before \<open>i\<close> are named, the rest untouched.\<close>

definition named_upto :: "string list \<Rightarrow> gremlind_message list \<Rightarrow> nat \<Rightarrow> gremlind_message list" where
  "named_upto pkg ms i = map (named_message pkg ms) [0..<i] @ drop i ms"

lemma length_named_upto [simp]: "i \<le> length ms \<Longrightarrow> length (named_upto pkg ms i) = length ms"
  by (simp add: named_upto_def)

lemma named_upto_nth:
  "i \<le> length ms \<Longrightarrow> j < length ms \<Longrightarrow>
   named_upto pkg ms i ! j = (if j < i then named_message pkg ms j else ms ! j)"
  by (simp add: named_upto_def nth_append)

lemma named_upto_Suc:
  "i < length ms \<Longrightarrow> (named_upto pkg ms i)[i := named_message pkg ms i] = named_upto pkg ms (Suc i)"
  by (rule nth_equalityI; simp add: named_upto_nth nth_list_update less_Suc_eq length_named_upto)

lemma name_messages_delivers:
  assumes "\<forall>i < length ms. \<forall>p. nm_parent (ms ! i) = Some p \<longrightarrow> p < i"
  shows "i \<le> length ms \<Longrightarrow> nl_messages fl = named_upto pkg ms i \<Longrightarrow>
    delivers (\<lambda>f. f = fl\<lparr>nl_messages := named_upto pkg ms (length ms)\<rparr>)
      (name_messages_loop \<lparr>segments = pkg, absolute = True\<rparr> i fl s)"
proof (induction "length ms - i" arbitrary: i fl s)
  case 0
  then have "nl_messages fl = named_upto pkg ms (length ms)" "\<not> i < length (nl_messages fl)"
    by (simp_all add: named_upto_def)
  then show ?case by (subst name_messages_loop.simps) simp
next
  case (Suc n)
  then have i: "i < length ms" "i < length (nl_messages fl)" by (simp_all add: named_upto_def)
  let ?m = "nl_messages fl ! i"
  have m: "?m = ms ! i" using Suc.prems i by (simp add: named_upto_nth)
  let ?pre = "case nm_parent ?m of Some p \<Rightarrow> nm_scoped_name (nl_messages fl ! p)
    | None \<Rightarrow> \<lparr>segments = pkg, absolute = True\<rparr>"
  have "segments ?pre @ [nm_name ?m] = pkg @ message_path ms i"
    using assms i Suc.prems by (subst message_path.simps) (auto simp: m named_upto_nth pre_messages split: option.split)
  then have named: "?m\<lparr>nm_scoped_name := \<lparr>segments = segments ?pre @ [nm_name ?m], absolute = True\<rparr>\<rparr> = named_message pkg ms i"
    by (simp add: named_message_def m)
  show ?case
    unfolding name_messages_loop.simps [of _ i] Let_def if_P [OF i(2)]
  proof (rule delivers_then_ok [OF extend_delivers])
    fix sn :: gremlind_scoped_name and s1 :: "'a pool"
    assume sn: "sn = \<lparr>segments = segments ?pre @ [nm_name ?m], absolute = True\<rparr>"
    let ?fl = "fl\<lparr>nl_messages := (nl_messages fl)[i := ?m\<lparr>nm_scoped_name := sn\<rparr>]\<rparr>"
    have "nl_messages ?fl = named_upto pkg ms (Suc i)"
      using i(1) Suc.prems(2) unfolding sn named by (simp add: named_upto_Suc)
    then show "delivers (\<lambda>f. f = fl\<lparr>nl_messages := named_upto pkg ms (length ms)\<rparr>)
        (name_messages_loop \<lparr>segments = pkg, absolute = True\<rparr> (i + 1) ?fl s1)"
      using Suc.hyps(1) [of "i + 1" ?fl s1] Suc.hyps(2) i(1) by (simp add: delivers_mono)
  qed
qed

lemma name_enums_delivers:
  assumes "\<forall>e \<in> set es. \<forall>p. ne_parent e = Some p \<longrightarrow> p < length ms"
    and "nl_messages fl = named_upto pkg ms (length ms)"
  shows "nl_enums fl = map (named_enum pkg ms) (take i es) @ drop i es \<Longrightarrow> i \<le> length es \<Longrightarrow>
    delivers (\<lambda>f. f = fl\<lparr>nl_enums := map (named_enum pkg ms) es\<rparr>)
      (name_enums_loop \<lparr>segments = pkg, absolute = True\<rparr> i fl s)"
  using assms(2)
proof (induction "length es - i" arbitrary: i fl s)
  case 0
  then have "nl_enums fl = map (named_enum pkg ms) es" "\<not> i < length (nl_enums fl)" by simp_all
  then show ?case by (subst name_enums_loop.simps) simp
next
  case (Suc n)
  then have i: "i < length es" "i < length (nl_enums fl)" by simp_all
  let ?e = "nl_enums fl ! i"
  have e: "?e = es ! i" using Suc.prems(1) i by (simp add: nth_append)
  let ?pre = "case ne_parent ?e of Some p \<Rightarrow> nm_scoped_name (nl_messages fl ! p)
    | None \<Rightarrow> \<lparr>segments = pkg, absolute = True\<rparr>"
  have "ne_parent (es ! i) = Some p \<Longrightarrow> p < length ms" for p using assms(1) nth_mem [OF i(1)] by blast
  then have named: "?e\<lparr>ne_scoped_name := \<lparr>segments = segments ?pre @ [ne_name ?e], absolute = True\<rparr>\<rparr> = named_enum pkg ms (es ! i)"
    using Suc.prems(3) by (auto simp: named_enum_def e named_upto_nth pre_messages split: option.split)
  show ?case
    unfolding name_enums_loop.simps [of _ i] Let_def if_P [OF i(2)]
  proof (rule delivers_then_ok [OF extend_delivers])
    fix sn :: gremlind_scoped_name and s1 :: "'a pool"
    assume sn: "sn = \<lparr>segments = segments ?pre @ [ne_name ?e], absolute = True\<rparr>"
    let ?fl = "fl\<lparr>nl_enums := (nl_enums fl)[i := ?e\<lparr>ne_scoped_name := sn\<rparr>]\<rparr>"
    have "nl_enums ?fl = map (named_enum pkg ms) (take (Suc i) es) @ drop (Suc i) es"
      using i(1) unfolding sn named by (simp add: Suc.prems(1) list_update_append take_Suc_conv_app_nth
          Cons_nth_drop_Suc [symmetric] min_def)
    then show "delivers (\<lambda>f. f = fl\<lparr>nl_enums := map (named_enum pkg ms) es\<rparr>)
        (name_enums_loop \<lparr>segments = pkg, absolute = True\<rparr> (i + 1) ?fl s1)"
      using Suc.hyps(1) [of "i + 1" ?fl s1] Suc.hyps(2) Suc.prems(3) i(1) by (simp add: delivers_mono)
  qed
qed

lemma compute_scoped_names_delivers:
  assumes "preordered fl" and "[] \<notin> set (package_parts fl)"
  shows "delivers (\<lambda>fl'. fl' = named_file fl) (gremlind_compute_scoped_names s fl)"
proof -
  let ?pkg = "package_parts fl"
  let ?p = "case nl_package fl of
          Some name \<Rightarrow>
            if length name > 0
            then then_ok (gremlind_scoped_name_parse s name) (\<lambda>sn s1. (Inr (sn\<lparr>absolute := True\<rparr>), s1))
            else (Inr \<lparr>segments = [], absolute = True\<rparr>, s)
        | None \<Rightarrow> (Inr \<lparr>segments = [], absolute = True\<rparr>, s)"
  have "delivers (\<lambda>sn. segments sn = ?pkg) (gremlind_scoped_name_parse s name)"
    if "nl_package fl = Some name" "name \<noteq> []" for name
    using assms(2) that by (auto simp: scoped_name_parse_eq package_parts_def intro!: delivers_with_alloc)
  then have pkg: "delivers (\<lambda>sn. sn = \<lparr>segments = ?pkg, absolute = True\<rparr>) ?p"
    by (auto simp: package_parts_def split: option.split elim!: delivers_then_ok)
  have ms: "\<forall>i < length (nl_messages fl). \<forall>p. nm_parent (nl_messages fl ! i) = Some p \<longrightarrow> p < i"
    and es: "\<forall>e \<in> set (nl_enums fl). \<forall>p. ne_parent e = Some p \<longrightarrow> p < length (nl_messages fl)"
    using assms(1) by (simp_all add: preordered_def)
  show ?thesis
    unfolding gremlind_compute_scoped_names_def Let_def
  proof (rule delivers_then_ok [OF pkg], rule delivers_then_ok)
    fix sn :: gremlind_scoped_name and s1 :: "'a pool"
    assume "sn = \<lparr>segments = ?pkg, absolute = True\<rparr>"
    then show "delivers (\<lambda>f. f = fl\<lparr>nl_messages := named_upto ?pkg (nl_messages fl) (length (nl_messages fl))\<rparr>)
        (name_messages_loop sn 0 fl s1)"
      using name_messages_delivers [OF ms, of 0 fl ?pkg s1] by (simp add: named_upto_def)
  next
    fix sn :: gremlind_scoped_name and s1 s2 :: "'a pool" and f
    assume sn: "sn = \<lparr>segments = ?pkg, absolute = True\<rparr>"
      and f: "f = fl\<lparr>nl_messages := named_upto ?pkg (nl_messages fl) (length (nl_messages fl))\<rparr>"
    show "delivers (\<lambda>fl'. fl' = named_file fl) (name_enums_loop sn 0 f s2)"
      using name_enums_delivers [OF es, of f ?pkg 0 s2]
      by (simp add: sn f named_file_def named_upto_def)
  qed
qed

text \<open>C36. The pass that names a file: when its package name is well formed and
  parents precede their children, every message gets the package's parts, the
  names of the messages it is nested in from the outermost and its own name, every
  enum likewise, all absolute, and nothing else of the file changes; the pass can
  fail only for lack of memory.\<close>
theorem compute_scoped_names_correct:
  assumes "preordered fl" and "[] \<notin> set (package_parts fl)"
  shows "delivers (\<lambda>fl'. fl' = named_file fl) (gremlind_compute_scoped_names s fl)"
  using assms by (rule compute_scoped_names_delivers)

text \<open>\<open>package foo; message A { message B { enum E {} } }\<close>\<close>

definition no_name :: gremlind_scoped_name where
  "no_name = \<lparr>segments = [], absolute = False\<rparr>"

definition no_message :: gremlinp_message where
  "no_message = \<lparr>mg_name = \<lparr>span_start = 0, span_length = 0\<rparr>, mg_body_start = 0, mg_body_end = 0, mg_start = 0, mg_end = 0\<rparr>"

definition no_enum :: gremlinp_enum where
  "no_enum = \<lparr>em_name = \<lparr>span_start = 0, span_length = 0\<rparr>, em_body_start = 0, em_body_end = 0, em_start = 0, em_end = 0\<rparr>"

definition sample_message :: "string \<Rightarrow> nat option \<Rightarrow> gremlind_message" where
  "sample_message name parent = \<lparr>nm_parsed = no_message, nm_name = name, nm_fields = [], nm_parent = parent,
     nm_scoped_name = no_name, nm_c_name = None, nm_c_reader_ok = None, nm_c_predeclared = False\<rparr>"

definition sample_file :: gremlind_file where
  "sample_file = \<lparr>nl_syntax = None, nl_edition = None, nl_package = Some ''foo'', nl_imports = [],
     nl_enums = [\<lparr>ne_parsed = no_enum, ne_name = ''E'', ne_values = [], ne_parent = Some 1, ne_scoped_name = no_name, ne_c_name = None\<rparr>],
     nl_messages = [sample_message ''A'' None, sample_message ''B'' (Some 0)], nl_visible = [],
     nl_needs_math_h = False, nl_needs_string_h = False\<rparr>"

lemma sample_file_names:
  "map (segments \<circ> nm_scoped_name) (nl_messages (named_file sample_file)) = [[''foo'', ''A''], [''foo'', ''A'', ''B'']] \<and>
   map (segments \<circ> ne_scoped_name) (nl_enums (named_file sample_file)) = [[''foo'', ''A'', ''B'', ''E'']]"
  by (simp add: named_file_def sample_file_def named_message_def named_enum_def package_parts_def name_parts_def
      leading_dot_def sample_message_def message_path.simps upt_rec)

lemma compute_scoped_names_correct_witness:
  "delivers (\<lambda>fl'. map (segments \<circ> ne_scoped_name) (nl_enums fl') = [[''foo'', ''A'', ''B'', ''E'']])
     (gremlind_compute_scoped_names (gremlind_arena_init 8 4096 None, ()) sample_file)"
proof (rule delivers_mono [OF compute_scoped_names_correct])
  show "preordered sample_file"
    by (simp add: preordered_def sample_file_def sample_message_def less_Suc_eq nth_Cons')
  show "[] \<notin> set (package_parts sample_file)"
    by (simp add: package_parts_def sample_file_def name_parts_def leading_dot_def)
qed (use sample_file_names in simp)

end
