(* ===== verification/Naming.thy ===== *)
theory Naming
  imports Scoped_Names
begin

text \<open>
  Names of the generated C code, \<open>gremlinc/src/naming.c\<close>: reserved words, the
  conversion to snake case, and the scope that hands every type a name of its own.
  A C string is the text before its terminator.  The state is the scope, whose
  linked list of names is a list with its head first, together with the pool the
  scope's arena pointer designates; \<open>NULL\<close> is \<open>None\<close>.
\<close>

section \<open>Reserved words\<close>

definition c_str :: "string \<Rightarrow> string" where
  "c_str s = takeWhile (\<lambda>c. c \<noteq> nul) s"

definition C_KEYWORDS :: "string list" where
  "C_KEYWORDS =
    [''auto'', ''break'', ''case'', ''char'', ''const'', ''continue'', ''default'',
     ''do'', ''double'', ''else'', ''enum'', ''extern'', ''float'', ''for'', ''goto'',
     ''if'', ''inline'', ''int'', ''long'', ''register'', ''restrict'', ''return'',
     ''short'', ''signed'', ''sizeof'', ''static'', ''struct'', ''switch'',
     ''typedef'', ''union'', ''unsigned'', ''void'', ''volatile'', ''while'',
     ''_Alignas'', ''_Alignof'', ''_Atomic'', ''_Bool'', ''_Complex'', ''_Generic'',
     ''_Imaginary'', ''_Noreturn'', ''_Static_assert'', ''_Thread_local'']"

definition ACSL_RESERVED :: "string list" where
  "ACSL_RESERVED = [''boolean'', ''alignof'']"

definition gremlinc_is_c_keyword :: "string \<Rightarrow> bool" where
  "gremlinc_is_c_keyword name =
     (list_ex (\<lambda>k. k = name) C_KEYWORDS \<or> list_ex (\<lambda>k. k = name) ACSL_RESERVED)"

section \<open>Snake case\<close>

definition is_upper_c :: "char \<Rightarrow> bool" where
  "is_upper_c c \<longleftrightarrow> CHR ''A'' \<le> c \<and> c \<le> CHR ''Z''"

definition is_lower_c :: "char \<Rightarrow> bool" where
  "is_lower_c c \<longleftrightarrow> CHR ''a'' \<le> c \<and> c \<le> CHR ''z''"

definition is_lower_or_digit_c :: "char \<Rightarrow> bool" where
  "is_lower_or_digit_c c \<longleftrightarrow> CHR ''a'' \<le> c \<and> c \<le> CHR ''z'' \<or> CHR ''0'' \<le> c \<and> c \<le> CHR ''9''"

definition insert_underscore :: "string \<Rightarrow> nat \<Rightarrow> bool" where
  "insert_underscore span i =
     (if i > 0 then
        let c = span ! i; prev = span ! (i - 1) in
        if is_lower_or_digit_c prev \<and> is_upper_c c then True
        else is_upper_c prev \<and> is_upper_c c \<and> i + 1 < length span \<and> is_lower_c (span ! (i + 1))
      else False)"

text \<open>\<open>out\<close> holds the characters written so far, so \<open>o\<close> is its length.\<close>

function snake_loop :: "string \<Rightarrow> nat \<Rightarrow> string \<Rightarrow> string" where
  "snake_loop span i out =
     (if i < length span then
        let c = span ! i;
            out1 = (if insert_underscore span i then out @ ''_'' else out) in
        snake_loop span (i + 1)
          (if is_upper_c c then out1 @ [char_of (of_char c + (97 - 65) :: nat)] else out1 @ [c])
      else out)"
  by pat_completeness auto
termination by (relation "measure (\<lambda>(span, i, _). length span - i)") auto

definition gremlinc_to_snake_case :: "'w pool \<Rightarrow> string \<Rightarrow> string option \<times> 'w pool" where
  "gremlinc_to_snake_case p span =
     (let cap = length span * 2 + 1 in
      case pool_alloc cap p of (ok, p1) \<Rightarrow>
        if ok then (Some (snake_loop span 0 []), p1) else (None, p1))"

section \<open>The scope of names\<close>

record gremlinc_name_scope =
  ns_names :: "string list"
  ns_count :: nat

type_synonym 'w naming = "gremlinc_name_scope \<times> 'w pool"

abbreviation (input) sizeof_name_entry :: nat where "sizeof_name_entry \<equiv> 16"

definition gremlinc_name_scope_init :: "gremlinc_name_scope" where
  "gremlinc_name_scope_init = \<lparr>ns_names = [], ns_count = 0\<rparr>"

definition gremlinc_name_scope_has :: "gremlinc_name_scope \<Rightarrow> string \<Rightarrow> bool" where
  "gremlinc_name_scope_has s name = list_ex (\<lambda>e. e = name) (ns_names s)"

definition scope_register :: "'w naming \<Rightarrow> string \<Rightarrow> gremlinp_parsing_error option \<times> 'w naming" where
  "scope_register st name =
     (case st of (s, p) \<Rightarrow>
      case pool_alloc sizeof_name_entry p of (ok, p1) \<Rightarrow>
        if \<not> ok then (Some GREMLINP_ERROR_OUT_OF_MEMORY, (s, p1))
        else (None, (s\<lparr>ns_names := name # ns_names s, ns_count := ns_count s + 1\<rparr>, p1)))"

definition logic_names :: "string list" where
  "logic_names =
    [''integer'', ''gremlin_span_in'', ''gremlin_span_at'', ''enum_wire'',
     ''b'', ''e'', ''ebuf'', ''elen'', ''eoff'', ''hi'', ''hi2'', ''i'', ''it'', ''j'', ''k'', ''len'', ''lo'',
     ''lo2'', ''m'', ''n'', ''offset'', ''out'', ''out_key'', ''out_value'', ''p'', ''q'', ''r'', ''s'',
     ''src'', ''t'', ''w'',
     ''_bcnt'', ''_bd'', ''_bi'', ''_buf'', ''_child_size'', ''_el'', ''_entry'', ''_i'', ''_off'',
     ''_payload'', ''_vspan'']"

fun reserve_loop :: "string list \<Rightarrow> 'w naming \<Rightarrow> gremlinp_parsing_error option \<times> 'w naming" where
  "reserve_loop [] st = (None, st)"
| "reserve_loop (name # names) st =
     (case scope_register st name of (err, st1) \<Rightarrow>
        if err \<noteq> None then (Some GREMLINP_ERROR_OUT_OF_MEMORY, st1)
        else reserve_loop names st1)"

definition gremlinc_name_scope_reserve_logic :: "'w naming \<Rightarrow> gremlinp_parsing_error option \<times> 'w naming" where
  "gremlinc_name_scope_reserve_logic st = reserve_loop logic_names st"

definition arena_dup_with_suffix :: "'w pool \<Rightarrow> string \<Rightarrow> string \<Rightarrow> string option \<times> 'w pool" where
  "arena_dup_with_suffix p src sfx =
     (let total = length src + length sfx + 1 in
      case pool_alloc total p of (ok, p1) \<Rightarrow>
        if \<not> ok then (None, p1) else (Some (c_str (src @ sfx)), p1))"

text \<open>\<open>candidate_1\<close>, \<open>candidate_2\<close>, \<dots>; the suffix is what \<open>snprintf\<close> prints for \<open>_%u\<close>.\<close>

function mangle_loop :: "string \<Rightarrow> nat \<Rightarrow> 'w naming \<Rightarrow> string option \<times> 'w naming" where
  "mangle_loop candidate n st =
     (if n < 1000000 then
        let sfx = ''_'' @ show_nat n in
        if length sfx \<ge> 16 then (None, st)
        else (case arena_dup_with_suffix (snd st) candidate sfx of
          (None, p1) \<Rightarrow> (None, (fst st, p1))
        | (Some t, p1) \<Rightarrow>
            if \<not> gremlinc_name_scope_has (fst st) t then
              (case scope_register (fst st, p1) t of (err, st2) \<Rightarrow>
                 if err \<noteq> None then (None, st2) else (Some t, st2))
            else mangle_loop candidate (n + 1) (fst st, p1))
      else (None, st))"
  by pat_completeness auto
termination by (relation "measure (\<lambda>(_, n, _). 1000000 - n)") auto

definition gremlinc_name_scope_mangle :: "'w naming \<Rightarrow> string \<Rightarrow> string option \<times> 'w naming" where
  "gremlinc_name_scope_mangle st raw =
     (if length raw = 0 then (None, st)
      else case arena_dup_with_suffix (snd st) raw [] of
        (None, p1) \<Rightarrow> (None, (fst st, p1))
      | (Some c0, p1) \<Rightarrow>
          (case (if gremlinc_is_c_keyword c0 then arena_dup_with_suffix p1 raw ''_''
                 else (Some c0, p1)) of
             (None, p2) \<Rightarrow> (None, (fst st, p2))
           | (Some candidate, p2) \<Rightarrow>
               if \<not> gremlinc_name_scope_has (fst st) candidate then
                 (case scope_register (fst st, p2) candidate of (err, st3) \<Rightarrow>
                    if err \<noteq> None then (None, st3) else (Some candidate, st3))
               else mangle_loop candidate 1 (fst st, p2)))"

declare snake_loop.simps [simp del] mangle_loop.simps [simp del]

section \<open>Facts about the mangler\<close>

lemma is_c_keyword_iff: "gremlinc_is_c_keyword name \<longleftrightarrow> name \<in> set C_KEYWORDS \<union> set ACSL_RESERVED"
  by (auto simp: gremlinc_is_c_keyword_def list_ex_iff)

lemma scope_has_iff [simp]: "gremlinc_name_scope_has s name \<longleftrightarrow> name \<in> set (ns_names s)"
  by (auto simp: gremlinc_name_scope_has_def list_ex_iff)

text \<open>The scope that \<open>c\<close> has been added to.\<close>

definition with_name :: "string \<Rightarrow> gremlinc_name_scope \<Rightarrow> gremlinc_name_scope" where
  "with_name c s = s\<lparr>ns_names := c # ns_names s, ns_count := ns_count s + 1\<rparr>"

lemma ns_names_with_name [simp]: "ns_names (with_name c s) = c # ns_names s"
  by (simp add: with_name_def)

lemma ns_count_with_name [simp]: "ns_count (with_name c s) = Suc (ns_count s)"
  by (simp add: with_name_def)

lemma scope_register_None:
  "scope_register st name = (None, st') \<Longrightarrow> fst st' = with_name name (fst st)"
  by (auto simp: scope_register_def with_name_def split: prod.splits if_splits)

lemma scope_register_Some:
  "scope_register st name = (Some e, st') \<Longrightarrow> e = GREMLINP_ERROR_OUT_OF_MEMORY \<and> fst st' = fst st"
  by (auto simp: scope_register_def split: prod.splits if_splits)

lemma c_str_id: "nul \<notin> set s \<Longrightarrow> c_str s = s"
  by (auto simp: c_str_def takeWhile_eq_all_conv)

lemma nul_notin_c_str [simp]: "nul \<notin> set (c_str s)"
  by (auto simp: c_str_def dest: set_takeWhileD)

lemma dup_Some:
  "arena_dup_with_suffix p src sfx = (Some t, p') \<Longrightarrow> t = c_str (src @ sfx)"
  by (auto simp: arena_dup_with_suffix_def split: prod.splits if_splits)

lemma show_nat_no_nul: "nul \<notin> set (show_nat n)"
  using show_nat_digits [of n] by (auto simp: list_all_iff is_digit_def char_le_iff)

lemma show_nat_not_Nil [simp]: "show_nat n \<noteq> []"
  by (subst show_nat.simps) simp

text \<open>The name with the number \<open>k\<close>, and the name the mangler starts from.\<close>

definition numbered :: "string \<Rightarrow> nat \<Rightarrow> string" where
  "numbered base k = base @ ''_'' @ show_nat k"

definition mangle_base :: "string \<Rightarrow> string" where
  "mangle_base raw = (if gremlinc_is_c_keyword (c_str raw) then c_str (raw @ ''_'') else c_str raw)"

lemma show_nat_inj: "show_nat a = show_nat b \<Longrightarrow> a = b"
  by (metis show_nat_value)

lemma numbered_inj: "numbered base j = numbered base k \<Longrightarrow> j = k"
  by (auto simp: numbered_def dest: show_nat_inj)

lemma numbered_neq_base [simp]: "numbered base k \<noteq> base"
  by (simp add: numbered_def)

lemma nul_notin_numbered: "nul \<notin> set base \<Longrightarrow> nul \<notin> set (numbered base k)"
  using show_nat_no_nul by (auto simp: numbered_def)

lemma keywords_end:
  "list_all (\<lambda>w. w \<noteq> [] \<and> \<not> is_digit (last w) \<and> last w \<noteq> CHR ''_'') (C_KEYWORDS @ ACSL_RESERVED)"
  by code_simp

lemma keyword_last:
  "gremlinc_is_c_keyword w \<Longrightarrow> w \<noteq> [] \<and> \<not> is_digit (last w) \<and> last w \<noteq> CHR ''_''"
  using keywords_end by (auto simp: is_c_keyword_iff list_all_iff)

lemma numbered_not_keyword: "\<not> gremlinc_is_c_keyword (numbered base k)"
proof -
  have "is_digit (last (numbered base k))"
    using show_nat_digits [of k] by (simp add: numbered_def list_all_iff)
  then show ?thesis using keyword_last by blast
qed

lemma mangle_base_eq:
  "nul \<notin> set raw \<Longrightarrow> mangle_base raw = (if gremlinc_is_c_keyword raw then raw @ ''_'' else raw)"
  by (simp add: mangle_base_def c_str_id)

lemma nul_notin_mangle_base [simp]: "nul \<notin> set (mangle_base raw)"
  by (simp add: mangle_base_def)

lemma mangle_base_not_keyword: "nul \<notin> set raw \<Longrightarrow> \<not> gremlinc_is_c_keyword (mangle_base raw)"
  using keyword_last [of "raw @ ''_''"] by (auto simp: mangle_base_eq)

text \<open>\<open>c\<close> is the base, or the base with the smallest number that gives a name not taken.\<close>

definition smallest_free :: "string list \<Rightarrow> string \<Rightarrow> string \<Rightarrow> bool" where
  "smallest_free names base c \<longleftrightarrow> c \<notin> set names \<and>
     (c = base \<or> base \<in> set names \<and>
       (\<exists>k. 1 \<le> k \<and> k < 1000000 \<and> c = numbered base k \<and> (\<forall>j. 1 \<le> j \<and> j < k \<longrightarrow> numbered base j \<in> set names)))"

lemma mangle_loop_correct:
  assumes "mangle_loop cand n st = (res, st')" and "nul \<notin> set cand"
    and "\<forall>j. 1 \<le> j \<and> j < n \<longrightarrow> numbered cand j \<in> set (ns_names (fst st))" and "1 \<le> n"
  shows "(case res of None \<Rightarrow> fst st' = fst st
    | Some c \<Rightarrow> fst st' = with_name c (fst st) \<and> c \<notin> set (ns_names (fst st)) \<and>
        (\<exists>k. 1 \<le> k \<and> k < 1000000 \<and> c = numbered cand k
          \<and> (\<forall>j. 1 \<le> j \<and> j < k \<longrightarrow> numbered cand j \<in> set (ns_names (fst st)))))"
  using assms
proof (induction cand n st rule: mangle_loop.induct)
  case (1 cand n st)
  show ?case
  proof (cases "n < 1000000 \<and> length (''_'' @ show_nat n) < 16")
    case False
    then have "mangle_loop cand n st = (None, st)"
      by (cases "n < 1000000") (simp_all add: mangle_loop.simps [of cand n st])
    then show ?thesis using "1.prems"(1) by auto
  next
    case True
    obtain t p1 where d: "arena_dup_with_suffix (snd st) cand (''_'' @ show_nat n) = (t, p1)"
      by (metis surj_pair)
    show ?thesis
    proof (cases t)
      case None
      then show ?thesis using "1.prems"(1) True d
        by (subst (asm) mangle_loop.simps) (auto simp: Let_def)
    next
      case (Some x)
      have x: "x = numbered cand n"
        using dup_Some [OF d [unfolded Some]] nul_notin_numbered [OF "1.prems"(2), of n]
        by (simp add: numbered_def c_str_id)
      show ?thesis
      proof (cases "x \<in> set (ns_names (fst st))")
        case False
        obtain err st2 where r: "scope_register (fst st, p1) x = (err, st2)" by (metis surj_pair)
        have "(res, st') = (if err \<noteq> None then (None, st2) else (Some x, st2))"
          using "1.prems"(1) True d Some False r
          by (subst (asm) mangle_loop.simps) (auto simp: Let_def)
        then show ?thesis
          using r scope_register_None [of _ x st2] scope_register_Some [of _ x _ st2] x True False "1.prems"(3,4)
          by (cases err) auto
      next
        case taken: True
        have rec: "mangle_loop cand (n + 1) (fst st, p1) = (res, st')"
          using "1.prems"(1) True d Some taken
          by (subst (asm) mangle_loop.simps) (auto simp: Let_def)
        have "\<forall>j. 1 \<le> j \<and> j < n + 1 \<longrightarrow> numbered cand j \<in> set (ns_names (fst st))"
          using "1.prems"(3) taken x by (metis less_Suc_eq Suc_eq_plus1)
        then show ?thesis
          using "1.IH" [OF _ refl _ d [symmetric] Some _ rec "1.prems"(2)] True taken
          by (auto split: option.splits)
      qed
    qed
  qed
qed

lemma mangle_correct:
  assumes "gremlinc_name_scope_mangle st raw = (res, st')"
  shows "(case res of None \<Rightarrow> fst st' = fst st
    | Some c \<Rightarrow> raw \<noteq> [] \<and> fst st' = with_name c (fst st) \<and>
        smallest_free (ns_names (fst st)) (mangle_base raw) c)"
proof (cases "raw = []")
  case True
  then show ?thesis using assms(1) by (auto simp: gremlinc_name_scope_mangle_def)
next
  case False
  obtain c0 p1 where d: "arena_dup_with_suffix (snd st) raw [] = (c0, p1)" by (metis surj_pair)
  show ?thesis
  proof (cases c0)
    case None
    then show ?thesis using assms(1) False d by (auto simp: gremlinc_name_scope_mangle_def)
  next
    case (Some x)
    then have x: "x = c_str raw" using dup_Some [OF d [unfolded Some]] by simp
    obtain c1 p2 where d2: "(if gremlinc_is_c_keyword x then arena_dup_with_suffix p1 raw ''_'' else (Some x, p1)) = (c1, p2)"
      by (metis surj_pair)
    show ?thesis
    proof (cases c1)
      case None
      then show ?thesis using assms(1) False d d2 Some by (auto simp: gremlinc_name_scope_mangle_def)
    next
      case c1: (Some cand)
      have cand: "cand = mangle_base raw"
        using d2 c1 dup_Some [of p1 raw "''_''" cand p2] x
        by (auto simp: mangle_base_def split: if_splits)
      show ?thesis
      proof (cases "cand \<in> set (ns_names (fst st))")
        case free: False
        obtain err st3 where r: "scope_register (fst st, p2) cand = (err, st3)" by (metis surj_pair)
        have "(res, st') = (if err \<noteq> None then (None, st3) else (Some cand, st3))"
          using assms(1) False d d2 Some c1 free r
          by (auto simp: gremlinc_name_scope_mangle_def)
        then show ?thesis
          using r scope_register_None [of _ cand st3] scope_register_Some [of _ cand _ st3] free False
          by (cases err) (auto simp: smallest_free_def cand)
      next
        case taken: True
        have rec: "mangle_loop cand 1 (fst st, p2) = (res, st')"
          using assms(1) False d d2 Some c1 taken by (auto simp: gremlinc_name_scope_mangle_def)
        show ?thesis
          using mangle_loop_correct [OF rec] False taken cand
          by (auto simp: smallest_free_def split: option.splits)
      qed
    qed
  qed
qed

section \<open>The mangler does not give up\<close>

lemma length_show_nat: "n < 10 ^ Suc k \<Longrightarrow> length (show_nat n) \<le> Suc k"
proof (induction k arbitrary: n)
  case 0
  then show ?case by (simp add: show_nat.simps [of n])
next
  case (Suc k)
  then have "n div 10 < 10 ^ Suc k" by (simp add: div_less_iff_less_mult)
  then show ?case using Suc.IH [of "n div 10"] by (simp add: show_nat.simps [of n])
qed

lemma dup_room:
  assumes "has_room (length src + length sfx + 8 + b) p"
  shows "\<exists>p'. arena_dup_with_suffix p src sfx = (Some (c_str (src @ sfx)), p') \<and> has_room b p'"
  using has_room_alloc [OF has_room_mono [OF assms, of "align_up (length src + length sfx + 1) + b"]]
    align_up_bounds(2) [of "length src + length sfx + 1"]
  by (auto simp: arena_dup_with_suffix_def)

lemma register_room:
  assumes "has_room 16 (snd st)"
  shows "\<exists>st'. scope_register st name = (None, st')"
  using has_room_alloc [of 16 0 "snd st"] assms
  by (auto simp: scope_register_def align_up_def split: prod.splits)

lemma numbered_card:
  assumes "base \<in> set names" and "\<forall>j. 1 \<le> j \<and> j < n \<longrightarrow> numbered base j \<in> set names" and "1 \<le> n"
  shows "n \<le> length names"
proof -
  have "insert base (numbered base ` {1..<n}) \<subseteq> set names" using assms(1,2) by auto
  then have "card (insert base (numbered base ` {1..<n})) \<le> length names"
    by (meson card_length card_mono finite_set le_trans)
  moreover have "inj_on (numbered base) {1..<n}" by (meson inj_onI numbered_inj)
  moreover have "base \<notin> numbered base ` {1..<n}" using numbered_neq_base by (metis imageE)
  ultimately show ?thesis using assms(3) by (simp add: card_image)
qed

lemma mangle_loop_total:
  assumes "cand \<in> set (ns_names (fst st))" and "nul \<notin> set cand" and "1 \<le> n"
    and "\<forall>j. 1 \<le> j \<and> j < n \<longrightarrow> numbered cand j \<in> set (ns_names (fst st))"
    and "length (ns_names (fst st)) < 1000000"
    and "has_room ((length (ns_names (fst st)) + 1 - n) * (length cand + 16) + 16) (snd st)"
  shows "\<exists>c st'. mangle_loop cand n st = (Some c, st')"
  using assms
proof (induction cand n st rule: mangle_loop.induct)
  case (1 cand n st)
  have n: "n \<le> length (ns_names (fst st))" using numbered_card "1.prems"(1,3,4) by blast
  then have lt: "n < 1000000" using "1.prems"(5) by simp
  then have len: "length (show_nat n) \<le> 6" using length_show_nat [of n 5] by simp
  let ?r = "(length (ns_names (fst st)) + 1 - Suc n) * (length cand + 16) + 16"
  have "(length (ns_names (fst st)) + 1 - n) * (length cand + 16) + 16 = (length cand + 16) + ?r"
    using n by (simp add: Suc_diff_le)
  then have "has_room (length cand + length (''_'' @ show_nat n) + 8 + ?r) (snd st)"
    using has_room_mono [OF "1.prems"(6)] len by simp
  from dup_room [OF this] obtain p1 where
    d: "arena_dup_with_suffix (snd st) cand (''_'' @ show_nat n) = (Some (c_str (cand @ ''_'' @ show_nat n)), p1)"
    and p1: "has_room ?r p1" by blast
  have x: "c_str (cand @ ''_'' @ show_nat n) = numbered cand n"
    using nul_notin_numbered [OF "1.prems"(2), of n] by (simp add: numbered_def c_str_id)
  note d' = d [unfolded x]
  show ?case
  proof (cases "numbered cand n \<in> set (ns_names (fst st))")
    case False
    obtain st2 where "scope_register (fst st, p1) (numbered cand n) = (None, st2)"
      using register_room [of "(fst st, p1)" "numbered cand n"] has_room_mono [OF p1, of 16] by auto
    then show ?thesis using d' lt len False by (cases st2) (simp add: mangle_loop.simps [of cand n st] Let_def)
  next
    case True
    then have tk: "\<forall>j. 1 \<le> j \<and> j < n + 1 \<longrightarrow> numbered cand j \<in> set (ns_names (fst st))"
      using "1.prems"(4) by (metis less_Suc_eq Suc_eq_plus1)
    have "\<exists>c st'. mangle_loop cand (n + 1) (fst st, p1) = (Some c, st')"
      using "1.IH" [OF lt refl _ d' [symmetric] refl] True "1.prems"(1,2,5) tk p1 len by simp
    moreover have "mangle_loop cand n st = mangle_loop cand (n + 1) (fst st, p1)"
      using d' lt len True by (simp add: mangle_loop.simps [of cand n st] Let_def)
    ultimately show ?thesis by simp
  qed
qed

lemma mangle_total:
  assumes "raw \<noteq> []" and "nul \<notin> set raw" and "length (ns_names (fst st)) < 1000000"
    and room: "has_room ((length (ns_names (fst st)) + 3) * (length raw + 17)) (snd st)"
  shows "\<exists>c st'. gremlinc_name_scope_mangle st raw = (Some c, st')"
proof -
  let ?k = "length (ns_names (fst st))"
  let ?l = "length (mangle_base raw)"
  have l: "?l \<le> Suc (length raw)" using assms(2) by (simp add: mangle_base_eq)
  have "has_room (length raw + length ([] :: string) + 8 + (length raw + 9 + (?k * (length raw + 17) + 16))) (snd st)"
    using has_room_mono [OF room] by (simp add: algebra_simps)
  from dup_room [OF this] obtain p1 where d: "arena_dup_with_suffix (snd st) raw [] = (Some raw, p1)"
    and p1: "has_room (length raw + 9 + (?k * (length raw + 17) + 16)) p1"
    using assms(2) by (auto simp: c_str_id)
  have "\<exists>p2. (if gremlinc_is_c_keyword raw then arena_dup_with_suffix p1 raw ''_'' else (Some raw, p1))
      = (Some (mangle_base raw), p2) \<and> has_room (?k * (length raw + 17) + 16) p2"
  proof (cases "gremlinc_is_c_keyword raw")
    case True
    then show ?thesis
      using dup_room [of raw "''_''" "?k * (length raw + 17) + 16" p1] p1 assms(2)
      by (simp add: mangle_base_eq c_str_id add.commute add.left_commute)
  next
    case False
    then show ?thesis using has_room_mono [OF p1] assms(2) by (simp add: mangle_base_eq)
  qed
  then obtain p2 where d2: "(if gremlinc_is_c_keyword raw then arena_dup_with_suffix p1 raw ''_'' else (Some raw, p1))
      = (Some (mangle_base raw), p2)" and p2: "has_room (?k * (length raw + 17) + 16) p2" by blast
  show ?thesis
  proof (cases "mangle_base raw \<in> set (ns_names (fst st))")
    case False
    obtain st3 where "scope_register (fst st, p2) (mangle_base raw) = (None, st3)"
      using register_room [of "(fst st, p2)" "mangle_base raw"] has_room_mono [OF p2, of 16] by auto
    then show ?thesis using assms(1) d d2 False by (cases st3) (simp add: gremlinc_name_scope_mangle_def)
  next
    case True
    have "?k * (?l + 16) \<le> ?k * (length raw + 17)" using l by (intro mult_left_mono) auto
    then have "has_room ((?k + 1 - 1) * (?l + 16) + 16) p2" using has_room_mono [OF p2] by simp
    then have "\<exists>c st'. mangle_loop (mangle_base raw) 1 (fst st, p2) = (Some c, st')"
      using mangle_loop_total [of "mangle_base raw" "(fst st, p2)" 1] True assms(3) by simp
    then show ?thesis using assms(1) d d2 True by (simp add: gremlinc_name_scope_mangle_def)
  qed
qed

section \<open>Snake case\<close>

text \<open>The same conversion as a function of the list, with the character before.\<close>

fun snake_spec :: "char option \<Rightarrow> string \<Rightarrow> string" where
  "snake_spec _ [] = []"
| "snake_spec prev (c # cs) =
     (case prev of None \<Rightarrow> []
      | Some p \<Rightarrow>
          if is_upper_c c \<and> (is_lower_or_digit_c p \<or> is_upper_c p \<and> cs \<noteq> [] \<and> is_lower_c (hd cs))
          then ''_'' else []) @ lower_char c # snake_spec (Some c) cs"

lemma lower_char_alt: "lower_char c = (if is_upper_c c then char_of (of_char c + 32 :: nat) else c)"
  by (simp add: lower_char_def is_upper_c_def)

lemma snake_loop_eq:
  "i \<le> length span \<Longrightarrow>
   snake_loop span i out = out @ snake_spec (if i = 0 then None else Some (span ! (i - 1))) (drop i span)"
proof (induction span i out rule: snake_loop.induct)
  case (1 span i out)
  show ?case
  proof (cases "i < length span")
    case True
    have d: "drop i span = span ! i # drop (Suc i) span" using True by (simp add: Cons_nth_drop_Suc)
    have h: "drop (Suc i) span \<noteq> [] \<longleftrightarrow> i + 1 < length span"
      "i + 1 < length span \<Longrightarrow> hd (drop (Suc i) span) = span ! (i + 1)"
      by (auto simp: hd_drop_conv_nth)
    have u: "insert_underscore span i \<longleftrightarrow> i > 0 \<and> is_upper_c (span ! i) \<and>
        (is_lower_or_digit_c (span ! (i - 1)) \<or>
         is_upper_c (span ! (i - 1)) \<and> drop (Suc i) span \<noteq> [] \<and> is_lower_c (hd (drop (Suc i) span)))"
      using h by (auto simp: insert_underscore_def Let_def)
    have "snake_loop span i out =
        snake_loop span (i + 1) (out @ (if insert_underscore span i then ''_'' else []) @ [lower_char (span ! i)])"
      using True by (simp add: snake_loop.simps [of span i out] Let_def lower_char_alt)
    also have "\<dots> = out @ (if insert_underscore span i then ''_'' else []) @ lower_char (span ! i) #
        snake_spec (Some (span ! i)) (drop (Suc i) span)"
      using "1.IH" [OF True refl refl] True
      by (cases "is_upper_c (span ! i)"; cases "insert_underscore span i") (simp_all add: lower_char_alt Let_def)
    finally show ?thesis unfolding d by (auto simp: u)
  next
    case False
    then show ?thesis using "1.prems" by (simp add: snake_loop.simps [of span "length span" out])
  qed
qed

lemma to_snake_case_eq:
  "gremlinc_to_snake_case p span =
     (case pool_alloc (length span * 2 + 1) p of (ok, p1) \<Rightarrow>
        (if ok then Some (snake_spec None span) else None, p1))"
  by (auto simp: gremlinc_to_snake_case_def snake_loop_eq split: prod.split)

lemma length_snake_spec: "length (snake_spec prev s) \<le> 2 * length s"
  by (induction prev s rule: snake_spec.induct) (auto split: option.split)

lemma lower_char_not_upper: "\<not> is_upper_c (lower_char c)"
proof -
  have "of_char (char_of (of_char c + 32 :: nat) :: char) = (of_char c + 32 :: nat)"
    if "of_char c \<le> (90 :: nat)" using that by (simp add: of_char_of take_bit_eq_mod)
  then show ?thesis by (auto simp: lower_char_alt is_upper_c_def char_le_iff)
qed

lemma snake_spec_no_upper: "\<forall>c \<in> set (snake_spec prev s). \<not> is_upper_c c"
proof -
  have "\<not> is_upper_c (CHR ''_'')" by (simp add: is_upper_c_def char_le_iff)
  then show ?thesis
    using lower_char_not_upper
    by (induction prev s rule: snake_spec.induct) (auto split: option.split)
qed

lemma snake_spec_id: "\<forall>c \<in> set s. \<not> is_upper_c c \<Longrightarrow> snake_spec prev s = s"
  by (induction prev s rule: snake_spec.induct) (auto simp: lower_char_alt split: option.split)

lemma snake_spec_letters:
  "filter (\<lambda>c. c \<noteq> CHR ''_'') (snake_spec prev s) = filter (\<lambda>c. c \<noteq> CHR ''_'') (map lower_char s)"
  by (induction prev s rule: snake_spec.induct) (auto split: option.split)

text \<open>
  A word begins at position \<open>i\<close>: a capital after a small letter or a digit, or the
  last capital of a run, before a small letter.
\<close>

definition word_begins :: "string \<Rightarrow> nat \<Rightarrow> bool" where
  "word_begins s i \<longleftrightarrow> 0 < i \<and> is_upper_c (s ! i) \<and>
     (is_lower_or_digit_c (s ! (i - 1)) \<or>
      is_upper_c (s ! (i - 1)) \<and> i + 1 < length s \<and> is_lower_c (s ! (i + 1)))"

lemma snake_loop_boundaries:
  "i \<le> length span \<Longrightarrow> snake_loop span i out =
     out @ concat (map (\<lambda>k. (if word_begins span k then ''_'' else []) @ [lower_char (span ! k)]) [i..<length span])"
proof (induction span i out rule: snake_loop.induct)
  case (1 span i out)
  have "insert_underscore span i = word_begins span i"
    by (auto simp: insert_underscore_def word_begins_def Let_def)
  then show ?case
    using "1.IH" [OF _ refl refl] "1.prems"
    by (cases "i < length span"; cases "is_upper_c (span ! i)"; cases "word_begins span i")
       (simp_all add: snake_loop.simps [of span i out] snake_loop.simps [of span "length span" out]
          upt_conv_Cons lower_char_alt Let_def)
qed

text \<open>Conversion to snake case: the result is the text in small letters with an
  underscore where a word begins, fits in the buffer of twice its length, has no
  capital left, keeps every other character, and is not changed by converting it
  again; it fails only when the allocation does.\<close>
theorem to_snake_case_correct:
  fixes p :: "'w pool"
  assumes "gremlinc_to_snake_case p span = (res, p1)"
  shows "p1 = snd (pool_alloc (2 * length span + 1) p)
    \<and> (res = None \<longleftrightarrow> \<not> fst (pool_alloc (2 * length span + 1) p))
    \<and> (\<forall>out. res = Some out \<longrightarrow>
        out = concat (map (\<lambda>k. (if word_begins span k then ''_'' else []) @ [lower_char (span ! k)]) [0..<length span])
        \<and> length out < 2 * length span + 1
        \<and> (\<forall>c \<in> set out. \<not> is_upper_c c)
        \<and> filter (\<lambda>c. c \<noteq> CHR ''_'') out = filter (\<lambda>c. c \<noteq> CHR ''_'') (map lower_char span)
        \<and> (\<forall>(q :: 'w pool) again q1. gremlinc_to_snake_case q out = (Some again, q1) \<longrightarrow> again = out))"
proof -
  obtain ok p2 where a: "pool_alloc (2 * length span + 1) p = (ok, p2)" by (metis surj_pair)
  have r: "res = (if ok then Some (snake_spec None span) else None)" "p1 = p2"
    using assms a by (simp_all add: to_snake_case_eq mult.commute)
  have again: "gremlinc_to_snake_case q (snake_spec None span) = (Some x, q1) \<Longrightarrow> x = snake_spec None span"
    for q q1 :: "'w pool" and x
    using snake_spec_id [OF snake_spec_no_upper, of None None span]
    by (auto simp: to_snake_case_eq split: prod.splits if_splits)
  have e: "snake_spec None span =
      concat (map (\<lambda>k. (if word_begins span k then ''_'' else []) @ [lower_char (span ! k)]) [0..<length span])"
    using snake_loop_eq [of 0 span "[]"] snake_loop_boundaries [of 0 span "[]"] by simp
  show ?thesis
    unfolding e [symmetric]
    using r a length_snake_spec [of None span] snake_spec_no_upper [of None span]
      snake_spec_letters [of None span]
    by (auto simp: less_Suc_eq_le intro: again)
qed

lemma to_snake_case_correct_witness:
  "gremlinc_to_snake_case (sample_pool 0) ''APIKeyId2X'' = (Some ''api_key_id2_x'', sample_pool 24)
   \<and> (\<forall>c \<in> set ''api_key_id2_x''. \<not> is_upper_c c)"
proof -
  have "pool_alloc 21 (sample_pool 0) = (True, sample_pool 24)"
    using sample_pool_alloc [of 21 0] by (simp add: align_up_def)
  moreover have "snake_spec None ''APIKeyId2X'' = ''api_key_id2_x''" by code_simp
  ultimately have "gremlinc_to_snake_case (sample_pool 0) ''APIKeyId2X'' = (Some ''api_key_id2_x'', sample_pool 24)"
    by (simp add: to_snake_case_eq)
  then show ?thesis using to_snake_case_correct [of "sample_pool 0" "''APIKeyId2X''"] by blast
qed

end
