(* ===== verification/Text_Writer.thy ===== *)
theory Text_Writer
  imports Naming
begin

text \<open>
  The text buffer the generator prints into, \<open>gremlinc/src/writer.c\<close>.  Of the
  buffer the model keeps the characters written, whose number is \<open>offset\<close>, its
  capacity and whether the writer owns it.  Whether an allocation of \<open>malloc\<close> or
  \<open>realloc\<close> succeeds is a function of its size that the operations take as an
  argument.  An operation that does not return has the value \<open>None\<close>: the loop that
  doubles the capacity would not end on an empty buffer, and part of the property
  is that no writer the code makes has one.
\<close>

section \<open>Operations\<close>

record gremlinc_writer =
  tw_text :: string
  tw_cap :: nat
  tw_owns :: bool

definition gremlinc_writer_init :: "nat \<Rightarrow> gremlinc_writer" where
  "gremlinc_writer_init cap = \<lparr>tw_text = [], tw_cap = cap, tw_owns = False\<rparr>"

definition gremlinc_writer_init_owned :: "(nat \<Rightarrow> bool) \<Rightarrow> nat \<Rightarrow> gremlinc_writer option" where
  "gremlinc_writer_init_owned allocates initial_cap =
     (let cap = (if initial_cap < 64 then 64 else initial_cap) in
      if \<not> allocates cap then None
      else Some \<lparr>tw_text = [], tw_cap = cap, tw_owns = True\<rparr>)"

definition gremlinc_writer_dispose :: "gremlinc_writer \<Rightarrow> gremlinc_writer" where
  "gremlinc_writer_dispose w =
     (if \<not> tw_owns w then w else \<lparr>tw_text = [], tw_cap = 0, tw_owns = False\<rparr>)"

partial_function (option) double_cap :: "nat \<Rightarrow> nat \<Rightarrow> nat option" where
  "double_cap new_cap need = (if new_cap < need then double_cap (new_cap * 2) need else Some new_cap)"

definition ensure_cap :: "(nat \<Rightarrow> bool) \<Rightarrow> gremlinc_writer \<Rightarrow> nat \<Rightarrow> (bool \<times> gremlinc_writer) option" where
  "ensure_cap allocates w need =
     (if need \<le> tw_cap w then Some (True, w)
      else if \<not> tw_owns w then Some (False, w)
      else case double_cap (tw_cap w) need of
        None \<Rightarrow> None
      | Some new_cap \<Rightarrow>
          if \<not> allocates new_cap then Some (False, w)
          else Some (True, w\<lparr>tw_cap := new_cap\<rparr>))"

definition gremlinc_write :: "(nat \<Rightarrow> bool) \<Rightarrow> gremlinc_writer \<Rightarrow> string \<Rightarrow>
    (gremlinp_parsing_error option \<times> gremlinc_writer) option" where
  "gremlinc_write allocates w s =
     (case ensure_cap allocates w (length (tw_text w) + length s) of
        None \<Rightarrow> None
      | Some (ok, w1) \<Rightarrow>
          if \<not> ok then Some (Some GREMLINP_ERROR_BUFFER_OVERFLOW, w1)
          else Some (None, w1\<lparr>tw_text := tw_text w1 @ s\<rparr>))"

definition gremlinc_write_cstr :: "(nat \<Rightarrow> bool) \<Rightarrow> gremlinc_writer \<Rightarrow> string \<Rightarrow>
    (gremlinp_parsing_error option \<times> gremlinc_writer) option" where
  "gremlinc_write_cstr allocates w s = gremlinc_write allocates w (c_str s)"

definition gremlinc_write_i32 :: "(nat \<Rightarrow> bool) \<Rightarrow> gremlinc_writer \<Rightarrow> int \<Rightarrow>
    (gremlinp_parsing_error option \<times> gremlinc_writer) option" where
  "gremlinc_write_i32 allocates w v =
     (let text = show_int v in
      if length text \<ge> 16 then Some (Some GREMLINP_ERROR_OVERFLOW, w)
      else gremlinc_write allocates w text)"

function trim_loop :: "string \<Rightarrow> string" where
  "trim_loop text =
     (if length text \<ge> 2 \<and> text ! (length text - 1) = newline \<and> text ! (length text - 2) = newline
      then trim_loop (butlast text) else text)"
  by pat_completeness auto
termination by (relation "measure length") auto

definition gremlinc_writer_trim_trailing_blank :: "gremlinc_writer \<Rightarrow> gremlinc_writer" where
  "gremlinc_writer_trim_trailing_blank w = w\<lparr>tw_text := trim_loop (tw_text w)\<rparr>"

declare trim_loop.simps [simp del]

section \<open>The doubling loop\<close>

lemma double_cap_ends:
  assumes "0 < cap"
  shows "\<exists>k. double_cap cap need = Some (cap * 2 ^ k) \<and> need \<le> cap * 2 ^ k \<and>
    (k = 0 \<or> cap * 2 ^ k < 2 * need)"
  using assms
proof (induction "need - cap" arbitrary: cap rule: less_induct)
  case less
  show ?case
  proof (cases "cap < need")
    case True
    obtain k where k: "double_cap (cap * 2) need = Some (cap * 2 * 2 ^ k)" "need \<le> cap * 2 * 2 ^ k"
      "k = 0 \<or> cap * 2 * 2 ^ k < 2 * need"
      using less.hyps [of "cap * 2"] less.prems True by fastforce
    then have "double_cap cap need = Some (cap * 2 ^ Suc k)" "need \<le> cap * 2 ^ Suc k" "cap * 2 ^ Suc k < 2 * need"
      using True by (auto simp: double_cap.simps [of cap] ac_simps)
    then show ?thesis by blast
  next
    case False
    then show ?thesis by (intro exI [of _ 0]) (simp add: double_cap.simps [of cap])
  qed
qed

text \<open>What every writer the code makes keeps: an owned buffer is not empty.\<close>

definition valid_text_writer :: "gremlinc_writer \<Rightarrow> bool" where
  "valid_text_writer w \<longleftrightarrow> length (tw_text w) \<le> tw_cap w \<and> (tw_owns w \<longrightarrow> 0 < tw_cap w)"

text \<open>The capacity a writer grows to.\<close>

definition grown_cap :: "gremlinc_writer \<Rightarrow> nat \<Rightarrow> nat" where
  "grown_cap w need = the (double_cap (tw_cap w) need)"

lemma write_cases:
  assumes "valid_text_writer w"
  shows "gremlinc_write allocates w s = Some
    (let need = length (tw_text w) + length s in
     if need \<le> tw_cap w then (None, w\<lparr>tw_text := tw_text w @ s\<rparr>)
     else if tw_owns w \<and> allocates (grown_cap w need)
     then (None, w\<lparr>tw_text := tw_text w @ s, tw_cap := grown_cap w need\<rparr>)
     else (Some GREMLINP_ERROR_BUFFER_OVERFLOW, w))"
proof (cases "tw_owns w")
  case True
  then have "0 < tw_cap w" using assms by (simp add: valid_text_writer_def)
  then show ?thesis
    using double_cap_ends [of "tw_cap w" "length (tw_text w) + length s"]
    by (auto simp: gremlinc_write_def ensure_cap_def grown_cap_def Let_def)
qed (simp add: gremlinc_write_def ensure_cap_def Let_def)

lemma grown_cap_bounds:
  "valid_text_writer w \<Longrightarrow> tw_owns w \<Longrightarrow> tw_cap w < need \<Longrightarrow> need \<le> grown_cap w need \<and> grown_cap w need < 2 * need"
  using double_cap_ends [of "tw_cap w" need] by (auto simp: valid_text_writer_def grown_cap_def)

lemma length_show_int: "- (2 ^ 31) \<le> v \<Longrightarrow> v < 2 ^ 31 \<Longrightarrow> length (show_int v) \<le> 11"
  using length_show_nat [of "nat v" 9] length_show_nat [of "nat (- v)" 9]
  by (cases "v < 0") (simp_all add: show_int_def nat_less_iff)

lemma trim_loop_spec:
  "\<exists>k. xs = trim_loop xs @ replicate k newline \<and>
     (\<forall>t. trim_loop xs \<noteq> t @ [newline, newline]) \<and> (k = 0 \<or> (\<exists>t. trim_loop xs = t @ [newline]))"
proof (induction xs rule: trim_loop.induct)
  case (1 xs)
  show ?case
  proof (cases "length xs \<ge> 2 \<and> xs ! (length xs - 1) = newline \<and> xs ! (length xs - 2) = newline")
    case True
    have e: "trim_loop xs = trim_loop (butlast xs)" using True by (simp add: trim_loop.simps [of xs])
    obtain k where k: "butlast xs = trim_loop xs @ replicate k newline"
        "\<forall>t. trim_loop xs \<noteq> t @ [newline, newline]" "k = 0 \<or> (\<exists>t. trim_loop xs = t @ [newline])"
      using "1.IH" [OF True] e by auto
    have l: "xs = butlast xs @ [newline]"
      using True by (metis append_butlast_last_id last_conv_nth list.size(3) not_numeral_le_zero)
    then have "xs = trim_loop xs @ replicate (Suc k) newline"
      using k(1) by (simp add: replicate_append_same)
    moreover have "\<exists>t. trim_loop xs = t @ [newline]"
    proof (cases "k = 0")
      case k0: True
      have "butlast xs \<noteq> []" "last (butlast xs) = newline"
        using True by (auto simp: last_conv_nth nth_butlast numeral_2_eq_2 simp flip: length_0_conv)
      then show ?thesis using k(1) k0 by (metis append.right_neutral append_butlast_last_id replicate_0)
    qed (use k(3) in blast)
    ultimately show ?thesis using k(2) by blast
  next
    case False
    then have "trim_loop xs = xs" by (subst trim_loop.simps) (simp only: if_False)
    moreover have "xs \<noteq> t @ [newline, newline]" for t
      using False by (auto simp: nth_append)
    ultimately show ?thesis by (intro exI [of _ 0]) auto
  qed
qed

section \<open>Printing\<close>

text \<open>A sequence of writes, stopped by the first error as the emitters' macro does.\<close>

fun write_all :: "(nat \<Rightarrow> bool) \<Rightarrow> gremlinc_writer \<Rightarrow> string list \<Rightarrow>
    (gremlinp_parsing_error option \<times> gremlinc_writer) option" where
  "write_all allocates w [] = Some (None, w)"
| "write_all allocates w (s # ss) =
     (case gremlinc_write allocates w s of
        None \<Rightarrow> None
      | Some (err, w1) \<Rightarrow> if err \<noteq> None then Some (err, w1) else write_all allocates w1 ss)"

lemma valid_init: "valid_text_writer (gremlinc_writer_init cap)"
  by (simp add: valid_text_writer_def gremlinc_writer_init_def)

lemma valid_init_owned: "gremlinc_writer_init_owned allocates n = Some w \<Longrightarrow> valid_text_writer w \<and> tw_text w = []"
  by (auto simp: valid_text_writer_def gremlinc_writer_init_owned_def Let_def split: if_splits)

lemma valid_write:
  "valid_text_writer w \<Longrightarrow> gremlinc_write allocates w s = Some (err, w') \<Longrightarrow> valid_text_writer w' \<and> tw_owns w' = tw_owns w"
  using grown_cap_bounds [of w "length (tw_text w) + length s"]
  by (auto simp: write_cases Let_def valid_text_writer_def split: if_splits)



text \<open>A number always fits the scratch buffer it is printed to.\<close>

lemma write_i32_eq:
  "- (2 ^ 31) \<le> v \<Longrightarrow> v < 2 ^ 31 \<Longrightarrow> gremlinc_write_i32 allocates w v = gremlinc_write allocates w (show_int v)"
  using length_show_int [of v] by (simp add: gremlinc_write_i32_def Let_def)

text \<open>Trimming leaves the text without the blank lines at its end.\<close>

lemma trim_trailing_blank_eq:
  "valid_text_writer w \<Longrightarrow> valid_text_writer (gremlinc_writer_trim_trailing_blank w) \<and>
   (\<exists>k. tw_text w = tw_text (gremlinc_writer_trim_trailing_blank w) @ replicate k newline) \<and>
   (\<forall>t. tw_text (gremlinc_writer_trim_trailing_blank w) \<noteq> t @ [newline, newline])"
proof -
  obtain k where k: "tw_text w = trim_loop (tw_text w) @ replicate k newline"
      "\<forall>t. trim_loop (tw_text w) \<noteq> t @ [newline, newline]"
    using trim_loop_spec [of "tw_text w"] by auto
  have "length (trim_loop (tw_text w)) \<le> length (tw_text w)" by (subst (2) k(1)) simp
  then show "valid_text_writer w \<Longrightarrow> ?thesis"
    using k by (auto simp: valid_text_writer_def gremlinc_writer_trim_trailing_blank_def)
qed

end
