(* ===== verification/Const_Convert.thy ===== *)
theory Const_Convert
  imports Nodes
begin

text \<open>
  Defaults of fields as C constants, \<open>gremlinc/src/const_convert.c\<close>.  A
  constant is what the parser read, its spans positions in the buffer \<open>b\<close>; a
  result holds a value and an error, \<open>None\<close> for \<open>GREMLINP_OK\<close>.  An \<open>int32_t\<close> and
  its kin are integers, and the casts to them are written out as truncations of
  words; floats and doubles are their bit patterns.
\<close>

section \<open>Operations\<close>

record 'a convert_result =
  cr_value :: 'a
  cr_error :: "gremlinp_parsing_error option"

definition converted :: "'a \<Rightarrow> 'a convert_result" where
  "converted v = \<lparr>cr_value = v, cr_error = None\<rparr>"

definition rejected :: "'a \<Rightarrow> gremlinp_parsing_error \<Rightarrow> 'a convert_result" where
  "rejected zero e = \<lparr>cr_value = zero, cr_error = Some e\<rparr>"

abbreviation (input) INT32_MIN :: int where "INT32_MIN \<equiv> - 2147483648"
abbreviation (input) INT32_MAX :: int where "INT32_MAX \<equiv> 2147483647"
abbreviation (input) INT64_MAX :: int where "INT64_MAX \<equiv> 9223372036854775807"
abbreviation (input) UINT32_MAX :: int where "UINT32_MAX \<equiv> 4294967295"

definition int32_cast :: "int \<Rightarrow> int" where "int32_cast v = sint (word_of_int v :: 32 word)"
definition int64_cast :: "int \<Rightarrow> int" where "int64_cast v = sint (word_of_int v :: 64 word)"
definition uint32_cast :: "int \<Rightarrow> int" where "uint32_cast v = uint (word_of_int v :: 32 word)"
definition uint64_cast :: "int \<Rightarrow> int" where "uint64_cast v = uint (word_of_int v :: 64 word)"

definition gremlinc_const_to_int32 :: "gremlinp_const \<Rightarrow> int convert_result" where
  "gremlinc_const_to_int32 c =
     (case c of
        GREMLINP_CONST_INT v \<Rightarrow>
          if v < INT32_MIN \<or> v > INT32_MAX then rejected 0 GREMLINP_ERROR_OVERFLOW
          else converted (int32_cast v)
      | GREMLINP_CONST_UINT u \<Rightarrow>
          if int u > INT32_MAX then rejected 0 GREMLINP_ERROR_OVERFLOW
          else converted (int32_cast (int u))
      | _ \<Rightarrow> rejected 0 GREMLINP_ERROR_INVALID_FIELD_VALUE)"

definition gremlinc_const_to_int64 :: "gremlinp_const \<Rightarrow> int convert_result" where
  "gremlinc_const_to_int64 c =
     (case c of
        GREMLINP_CONST_INT v \<Rightarrow> converted v
      | GREMLINP_CONST_UINT u \<Rightarrow>
          if int u > INT64_MAX then rejected 0 GREMLINP_ERROR_OVERFLOW
          else converted (int64_cast (int u))
      | _ \<Rightarrow> rejected 0 GREMLINP_ERROR_INVALID_FIELD_VALUE)"

definition gremlinc_const_to_uint32 :: "gremlinp_const \<Rightarrow> int convert_result" where
  "gremlinc_const_to_uint32 c =
     (case c of
        GREMLINP_CONST_UINT u \<Rightarrow>
          if int u > UINT32_MAX then rejected 0 GREMLINP_ERROR_OVERFLOW
          else converted (uint32_cast (int u))
      | GREMLINP_CONST_INT v \<Rightarrow>
          if v < 0 \<or> v > UINT32_MAX then rejected 0 GREMLINP_ERROR_OVERFLOW
          else converted (uint32_cast v)
      | _ \<Rightarrow> rejected 0 GREMLINP_ERROR_INVALID_FIELD_VALUE)"

definition gremlinc_const_to_uint64 :: "gremlinp_const \<Rightarrow> int convert_result" where
  "gremlinc_const_to_uint64 c =
     (case c of
        GREMLINP_CONST_UINT u \<Rightarrow> converted (int u)
      | GREMLINP_CONST_INT v \<Rightarrow>
          if v < 0 then rejected 0 GREMLINP_ERROR_OVERFLOW
          else converted (uint64_cast v)
      | _ \<Rightarrow> rejected 0 GREMLINP_ERROR_INVALID_FIELD_VALUE)"

text \<open>
  Conversions to \<open>float\<close> and \<open>double\<close> round to nearest, ties to even; one of a
  double that is no number keeps its sign and the upper bits of its payload, as
  the common targets do.
\<close>

definition float_of_quotient :: "bool \<Rightarrow> nat \<Rightarrow> nat \<Rightarrow> u32" where
  "float_of_quotient neg num den =
     (let sign = (if neg then 2 ^ 31 else 0 :: nat) in
      if num = 0 then word_of_nat sign
      else
        (let e = max (quotient_exponent num den) (- 126);
             m = fst (round_quotient num den (23 - e));
             bits = nat (e + 126) * 2 ^ 23 + m in
         if bits \<ge> 0x7F800000 then word_of_nat (sign + 0x7F800000)
         else word_of_nat (sign + bits)))"

definition float_of_double :: "u64 \<Rightarrow> u32" where
  "float_of_double d =
     (let neg = (2 ^ 63 \<le> unat d);
          ex = unat d div 2 ^ 52 mod 2 ^ 11;
          frac = unat d mod 2 ^ 52;
          sign = (if neg then 2 ^ 31 else 0 :: nat) in
      if ex = 0x7FF then
        (if frac = 0 then word_of_nat (sign + 0x7F800000)
         else word_of_nat (sign + 0x7F800000 + (2 ^ 22 + frac div 2 ^ 29 mod 2 ^ 22)))
      else
        (let m = (if ex = 0 then frac else 2 ^ 52 + frac);
             k = int (max ex 1) - 1075 in
         if k \<ge> 0 then float_of_quotient neg (m * 2 ^ nat k) 1
         else float_of_quotient neg m (2 ^ nat (- k))))"

definition gremlinc_const_to_float :: "gremlinp_const \<Rightarrow> u32 convert_result" where
  "gremlinc_const_to_float c =
     (case c of
        GREMLINP_CONST_FLOAT d \<Rightarrow> converted (float_of_double d)
      | GREMLINP_CONST_INT v \<Rightarrow> converted (float_of_quotient (v < 0) (nat \<bar>v\<bar>) 1)
      | GREMLINP_CONST_UINT u \<Rightarrow> converted (float_of_quotient False u 1)
      | _ \<Rightarrow> rejected 0 GREMLINP_ERROR_INVALID_FIELD_VALUE)"

definition gremlinc_const_to_double :: "gremlinp_const \<Rightarrow> u64 convert_result" where
  "gremlinc_const_to_double c =
     (case c of
        GREMLINP_CONST_FLOAT d \<Rightarrow> converted d
      | GREMLINP_CONST_INT v \<Rightarrow> converted (fst (double_of_quotient (v < 0) (nat \<bar>v\<bar>) 1))
      | GREMLINP_CONST_UINT u \<Rightarrow> converted (fst (double_of_quotient False u 1))
      | _ \<Rightarrow> rejected 0 GREMLINP_ERROR_INVALID_FIELD_VALUE)"

definition gremlinc_const_to_bool :: "parser_buffer \<Rightarrow> gremlinp_const \<Rightarrow> bool convert_result" where
  "gremlinc_const_to_bool b c =
     (case c of
        GREMLINP_CONST_IDENTIFIER s \<Rightarrow>
          if span_text b s = ''true'' then converted True
          else if span_text b s = ''false'' then converted False
          else rejected False GREMLINP_ERROR_INVALID_FIELD_VALUE
      | _ \<Rightarrow> rejected False GREMLINP_ERROR_INVALID_FIELD_VALUE)"

fun find_enum_value :: "string \<Rightarrow> (string \<times> int) list \<Rightarrow> int convert_result" where
  "find_enum_value name [] = rejected 0 GREMLINP_ERROR_INVALID_FIELD_VALUE"
| "find_enum_value name (v # vs) = (if fst v = name then converted (snd v) else find_enum_value name vs)"

definition gremlinc_const_to_enum ::
    "parser_buffer \<Rightarrow> gremlinp_const \<Rightarrow> gremlind_enum option \<Rightarrow> int convert_result" where
  "gremlinc_const_to_enum b c target =
     (case c of
        GREMLINP_CONST_INT _ \<Rightarrow> gremlinc_const_to_int32 c
      | GREMLINP_CONST_UINT _ \<Rightarrow> gremlinc_const_to_int32 c
      | GREMLINP_CONST_IDENTIFIER s \<Rightarrow>
          (case target of
             None \<Rightarrow> rejected 0 GREMLINP_ERROR_INVALID_FIELD_VALUE
           | Some e \<Rightarrow> find_enum_value (span_text b s) (ne_values e))
      | _ \<Rightarrow> rejected 0 GREMLINP_ERROR_INVALID_FIELD_VALUE)"

abbreviation (input) backslash :: char where "backslash \<equiv> CHR 0x5C"

text \<open>\<open>out\<close> holds the characters written so far, so \<open>o\<close> is its length.\<close>

function escape_loop :: "string \<Rightarrow> nat \<Rightarrow> string \<Rightarrow> string" where
  "escape_loop span i out =
     (if i < length span then
        if span ! i = backslash \<and> i + 1 < length span
        then escape_loop span (i + 2) (out @ [span ! i, span ! (i + 1)])
        else if span ! i = CHR ''?'' then escape_loop span (i + 1) (out @ [backslash, CHR ''?''])
        else escape_loop span (i + 1) (out @ [span ! i])
      else out)"
  by pat_completeness auto
termination by (relation "measure (\<lambda>(span, i, _). length span - i)") auto

definition gremlinc_const_to_bytes ::
    "parser_buffer \<Rightarrow> gremlinp_const \<Rightarrow> 'w pool \<Rightarrow> string option convert_result \<times> 'w pool" where
  "gremlinc_const_to_bytes b c p =
     (case c of
        GREMLINP_CONST_STRING s \<Rightarrow>
          (let span = span_text b s; cap = length span * 2 + 1 in
           case pool_alloc cap p of (ok, p1) \<Rightarrow>
             if \<not> ok then (rejected None GREMLINP_ERROR_OUT_OF_MEMORY, p1)
             else (converted (Some (escape_loop span 0 [])), p1))
      | _ \<Rightarrow> (rejected None GREMLINP_ERROR_INVALID_FIELD_VALUE, p))"

declare escape_loop.simps [simp del]

section \<open>Integers\<close>

lemma int32_cast_id: "INT32_MIN \<le> v \<Longrightarrow> v \<le> INT32_MAX \<Longrightarrow> int32_cast v = v"
  unfolding int32_cast_def by (subst sint_sbintrunc') (simp add: signed_take_bit_int_eq_self)

lemma int64_cast_id: "- 9223372036854775808 \<le> v \<Longrightarrow> v \<le> INT64_MAX \<Longrightarrow> int64_cast v = v"
  unfolding int64_cast_def by (subst sint_sbintrunc') (simp add: signed_take_bit_int_eq_self)

lemma uint32_cast_id: "0 \<le> v \<Longrightarrow> v \<le> UINT32_MAX \<Longrightarrow> uint32_cast v = v"
  by (simp add: uint32_cast_def uint_word_of_int take_bit_int_eq_self)

lemma uint64_cast_id: "0 \<le> v \<Longrightarrow> v \<le> 18446744073709551615 \<Longrightarrow> uint64_cast v = v"
  by (simp add: uint64_cast_def uint_word_of_int take_bit_int_eq_self)

text \<open>The value in the range, or an overflow.\<close>

definition in_range_or_overflow :: "int \<Rightarrow> int \<Rightarrow> int \<Rightarrow> int convert_result" where
  "in_range_or_overflow lo hi v =
     (if lo \<le> v \<and> v \<le> hi then converted v else rejected 0 GREMLINP_ERROR_OVERFLOW)"

text \<open>The constant an integer between \<open>INT64_MIN\<close> and \<open>UINT64_MAX\<close> may be read as.\<close>

definition holds_integer :: "gremlinp_const \<Rightarrow> int \<Rightarrow> bool" where
  "holds_integer c v \<longleftrightarrow>
     c = GREMLINP_CONST_INT v \<and> - 9223372036854775808 \<le> v \<and> v \<le> INT64_MAX \<or>
     c = GREMLINP_CONST_UINT (nat v) \<and> 0 \<le> v \<and> v \<le> 18446744073709551615"

lemma integer_conversions:
  assumes "holds_integer c v"
  shows "gremlinc_const_to_int32 c = in_range_or_overflow INT32_MIN INT32_MAX v"
    and "gremlinc_const_to_int64 c = in_range_or_overflow (- 9223372036854775808) INT64_MAX v"
    and "gremlinc_const_to_uint32 c = in_range_or_overflow 0 UINT32_MAX v"
    and "gremlinc_const_to_uint64 c = in_range_or_overflow 0 18446744073709551615 v"
    and "gremlinc_const_to_enum b c target = in_range_or_overflow INT32_MIN INT32_MAX v"
proof -
  show i32: "gremlinc_const_to_int32 c = in_range_or_overflow INT32_MIN INT32_MAX v"
    using assms by (auto simp: holds_integer_def gremlinc_const_to_int32_def in_range_or_overflow_def int32_cast_id)
  show "gremlinc_const_to_int64 c = in_range_or_overflow (- 9223372036854775808) INT64_MAX v"
    using assms by (auto simp: holds_integer_def gremlinc_const_to_int64_def in_range_or_overflow_def int64_cast_id)
  show "gremlinc_const_to_uint32 c = in_range_or_overflow 0 UINT32_MAX v"
    using assms by (auto simp: holds_integer_def gremlinc_const_to_uint32_def in_range_or_overflow_def uint32_cast_id)
  show "gremlinc_const_to_uint64 c = in_range_or_overflow 0 18446744073709551615 v"
    using assms by (auto simp: holds_integer_def gremlinc_const_to_uint64_def in_range_or_overflow_def uint64_cast_id)
  have "gremlinc_const_to_enum b c target = gremlinc_const_to_int32 c"
    using assms by (auto simp: holds_integer_def gremlinc_const_to_enum_def)
  then show "gremlinc_const_to_enum b c target = in_range_or_overflow INT32_MIN INT32_MAX v"
    using i32 by simp
qed

lemma const_value_holds:
  assumes "valid_buffer b" and "ahead b = show_int v @ r" and "ends_number r"
    and "- 9223372036854775808 \<le> v" and "v \<le> 18446744073709551615"
  shows "\<exists>c b'. gremlinp_lexems_parse_const_value b = (Inr c, b') \<and> holds_integer c v"
proof (cases "v \<le> INT64_MAX")
  case True
  then show ?thesis using const_value_int [of b v r] assms by (simp add: holds_integer_def)
next
  case False
  then have "show_int v = show_nat (nat v)" by (simp add: show_int_def)
  then show ?thesis using const_value_uint [of b "nat v" r] assms False by (simp add: holds_integer_def)
qed

text \<open>A default written as a decimal integer: whatever of the parser's two integer
  kinds it is read as, its conversion to each of the four integer types and to an
  enum is the integer written when that is in the range of the type, and is an
  overflow with value 0 otherwise.\<close>
theorem integer_default_correct:
  assumes "valid_buffer b" and "ahead b = show_int v @ r" and "ends_number r"
    and "- 9223372036854775808 \<le> v" and "v \<le> 18446744073709551615"
  shows "\<exists>c b'. gremlinp_lexems_parse_const_value b = (Inr c, b')
    \<and> gremlinc_const_to_int32 c =
        (if - (2 ^ 31) \<le> v \<and> v < 2 ^ 31 then converted v else rejected 0 GREMLINP_ERROR_OVERFLOW)
    \<and> gremlinc_const_to_int64 c =
        (if - (2 ^ 63) \<le> v \<and> v < 2 ^ 63 then converted v else rejected 0 GREMLINP_ERROR_OVERFLOW)
    \<and> gremlinc_const_to_uint32 c =
        (if 0 \<le> v \<and> v < 2 ^ 32 then converted v else rejected 0 GREMLINP_ERROR_OVERFLOW)
    \<and> gremlinc_const_to_uint64 c =
        (if 0 \<le> v \<and> v < 2 ^ 64 then converted v else rejected 0 GREMLINP_ERROR_OVERFLOW)
    \<and> gremlinc_const_to_enum b c target =
        (if - (2 ^ 31) \<le> v \<and> v < 2 ^ 31 then converted v else rejected 0 GREMLINP_ERROR_OVERFLOW)"
proof -
  obtain c b' where "gremlinp_lexems_parse_const_value b = (Inr c, b')" "holds_integer c v"
    using const_value_holds [OF assms] by blast
  moreover note integer_conversions [OF this(2)]
  ultimately show ?thesis by (auto simp: in_range_or_overflow_def)
qed

lemma integer_default_correct_witness:
  "\<exists>c b'. gremlinp_lexems_parse_const_value (\<lparr>pb_buf = ''-42]'', pb_size = 4, pb_offset = 0\<rparr>) = (Inr c, b')
     \<and> gremlinc_const_to_int32 c = converted (- 42)
     \<and> gremlinc_const_to_uint32 c = rejected 0 GREMLINP_ERROR_OVERFLOW"
proof -
  have "valid_buffer \<lparr>pb_buf = ''-42]'', pb_size = 4, pb_offset = 0\<rparr>" "ends_number '']''"
    "ahead \<lparr>pb_buf = ''-42]'', pb_size = 4, pb_offset = 0\<rparr> = show_int (- 42) @ '']''"
    by code_simp+
  from integer_default_correct [where target = None, OF this(1,3,2)] show ?thesis by auto
qed

section \<open>Bytes\<close>

text \<open>The text as a sequence of characters and escapes.\<close>

fun lit_items :: "string \<Rightarrow> string list" where
  "lit_items [] = []"
| "lit_items [c] = [[c]]"
| "lit_items (c # d # cs) = (if c = backslash then [c, d] # lit_items cs else [c] # lit_items (d # cs))"

definition safe_item :: "string \<Rightarrow> string" where
  "safe_item t = (if t = ''?'' then [backslash, CHR ''?''] else t)"

lemma escape_loop_steps:
  "length span \<le> i \<Longrightarrow> escape_loop span i out = out"
  "i + 1 < length span \<Longrightarrow> span ! i = backslash \<Longrightarrow>
     escape_loop span i out = escape_loop span (i + 2) (out @ [span ! i, span ! (i + 1)])"
  "i < length span \<Longrightarrow> span ! i \<noteq> backslash \<or> i + 1 = length span \<Longrightarrow>
     escape_loop span i out = escape_loop span (i + 1) (out @ safe_item [span ! i])"
  by (simp add: escape_loop.simps [of span i out])
     (simp add: escape_loop.simps [of span i out],
      cases "span ! i = CHR ''?''", simp_all add: escape_loop.simps [of span i out] safe_item_def, fastforce+)

lemma escape_loop_eq: "escape_loop span i out = out @ concat (map safe_item (lit_items (drop i span)))"
proof (induction "length span - i" arbitrary: i out rule: less_induct)
  case less
  show ?case
  proof (cases "i < length span")
    case False
    then show ?thesis by (simp add: escape_loop_steps(1))
  next
    case True
    note d = Cons_nth_drop_Suc [OF True, symmetric]
    show ?thesis
    proof (cases "span ! i = backslash \<and> i + 1 < length span")
      case esc: True
      have dr: "drop i span = span ! i # span ! (i + 1) # drop (i + 2) span"
        using d Cons_nth_drop_Suc [of "i + 1" span] esc by simp
      have "escape_loop span i out = escape_loop span (i + 2) (out @ [span ! i, span ! (i + 1)])"
        using esc escape_loop_steps(2) by blast
      also have "\<dots> = out @ [span ! i, span ! (i + 1)] @ concat (map safe_item (lit_items (drop (i + 2) span)))"
        using less [of "i + 2"] True by simp
      finally show ?thesis using esc dr by (simp add: safe_item_def)
    next
      case False
      have items: "lit_items (drop i span) = [span ! i] # lit_items (drop (i + 1) span)"
        using d False True by (cases "drop (Suc i) span") auto
      have "escape_loop span i out = escape_loop span (i + 1) (out @ safe_item [span ! i])"
        using False True by (intro escape_loop_steps(3)) auto
      also have "\<dots> = out @ safe_item [span ! i] @ concat (map safe_item (lit_items (drop (i + 1) span)))"
        using less [of "i + 1"] True by simp
      finally show ?thesis unfolding items by simp
    qed
  qed
qed

lemma lit_items_cases:
  "t \<in> set (lit_items s) \<Longrightarrow> (\<exists>c. t = [c]) \<or> (\<exists>c. t = [backslash, c])"
  by (induction s rule: lit_items.induct) (auto split: if_splits)

lemma concat_lit_items: "concat (lit_items s) = s"
  by (induction s rule: lit_items.induct) auto

text \<open>A lone backslash can only be the last item.\<close>

lemma lit_items_safe:
  "lit_items (concat (map safe_item (lit_items s))) = map safe_item (lit_items s)"
proof (induction s rule: lit_items.induct)
  case (2 c)
  then show ?case by (simp add: safe_item_def)
next
  case (3 c d cs)
  show ?case
  proof (cases "c = backslash")
    case True
    then show ?thesis using 3 by (simp add: safe_item_def)
  next
    case False
    moreover have "concat (map safe_item (lit_items (d # cs))) \<noteq> []"
      by (cases cs) (auto simp: safe_item_def)
    then obtain x xs where "concat (map safe_item (lit_items (d # cs))) = x # xs" by (meson neq_Nil_conv)
    moreover have "safe_item [c] = [c] \<or> c = CHR ''?'' \<and> safe_item [c] = [backslash, c]" by (simp add: safe_item_def)
    ultimately show ?thesis using 3(2) by auto
  qed
qed simp

text \<open>Every question mark stands behind a backslash, so that no trigraph can begin.\<close>

fun guarded :: "char option \<Rightarrow> string \<Rightarrow> bool" where
  "guarded _ [] = True"
| "guarded p (c # cs) \<longleftrightarrow> (c = CHR ''?'' \<longrightarrow> p = Some backslash) \<and> guarded (Some c) cs"

lemma guarded_append: "guarded p (xs @ ys) \<longleftrightarrow> guarded p xs \<and> guarded (if xs = [] then p else Some (last xs)) ys"
proof (induction xs arbitrary: p)
  case (Cons x xs)
  show ?case using Cons.IH [of "Some x"] by (cases xs) simp_all
qed simp

lemma guarded_safe_item:
  "(\<exists>c. t = [c]) \<or> (\<exists>c. t = [backslash, c]) \<Longrightarrow> guarded p (safe_item t) \<and> safe_item t \<noteq> []"
  by (elim disjE exE) (simp_all add: safe_item_def)

lemma guarded_items:
  "\<forall>t \<in> set ts. (\<exists>c. t = [c]) \<or> (\<exists>c. t = [backslash, c]) \<Longrightarrow> guarded p (concat (map safe_item ts))"
proof (induction ts arbitrary: p)
  case (Cons t ts)
  then have "guarded q (concat (map safe_item ts))" for q by simp
  then show ?case using guarded_safe_item [of t p] Cons.prems by (simp add: guarded_append)
qed simp

lemma guarded_safe: "guarded p (concat (map safe_item (lit_items s)))"
  using guarded_items lit_items_cases by blast

lemma length_safe: "length (concat (map safe_item (lit_items s))) \<le> 2 * length s"
  by (induction s rule: lit_items.induct) (auto simp: safe_item_def)

lemma const_to_bytes_step:
  "gremlinc_const_to_bytes b (GREMLINP_CONST_STRING s) p =
    (case pool_alloc (2 * length (span_text b s) + 1) p of (ok, p1) \<Rightarrow>
      (if ok then converted (Some (concat (map safe_item (lit_items (span_text b s)))))
       else rejected None GREMLINP_ERROR_OUT_OF_MEMORY, p1))"
  by (simp add: gremlinc_const_to_bytes_def Let_def escape_loop_eq mult.commute split: prod.split)

text \<open>Escaping of a string default: read as characters and escapes, the result is
  the text with each question mark that stands alone replaced by its escape and
  all else as it was, it is read back as exactly these items, fits the buffer of
  twice the length, and has no question mark without a backslash in front, so no
  trigraph can arise; only a string is accepted, and only the allocation can fail.\<close>
theorem const_to_bytes_correct:
  "gremlinc_const_to_bytes b c p =
    (case c of
       GREMLINP_CONST_STRING s \<Rightarrow>
         (case pool_alloc (2 * length (span_text b s) + 1) p of (ok, p1) \<Rightarrow>
           (if ok then converted (Some (concat (map safe_item (lit_items (span_text b s)))))
            else rejected None GREMLINP_ERROR_OUT_OF_MEMORY, p1))
     | _ \<Rightarrow> (rejected None GREMLINP_ERROR_INVALID_FIELD_VALUE, p))
   \<and> length (concat (map safe_item (lit_items t))) < 2 * length t + 1
   \<and> lit_items (concat (map safe_item (lit_items t))) = map safe_item (lit_items t)
   \<and> concat (lit_items t) = t
   \<and> guarded None (concat (map safe_item (lit_items t)))"
proof -
  have "gremlinc_const_to_bytes b c p =
    (case c of
       GREMLINP_CONST_STRING s \<Rightarrow>
         (case pool_alloc (2 * length (span_text b s) + 1) p of (ok, p1) \<Rightarrow>
           (if ok then converted (Some (concat (map safe_item (lit_items (span_text b s)))))
            else rejected None GREMLINP_ERROR_OUT_OF_MEMORY, p1))
     | _ \<Rightarrow> (rejected None GREMLINP_ERROR_INVALID_FIELD_VALUE, p))"
    by (cases c) (simp_all add: const_to_bytes_step, simp_all add: gremlinc_const_to_bytes_def)
  then show ?thesis
    using length_safe [of t] lit_items_safe [of t] concat_lit_items [of t] guarded_safe [of None t]
    by (simp add: less_Suc_eq_le)
qed

text \<open>A double quote in a string written between single quotes is not escaped.\<close>

lemma double_quote_unescaped:
  assumes "span_text b s = ''a'' @ [CHR 0x22] @ ''b''" and "pool_alloc 7 p = (True, p1)"
  shows "gremlinc_const_to_bytes b (GREMLINP_CONST_STRING s) p = (converted (Some (''a'' @ [CHR 0x22] @ ''b'')), p1)"
  using const_to_bytes_step [of b s p] assms by (simp add: safe_item_def)

end
