(* ===== verification/Emit_Text.thy ===== *)
theory Emit_Text
  imports Text_Writer Const_Convert
begin

text \<open>
  How the emitters of \<open>gremlinc/src\<close> print.  Their macros \<open>W(s)\<close> and \<open>WI(v)\<close>
  (\<open>emit_common.h\<close>) write a text or a number and leave the function when that fails, so
  a function made of them is the list of its pieces, and running it is \<open>emit\<close>.  In
  a text of the source a control character, a quote and a backslash are written with
  a dollar sign: \<open>$t\<close>, \<open>$n\<close>, \<open>$q\<close> and \<open>$b\<close>.
\<close>

section \<open>Pieces\<close>

fun tx :: "string \<Rightarrow> string" where
  "tx [] = []"
| "tx (c # cs) =
     (if c = CHR ''$'' then
        (case cs of
           [] \<Rightarrow> []
         | d # ds \<Rightarrow>
             (if d = CHR ''t'' then CHR 0x09 else if d = CHR ''n'' then newline
              else if d = CHR ''q'' then CHR 0x22 else backslash) # tx ds)
      else c # tx cs)"

declare tx.simps [simp del]

datatype piece = W string | WI int

text \<open>\<open>WI\<close> casts its argument to \<open>int32_t\<close>.\<close>

definition write_piece :: "(nat \<Rightarrow> bool) \<Rightarrow> gremlinc_writer \<Rightarrow> piece \<Rightarrow>
    (gremlinp_parsing_error option \<times> gremlinc_writer) option" where
  "write_piece allocates w x =
     (case x of
        W s \<Rightarrow> gremlinc_write_cstr allocates w s
      | WI v \<Rightarrow> gremlinc_write_i32 allocates w (int32_cast v))"

fun emit :: "(nat \<Rightarrow> bool) \<Rightarrow> gremlinc_writer \<Rightarrow> piece list \<Rightarrow>
    (gremlinp_parsing_error option \<times> gremlinc_writer) option" where
  "emit allocates w [] = Some (None, w)"
| "emit allocates w (x # xs) =
     (case write_piece allocates w x of
        None \<Rightarrow> None
      | Some (err, w1) \<Rightarrow> if err \<noteq> None then Some (err, w1) else emit allocates w1 xs)"

text \<open>The text of a piece, and of a list of them.\<close>

definition piece_text :: "piece \<Rightarrow> string" where
  "piece_text x = (case x of W s \<Rightarrow> c_str s | WI v \<Rightarrow> show_int (int32_cast v))"

definition text_of :: "piece list \<Rightarrow> string" where
  "text_of xs = concat (map piece_text xs)"

lemma text_of_simps [simp]:
  "text_of [] = []"
  "text_of (x # xs) = piece_text x @ text_of xs"
  "text_of (xs @ ys) = text_of xs @ text_of ys"
  by (simp_all add: text_of_def)

lemma int32_cast_range: "- 2147483648 \<le> int32_cast v \<and> int32_cast v < 2147483648"
  using sint_ge [of "word_of_int v :: 32 word"] sint_lt [of "word_of_int v :: 32 word"] by (simp add: int32_cast_def)

lemma write_piece_eq: "write_piece allocates w x = gremlinc_write allocates w (piece_text x)"
  using int32_cast_range
  by (cases x) (simp_all add: write_piece_def piece_text_def gremlinc_write_cstr_def write_i32_eq)

lemma emit_eq: "emit allocates w xs = write_all allocates w (map piece_text xs)"
  by (induction allocates w xs rule: emit.induct) (auto simp: write_piece_eq split: option.split)

lemma write_all_append:
  "write_all allocates w (ss @ ts) =
     (case write_all allocates w ss of
        None \<Rightarrow> None
      | Some (err, w1) \<Rightarrow> if err \<noteq> None then Some (err, w1) else write_all allocates w1 ts)"
  by (induction allocates w ss rule: write_all.induct) (auto split: option.split)

lemma emit_append:
  "emit allocates w (xs @ ys) =
     (case emit allocates w xs of
        None \<Rightarrow> None
      | Some (err, w1) \<Rightarrow> if err \<noteq> None then Some (err, w1) else emit allocates w1 ys)"
  unfolding emit_eq by (simp add: write_all_append)

text \<open>Printing a function's pieces returns; it appends all of the text or, when the buffer
  does not grow, the pieces that fit.\<close>

lemma emit_outcome:
  assumes "valid_text_writer w"
  shows "\<exists>err w' k. emit allocates w xs = Some (err, w') \<and> valid_text_writer w' \<and> tw_owns w' = tw_owns w
    \<and> tw_text w' = tw_text w @ text_of (take k xs)
    \<and> (err = None \<longrightarrow> k = length xs) \<and> (err \<noteq> None \<longrightarrow> err = Some GREMLINP_ERROR_BUFFER_OVERFLOW)"
  using assms
proof (induction xs arbitrary: w)
  case (Cons x xs)
  obtain e w1 where wr: "gremlinc_write allocates w (piece_text x) = Some (e, w1)"
    using write_cases [OF Cons.prems] by (metis surj_pair)
  note c = write_cases [OF Cons.prems, of allocates "piece_text x", unfolded wr Let_def]
  have v: "valid_text_writer w1" "tw_owns w1 = tw_owns w" using valid_write [OF Cons.prems wr] by simp_all
  show ?case
  proof (cases e)
    case (Some a)
    then have "w1 = w" "a = GREMLINP_ERROR_BUFFER_OVERFLOW" using c by (auto split: if_splits)
    then show ?thesis using wr Some Cons.prems
      by (intro exI [of _ "Some a"] exI [of _ w] exI [of _ 0]) (auto simp: write_piece_eq)
  next
    case None
    then have t: "tw_text w1 = tw_text w @ piece_text x" using c by (auto split: if_splits)
    obtain err w' k where IH: "emit allocates w1 xs = Some (err, w')" "valid_text_writer w'" "tw_owns w' = tw_owns w1"
        "tw_text w' = tw_text w1 @ text_of (take k xs)" "err = None \<longrightarrow> k = length xs"
        "err \<noteq> None \<longrightarrow> err = Some GREMLINP_ERROR_BUFFER_OVERFLOW"
      using Cons.IH [OF v(1)] by blast
    then show ?thesis using wr None t v
      by (intro exI [of _ err] exI [of _ w'] exI [of _ "Suc k"]) (auto simp: write_piece_eq)
  qed
qed auto

end
