(* ===== verification/Libc_Printf.thy ===== *)
theory Libc_Printf
  imports Const_Convert
begin

text \<open>
  What the generator uses of \<open>printf\<close> beyond integers: the conversion \<open>%.Pg\<close> of a
  double, as glibc does it in the default rounding mode, and the order of floats.  A
  float and a double are their bit patterns.
\<close>

section \<open>Magnitudes\<close>

definition double_sign :: "u64 \<Rightarrow> bool" where "double_sign d \<longleftrightarrow> 2 ^ 63 \<le> unat d"
definition double_exponent :: "u64 \<Rightarrow> nat" where "double_exponent d = unat d div 2 ^ 52 mod 2 ^ 11"
definition double_fraction :: "u64 \<Rightarrow> nat" where "double_fraction d = unat d mod 2 ^ 52"

definition float_sign :: "u32 \<Rightarrow> bool" where "float_sign r \<longleftrightarrow> 2 ^ 31 \<le> unat r"
definition float_exponent :: "u32 \<Rightarrow> nat" where "float_exponent r = unat r div 2 ^ 23 mod 2 ^ 8"
definition float_fraction :: "u32 \<Rightarrow> nat" where "float_fraction r = unat r mod 2 ^ 23"

text \<open>A finite double is its sign and a fraction.\<close>

definition double_magnitude :: "u64 \<Rightarrow> nat \<times> nat" where
  "double_magnitude d =
     (let ex = double_exponent d; frac = double_fraction d;
          m = (if ex = 0 then frac else 2 ^ 52 + frac); k = int (max ex 1) - 1075 in
      if k \<ge> 0 then (m * 2 ^ nat k, 1) else (m, 2 ^ nat (- k)))"

text \<open>A float is a double with the same value.\<close>

definition double_of_float :: "u32 \<Rightarrow> u64" where
  "double_of_float r =
     (let ex = float_exponent r; frac = float_fraction r; sign = (if float_sign r then 2 ^ 63 else 0 :: nat) in
      if ex = 0xFF then word_of_nat (sign + 0x7FF0000000000000 + frac * 2 ^ 29)
      else
        (let m = (if ex = 0 then frac else 2 ^ 23 + frac); k = int (max ex 1) - 150 in
         if k \<ge> 0 then fst (double_of_quotient (float_sign r) (m * 2 ^ nat k) 1)
         else fst (double_of_quotient (float_sign r) m (2 ^ nat (- k)))))"

definition float_is_nan :: "u32 \<Rightarrow> bool" where
  "float_is_nan r \<longleftrightarrow> float_exponent r = 0xFF \<and> float_fraction r \<noteq> 0"

definition double_is_nan :: "u64 \<Rightarrow> bool" where
  "double_is_nan d \<longleftrightarrow> double_exponent d = 0x7FF \<and> double_fraction d \<noteq> 0"

text \<open>The order of the numbers, on patterns that are numbers or infinite.\<close>

definition float_rank :: "u32 \<Rightarrow> int" where
  "float_rank r = (if float_sign r then - int (unat r - 2 ^ 31) else int (unat r))"

definition double_rank :: "u64 \<Rightarrow> int" where
  "double_rank d = (if double_sign d then - int (unat d - 2 ^ 63) else int (unat d))"

section \<open>The conversion\<close>

text \<open>How many factors of ten bring \<open>num / den\<close> to at least one.\<close>

function tens_up :: "nat \<Rightarrow> nat \<Rightarrow> nat" where
  "tens_up num den = (if num = 0 \<or> den \<le> num then 0 else Suc (tens_up (num * 10) den))"
  by pat_completeness auto
termination by (relation "measure (\<lambda>(num, den). den - num)") auto

declare tens_up.simps [simp del]

text \<open>The exponent \<open>e\<close> with \<open>10 ^ e \<le> num / den < 10 ^ (e + 1)\<close>.\<close>

definition decimal_exponent :: "nat \<Rightarrow> nat \<Rightarrow> int" where
  "decimal_exponent num den =
     (if den \<le> num then int (length (show_nat (num div den))) - 1 else - int (tens_up num den))"

text \<open>\<open>num * 10 ^ k / den\<close> to nearest, ties to even.\<close>

definition round_decimal :: "nat \<Rightarrow> nat \<Rightarrow> int \<Rightarrow> nat" where
  "round_decimal num den k =
     (let n = (if k \<ge> 0 then num * 10 ^ nat k else num); d = (if k \<ge> 0 then den else den * 10 ^ nat (- k));
          q = n div d; r = n mod d in
      if 2 * r > d \<or> (2 * r = d \<and> odd q) then q + 1 else q)"

text \<open>The \<open>P\<close> significant digits with the exponent of the first.\<close>

definition significant :: "nat \<Rightarrow> nat \<Rightarrow> nat \<Rightarrow> string \<times> int" where
  "significant P num den =
     (let e = decimal_exponent num den; q = round_decimal num den (int P - 1 - e) in
      if q = 10 ^ P then (show_nat (10 ^ (P - 1)), e + 1) else (show_nat q, e))"

definition strip_zeros :: "string \<Rightarrow> string" where
  "strip_zeros ds = rev (dropWhile (\<lambda>c. c = CHR ''0'') (rev ds))"

definition with_fraction :: "string \<Rightarrow> string \<Rightarrow> string" where
  "with_fraction ip fp = (if strip_zeros fp = [] then ip else ip @ ''.'' @ strip_zeros fp)"

definition exponent_text :: "int \<Rightarrow> string" where
  "exponent_text e =
     (let n = nat \<bar>e\<bar> in ''e'' @ (if e < 0 then ''-'' else ''+'') @ (if n < 10 then ''0'' else []) @ show_nat n)"

definition printf_g :: "nat \<Rightarrow> u64 \<Rightarrow> string" where
  "printf_g P d =
     (let sign = (if double_sign d then ''-'' else []) in
      if double_exponent d = 0x7FF then sign @ (if double_fraction d = 0 then ''inf'' else ''nan'')
      else (case double_magnitude d of (num, den) \<Rightarrow>
        if num = 0 then sign @ ''0''
        else (case significant P num den of (ds, e) \<Rightarrow>
          sign @
          (if - 4 \<le> e \<and> e < int P then
             (if e \<ge> 0 then with_fraction (take (nat e + 1) ds) (drop (nat e + 1) ds)
              else with_fraction ''0'' (replicate (nat (- e - 1)) (CHR ''0'') @ ds))
           else with_fraction (take 1 ds) (drop 1 ds) @ exponent_text e))))"

end
