(* ===== verification/Entry_Reading.thy ===== *)
theory Entry_Reading
  imports Entry_File
begin

text \<open>
  How the parsers read well-formed text.  \<open>upcoming b s\<close> says that the text in
  front of the cursor is \<open>s\<close>; each parsing step is given by what it does to it.
  Declarations are then read as they are written, with any separator (white space
  and closed comments) between the tokens.
\<close>

section \<open>Text in front of the cursor\<close>

definition upcoming :: "parser_buffer \<Rightarrow> string \<Rightarrow> bool" where
  "upcoming b s \<longleftrightarrow> valid_buffer b \<and> ahead b = s"

lemma upcoming_shift: "upcoming b (s @ r) \<Longrightarrow> upcoming (shift (length s) b) r"
  by (auto simp: upcoming_def ahead_shift intro: valid_shift)

lemma upcoming_CharD:
  assumes "upcoming b (c # s)"
  shows "pb_offset b < pb_size b" and "pb_buf b ! pb_offset b = c"
    and "gremlinp_parser_buffer_char b = c" and "upcoming (shift 1 b) s"
    and "upcoming (shift (Suc 0) b) s"
proof -
  have v: "valid_buffer b" and a: "ahead b = c # s" using assms by (auto simp: upcoming_def)
  show lt: "pb_offset b < pb_size b" using ahead_Nil [OF v] a by auto
  show "pb_buf b ! pb_offset b = c" using ahead_Cons [OF v lt] a by simp
  show "gremlinp_parser_buffer_char b = c" using a by (simp add: char_ahead [OF v])
  show "upcoming (shift 1 b) s" using upcoming_shift [of b "[c]" s] assms by simp
  then show "upcoming (shift (Suc 0) b) s" by simp
qed

lemma upcoming_NilD: "upcoming b [] \<Longrightarrow> pb_offset b \<ge> pb_size b"
  using ahead_Nil [of b] by (auto simp: upcoming_def)

lemma upcoming_char: "upcoming b s \<Longrightarrow> gremlinp_parser_buffer_char b = (case s of [] \<Rightarrow> nul | c # _ \<Rightarrow> c)"
  using char_ahead [of b] by (auto simp: upcoming_def)

lemma upcoming_init:
  assumes "nul \<notin> set s"
  shows "upcoming (gremlinp_parser_buffer_init s 0) s"
proof -
  have "length (takeWhile (\<lambda>c. c \<noteq> nul) s) = length s"
    using assms by (intro arg_cong [where f = length] takeWhile_eq_all_conv [THEN iffD2]) auto
  then show ?thesis
    using init_valid [of 0 s] by (simp add: upcoming_def ahead_def gremlinp_parser_buffer_init_def)
qed

section \<open>Separators\<close>

inductive separator :: "string \<Rightarrow> bool" where
  sep_nil: "separator []"
| sep_space: "is_whitespace c \<Longrightarrow> separator xs \<Longrightarrow> separator (c # xs)"
| sep_line: "newline \<notin> set ys \<Longrightarrow> separator xs \<Longrightarrow> separator (''//'' @ ys @ newline # xs)"
| sep_block: "\<not> sublist ''*/'' (ys @ ''*'') \<Longrightarrow> separator xs \<Longrightarrow>
    separator (''/*'' @ ys @ ''*/'' @ xs)"

definition starts_token :: "string \<Rightarrow> bool" where
  "starts_token r \<longleftrightarrow> r = [] \<or> (\<not> is_whitespace (hd r) \<and> hd r \<noteq> CHR ''/'')"

lemma skip_line_comment_read:
  "\<lbrakk>upcoming b (ys @ newline # r); newline \<notin> set ys\<rbrakk> \<Longrightarrow>
   skip_line_comment b = shift (length ys) b"
proof (induction ys arbitrary: b)
  case Nil
  then show ?case using upcoming_CharD(2) [of b newline r] skip_line_comment.simps [of b] by simp
next
  case (Cons y ys)
  note up = upcoming_CharD [of b y "ys @ newline # r"]
  have "skip_line_comment (shift 1 b) = shift (length ys) (shift 1 b)"
    using Cons.prems up by (intro Cons.IH) simp_all
  moreover have "y \<noteq> newline" using Cons.prems(2) by auto
  ultimately show ?case using Cons.prems up skip_line_comment.simps [of b] by simp
qed

lemma skip_block_comment_read:
  "\<lbrakk>upcoming b (ys @ ''*/'' @ r); \<not> sublist ''*/'' (ys @ ''*'')\<rbrakk> \<Longrightarrow>
   skip_block_comment b = (Inr (), shift (length ys + 2) b)"
proof (induction ys arbitrary: b)
  case Nil
  then have "upcoming b (CHR ''*'' # CHR ''/'' # r)" by simp
  note up = upcoming_CharD [OF this] and up2 = upcoming_CharD [OF upcoming_CharD(4) [OF this]]
  show ?case using up up2 skip_block_comment.simps [of b] by simp
next
  case (Cons y ys)
  obtain z zs where z: "ys @ ''*/'' @ r = z # zs" by (cases ys) auto
  have "upcoming b (y # z # zs)" using Cons.prems(1) z by simp
  note up = upcoming_CharD [OF this] and up2 = upcoming_CharD [OF upcoming_CharD(4) [OF this]]
  have nf: "\<not> (y = CHR ''*'' \<and> z = CHR ''/'')"
    using Cons.prems(2) z by (cases ys) (auto simp: sublist_Cons_right)
  have "skip_block_comment (shift 1 b) = (Inr (), shift (length ys + 2) (shift 1 b))"
    using Cons.prems up(4) z by (intro Cons.IH) (auto simp: sublist_Cons_right)
  then show ?case
    using up up2 skip_block_comment.simps [of b] by (simp add: nf del: de_Morgan_conj)
qed

lemma skip_spaces_stop:
  "upcoming b r \<Longrightarrow> starts_token r \<Longrightarrow> skip_spaces b = (Inr (), b)"
  using gremlinp_parser_buffer_skip_spaces.simps [of b] upcoming_NilD [of b] upcoming_CharD(1,2) [of b]
  by (cases r) (auto simp: starts_token_def)

lemma skip_spaces_read:
  assumes "separator ws" and "upcoming b (ws @ r)" and "starts_token r"
  shows "skip_spaces b = (Inr (), shift (length ws) b)"
  using assms(1,2)
proof (induction ws arbitrary: b)
  case sep_nil
  then show ?case using skip_spaces_stop assms(3) by simp
next
  case (sep_space c xs)
  have u: "upcoming b (c # xs @ r)" using sep_space.prems by simp
  note up = upcoming_CharD [OF u]
  have "skip_spaces (shift 1 b) = (Inr (), shift (length xs) (shift 1 b))"
    by (rule sep_space.IH) (rule up(4))
  then show ?case
    using up sep_space.hyps(1) gremlinp_parser_buffer_skip_spaces.simps [of b] by simp
next
  case (sep_line ys xs)
  have u: "upcoming b (CHR ''/'' # CHR ''/'' # ys @ newline # xs @ r)" using sep_line.prems by simp
  note up = upcoming_CharD [OF u] and up2 = upcoming_CharD [OF upcoming_CharD(4) [OF u]]
  have u2: "upcoming (shift 2 b) (ys @ newline # xs @ r)" using up2(4) by (simp add: numeral_2_eq_2)
  have l: "skip_line_comment (shift 2 b) = shift (length ys + 2) b"
    using skip_line_comment_read [OF u2 sep_line.hyps(1)] by simp
  have u3: "upcoming (shift (length ys + 2) b) (newline # xs @ r)"
    using upcoming_shift [OF u2] by (simp add: add.commute)
  note up3 = upcoming_CharD [OF u3]
  have "skip_spaces (shift (length ys + 3) b) = (Inr (), shift (length xs) (shift (length ys + 3) b))"
    using up3(4) by (intro sep_line.IH) (simp add: numeral_3_eq_3)
  then have "skip_spaces (shift (length ys + 2) b) = (Inr (), shift (length ys + 3 + length xs) b)"
    using up3 gremlinp_parser_buffer_skip_spaces.simps [of "shift (length ys + 2) b"]
    by (simp add: is_whitespace_def numeral_3_eq_3)
  then show ?case
    using up up2 l gremlinp_parser_buffer_skip_spaces.simps [of b]
    by (simp add: is_whitespace_def numeral_3_eq_3)
next
  case (sep_block ys xs)
  have u: "upcoming b (CHR ''/'' # CHR ''*'' # ys @ ''*/'' @ xs @ r)" using sep_block.prems by simp
  note up = upcoming_CharD [OF u] and up2 = upcoming_CharD [OF upcoming_CharD(4) [OF u]]
  have u2: "upcoming (shift 2 b) (ys @ ''*/'' @ xs @ r)" using up2(4) by (simp add: numeral_2_eq_2)
  have l: "skip_block_comment (shift 2 b) = (Inr (), shift (length ys + 4) b)"
    using skip_block_comment_read [OF u2 sep_block.hyps(1)] by simp
  have "upcoming (shift (length ys + 4) b) (xs @ r)"
    using upcoming_shift [of "shift 2 b" "ys @ ''*/''" "xs @ r"] u2
    by (simp add: add.commute numeral_eq_Suc)
  then have "skip_spaces (shift (length ys + 4) b) = (Inr (), shift (length xs) (shift (length ys + 4) b))"
    by (rule sep_block.IH)
  then show ?case
    using up up2 l gremlinp_parser_buffer_skip_spaces.simps [of b]
    by (simp add: is_whitespace_def)
qed

section \<open>Tokens\<close>

lemma check_char_read:
  "upcoming b (c # s) \<Longrightarrow> check_char b c = (True, shift (Suc 0) b)"
  using upcoming_CharD(1,2) [of b c s] by (simp add: gremlinp_parser_buffer_check_and_shift_def)

lemma check_char_other:
  "upcoming b (d # s) \<Longrightarrow> c \<noteq> d \<Longrightarrow> check_char b c = (False, b)"
  using upcoming_CharD(1,2) [of b d s] by (simp add: gremlinp_parser_buffer_check_and_shift_def)

lemma check_str_upcoming:
  "upcoming b s \<Longrightarrow> check_str b kw =
     (if take (length kw) s = kw then (True, shift (length kw) b) else (False, b))"
  by (simp add: upcoming_def check_str_ahead)

lemma check_str_read: "upcoming b (kw @ s) \<Longrightarrow> check_str b kw = (True, shift (length kw) b)"
  by (simp add: check_str_upcoming)

lemma ident_read:
  "\<lbrakk>upcoming b (i @ r); valid_identifier i; stops_ident r\<rbrakk> \<Longrightarrow>
   gremlinp_lexems_parse_identifier b =
     (Inr \<lparr>span_start = pb_offset b, span_length = length i\<rparr>, shift (length i) b)"
  unfolding upcoming_def by (intro identifier_read) auto

lemma name_read:
  "\<lbrakk>upcoming b (full_name lead i ids @ r); valid_identifier i; list_all valid_identifier ids;
    stops_name r\<rbrakk> \<Longrightarrow>
   gremlinp_lexems_parse_full_identifier b =
     (Inr \<lparr>span_start = pb_offset b, span_length = length (full_name lead i ids)\<rparr>,
      shift (length (full_name lead i ids)) b)"
  unfolding upcoming_def by (intro full_identifier_read) auto

lemma int_read:
  "\<lbrakk>upcoming b (show_int v @ r); stops_ident r; - 9223372036854775808 \<le> v;
    v \<le> 9223372036854775807\<rbrakk> \<Longrightarrow>
   gremlinp_lexems_parse_integer_literal b = (Inr v, shift (length (show_int v)) b)"
  unfolding upcoming_def by (intro integer_literal_show) (auto simp: stops_ident_def)

text \<open>What stands behind a name or a number, and does not continue it.\<close>

lemma separator_head:
  "separator ws \<Longrightarrow> ws = [] \<or> is_whitespace (hd ws) \<or> hd ws = CHR ''/''"
  by (cases rule: separator.cases) auto

lemma not_in_name:
  "is_whitespace c \<or> c \<in> set ''/;={},()<>[]'' \<Longrightarrow> \<not> is_identifier_char c \<and> c \<noteq> CHR ''.''"
  by (auto simp: is_whitespace_def is_identifier_char_def char_le_iff)

lemma stops_after:
  assumes "separator ws" and "c \<in> set ''/;={},()<>[]''"
  shows "stops_ident (ws @ c # r)" and "stops_name (ws @ c # r)"
    and "ws \<noteq> [] \<Longrightarrow> stops_name (ws @ r)" and "ws \<noteq> [] \<Longrightarrow> stops_ident (ws @ r)"
proof -
  have h: "\<not> is_identifier_char (hd (ws @ c # r)) \<and> hd (ws @ c # r) \<noteq> CHR ''.''"
    using separator_head [OF assms(1)] assms(2) not_in_name by (cases ws) auto
  then show "stops_ident (ws @ c # r)" "stops_name (ws @ c # r)"
    by (auto simp: stops_name_def stops_ident_def)
  have "\<not> is_identifier_char (hd (ws @ r)) \<and> hd (ws @ r) \<noteq> CHR ''.''" if "ws \<noteq> []"
    using h that by (cases ws) auto
  then show "ws \<noteq> [] \<Longrightarrow> stops_name (ws @ r)" "ws \<noteq> [] \<Longrightarrow> stops_ident (ws @ r)"
    by (auto simp: stops_name_def stops_ident_def)
qed

lemma token_chars: "c \<in> set '';={},()<>[]'' \<Longrightarrow> starts_token (c # r)"
  by (auto simp: starts_token_def is_whitespace_def)

lemma ident_token:
  "valid_identifier i \<Longrightarrow> starts_token (i @ r)"
proof (cases i)
  case (Cons c cs)
  assume "valid_identifier i"
  then show ?thesis
    using Cons by (auto simp: valid_identifier_def starts_token_def is_ident_start_def
        is_whitespace_def char_le_iff)
qed (simp add: valid_identifier_def)

lemma name_token: "valid_identifier i \<Longrightarrow> starts_token (full_name lead i ids @ r)"
  using ident_token [of i "dotted ids @ r"] by (simp add: full_name_def starts_token_def is_whitespace_def)

lemma int_token: "starts_token (show_int v @ r)"
proof -
  obtain ds where ds: "show_int v = (if v < 0 then ''-'' else []) @ ds" "ds \<noteq> []" "list_all is_digit ds"
    by (rule show_int_digits)
  then show ?thesis
    by (cases ds) (auto simp: starts_token_def is_whitespace_def is_digit_def char_le_iff)
qed

end
