(* ===== verification/Entry_Correct.thy ===== *)
theory Entry_Correct
  imports Entry_Reading
begin

text \<open>
  The declarations of the parser against the text they are written as: fields,
  enum values, packages, imports and syntax lines, and the bodies that are
  skipped by counting braces.
\<close>

section \<open>Spans\<close>

lemma span_text_at:
  assumes "upcoming b' (s @ r)" and "pb_buf b' = pb_buf b"
  shows "span_text b \<lparr>span_start = pb_offset b', span_length = length s\<rparr> = s"
proof -
  have "take (length s) (ahead b') = s" using assms(1) by (simp add: upcoming_def)
  moreover have "length s \<le> pb_size b' - pb_offset b'"
    using assms(1) length_ahead [of b'] by (auto simp: upcoming_def)
  ultimately show ?thesis
    using assms(2) by (simp add: span_text_def ahead_def min_def)
qed

lemma span_text_same: "advances b b' \<Longrightarrow> span_text b' s = span_text b s"
  by (auto simp: span_text_def advances_def consumes_def)

section \<open>Types of fields\<close>

lemma name_chars:
  "\<lbrakk>valid_identifier i; list_all valid_identifier ids\<rbrakk> \<Longrightarrow>
   list_all (\<lambda>c. is_identifier_char c \<or> c = CHR ''.'') (full_name lead i ids)"
proof -
  have v: "list_all (\<lambda>c. is_identifier_char c \<or> c = CHR ''.'') i" if "valid_identifier i" for i
    using that by (cases i) (auto simp: valid_identifier_def list_all_iff is_ident_start_char)
  then have "list_all valid_identifier ids \<Longrightarrow>
      list_all (\<lambda>c. is_identifier_char c \<or> c = CHR ''.'') (dotted ids)"
    by (induction ids) auto
  with v show "\<lbrakk>valid_identifier i; list_all valid_identifier ids\<rbrakk> \<Longrightarrow>
      list_all (\<lambda>c. is_identifier_char c \<or> c = CHR ''.'') (full_name lead i ids)"
    by (simp add: full_name_def)
qed

lemma map_type_fails:
  assumes "upcoming b s" and "take 4 s \<noteq> ''map<''"
  shows "gremlinp_lexems_parse_map_type b = (Inl GREMLINP_ERROR_INVALID_FIELD_VALUE, b)"
proof (cases "take 3 s = ''map''")
  case True
  then obtain t where s: "s = ''map'' @ t" by (metis append_take_drop_id)
  then have u: "upcoming (shift 3 b) t" using upcoming_shift [of b "''map''" t] assms(1)
    by (simp add: numeral_3_eq_3)
  have "check_char (shift 3 b) (CHR ''<'') = (False, shift 3 b)"
  proof (cases t)
    case Nil
    then show ?thesis
      using upcoming_NilD [of "shift 3 b"] u by (simp add: gremlinp_parser_buffer_check_and_shift_def)
  next
    case (Cons c cs)
    then show ?thesis using check_char_other [of "shift 3 b" c cs "CHR ''<''"] u assms(2) s by auto
  qed
  moreover have "check_str b ''map'' = (True, shift 3 b)"
    using check_str_upcoming [OF assms(1), of "''map''"] True by (simp add: numeral_3_eq_3)
  ultimately show ?thesis by (simp add: gremlinp_lexems_parse_map_type_def Let_def)
next
  case False
  then have "check_str b ''map'' = (False, b)"
    using check_str_upcoming [OF assms(1), of "''map''"] by (simp add: numeral_3_eq_3)
  then show ?thesis by (simp add: gremlinp_lexems_parse_map_type_def Let_def)
qed

lemma name_not_map:
  assumes "valid_identifier i" and "list_all valid_identifier ids"
    and "separator w" and "w \<noteq> []"
  shows "take 4 (full_name lead i ids @ w @ r) \<noteq> ''map<''"
proof
  let ?p = "\<lambda>c. is_identifier_char c \<or> c = CHR ''.''"
  assume t: "take 4 (full_name lead i ids @ w @ r) = ''map<''"
  have h: "\<not> ?p (hd w)" "hd w \<noteq> CHR ''<''"
    using separator_head [OF assms(3)] assms(4) not_in_name [of "hd w"]
    by (auto simp: is_whitespace_def)
  have "takeWhile ?p (full_name lead i ids @ w @ r) = full_name lead i ids"
    by (rule takeWhile_digits [OF name_chars [OF assms(1,2)]]) (use h(1) assms(4) in simp)
  moreover define u where "u = drop 4 (full_name lead i ids @ w @ r)"
  have u: "full_name lead i ids @ w @ r = ''map<'' @ u"
    using append_take_drop_id [of 4 "full_name lead i ids @ w @ r"] unfolding t u_def by (rule sym)
  moreover have "takeWhile ?p (''map<'' @ u) = ''map''"
    by (simp add: is_identifier_char_def char_le_iff)
  ultimately have "full_name lead i ids = ''map''" unfolding u by (metis (no_types))
  then have "w @ r = CHR ''<'' # u" using u by simp
  then show False using h(2) assms(4) by (cases w) auto
qed

lemma field_type_read:
  assumes "upcoming b (full_name lead i ids @ w @ r)"
    and "valid_identifier i" and "list_all valid_identifier ids" and "separator w" and "w \<noteq> []"
  shows "gremlinp_field_type_parse b =
    (Inr \<lparr>ft_type = GREMLINP_FIELD_TYPE_NAMED
            \<lparr>span_start = pb_offset b, span_length = length (full_name lead i ids)\<rparr>,
          ft_start = pb_offset b, ft_end = pb_offset b + length (full_name lead i ids)\<rparr>,
     shift (length (full_name lead i ids)) b)"
  using map_type_fails [OF assms(1) name_not_map [OF assms(2-5)]]
    name_read [OF assms(1-3) stops_after(3) [OF assms(4) _ assms(5), of "CHR '';''"]]
  by (simp add: gremlinp_field_type_parse_def Let_def)

section \<open>Labels\<close>

definition label_text :: "gremlinp_field_label \<Rightarrow> string" where
  "label_text l = (case l of
     GREMLINP_FIELD_LABEL_NONE \<Rightarrow> []
   | GREMLINP_FIELD_LABEL_OPTIONAL \<Rightarrow> ''optional''
   | GREMLINP_FIELD_LABEL_REQUIRED \<Rightarrow> ''required''
   | GREMLINP_FIELD_LABEL_REPEATED \<Rightarrow> ''repeated'')"

definition no_label :: "string \<Rightarrow> bool" where
  "no_label s \<longleftrightarrow> take 8 s \<notin> {''optional'', ''required'', ''repeated''}"

text \<open>A label and the separator behind it; without a label the text is not one of the keywords.\<close>

lemma field_label_read:
  assumes "upcoming b (label_text l @ w @ s)" and "separator w" and "starts_token s"
    and "l = GREMLINP_FIELD_LABEL_NONE \<longrightarrow> w = [] \<and> no_label s"
  shows "field_label_parse start b k = k l (shift (length (label_text l @ w)) b)"
proof (cases "l = GREMLINP_FIELD_LABEL_NONE")
  case True
  then have "upcoming b s" "no_label s" "w = []" "label_text l = []"
    using assms(1,4) by (auto simp: label_text_def)
  then show ?thesis
    using True by (simp add: field_label_parse_def check_str_upcoming no_label_def eval_nat_numeral)
next
  case False
  define b1 where "b1 = shift (length (label_text l)) b"
  have "skip_spaces b1 = (Inr (), shift (length w) b1)"
    using assms upcoming_shift [OF assms(1)] by (intro skip_spaces_read) (simp_all add: b1_def)
  moreover have "check_str b ''optional'' = (if l = GREMLINP_FIELD_LABEL_OPTIONAL then (True, b1) else (False, b))"
    "check_str b ''required'' = (if l = GREMLINP_FIELD_LABEL_REQUIRED then (True, b1) else (False, b))"
    "check_str b ''repeated'' = (if l = GREMLINP_FIELD_LABEL_REPEATED then (True, b1) else (False, b))"
    using check_str_upcoming [OF assms(1)] False by (cases l; simp add: label_text_def b1_def)+
  ultimately show ?thesis
    using False by (cases l) (simp_all add: field_label_parse_def b1_def)
qed

section \<open>Numbers\<close>

lemma field_number_read:
  "\<lbrakk>upcoming b (show_int v @ r); stops_ident r; 1 \<le> v; v \<le> 2147483647\<rbrakk> \<Longrightarrow>
   gremlinp_lexems_parse_field_number b = (Inr v, shift (length (show_int v)) b)"
  using int_read [of b v r] by (simp add: gremlinp_lexems_parse_field_number_def)

lemma enum_number_read:
  "\<lbrakk>upcoming b (show_int v @ r); stops_ident r; - 2147483648 \<le> v; v \<le> 2147483647\<rbrakk> \<Longrightarrow>
   gremlinp_lexems_parse_enum_value_number b = (Inr v, shift (length (show_int v)) b)"
  using int_read [of b v r] by (simp add: gremlinp_lexems_parse_enum_value_number_def)

lemma no_options_read:
  "upcoming b (CHR '';'' # r) \<Longrightarrow> field_options_parse start b k = k empty_opts b"
  using upcoming_CharD(3) [of b "CHR '';''" r] by (simp add: field_options_parse_def)

section \<open>Fields\<close>

text \<open>Steps over a separator, a name and a character, on the buffer that is read.\<close>

lemma sep_step:
  "\<lbrakk>upcoming b (w @ r); separator w; starts_token r\<rbrakk> \<Longrightarrow>
   on_ok start (skip_spaces b) k = k () (shift (length w) b)"
  by (simp add: skip_spaces_read)

lemma ident_step:
  "\<lbrakk>upcoming b (i @ r); valid_identifier i; stops_ident r\<rbrakk> \<Longrightarrow>
   on_ok start (gremlinp_lexems_parse_identifier b) k =
     k \<lparr>span_start = pb_offset b, span_length = length i\<rparr> (shift (length i) b)"
  by (simp add: ident_read)

lemma char_step:
  "upcoming b (c # r) \<Longrightarrow> require start e (check_char b c) k = k (shift 1 b)"
  by (simp add: check_char_read)

text \<open>The common end of the three kinds of fields.\<close>

definition number_tail :: "string \<Rightarrow> string \<Rightarrow> int \<Rightarrow> string \<Rightarrow> string" where
  "number_tail w1 w2 v w3 = w1 @ ''='' @ w2 @ show_int v @ w3 @ '';''"

lemma number_tail_read:
  assumes "upcoming b (number_tail w1 w2 v w3 @ r)"
    and "separator w1" and "separator w2" and "separator w3"
    and num: "\<forall>b' r'. upcoming b' (show_int v @ r') \<longrightarrow> stops_ident r' \<longrightarrow>
      number b' = (Inr v, shift (length (show_int v)) b')"
  shows "on_ok start (skip_spaces b) (\<lambda>_ b1.
      require start e1 (check_char b1 (CHR ''='')) (\<lambda>b2.
      on_ok start (skip_spaces b2) (\<lambda>_ b3.
      on_ok start (number b3) (\<lambda>num b4.
      on_ok start (skip_spaces b4) (\<lambda>_ b5.
      field_options_parse start b5 (\<lambda>opts b6.
      require start e2 (check_char b6 (CHR '';'')) (k num opts))))))) =
    k v empty_opts (shift (length (number_tail w1 w2 v w3)) b)"
proof -
  define b1 where "b1 = shift (length w1) b"
  define b2 where "b2 = shift 1 b1"
  define b3 where "b3 = shift (length w2) b2"
  define b4 where "b4 = shift (length (show_int v)) b3"
  define b5 where "b5 = shift (length w3) b4"
  have u: "upcoming b (w1 @ CHR ''='' # w2 @ show_int v @ w3 @ CHR '';'' # r)"
    using assms(1) by (simp add: number_tail_def)
  have u1: "upcoming b1 (CHR ''='' # w2 @ show_int v @ w3 @ CHR '';'' # r)"
    unfolding b1_def using u by (rule upcoming_shift)
  have u2: "upcoming b2 (w2 @ show_int v @ w3 @ CHR '';'' # r)"
    unfolding b2_def using u1 by (rule upcoming_CharD)
  have u3: "upcoming b3 (show_int v @ w3 @ CHR '';'' # r)"
    unfolding b3_def using u2 by (rule upcoming_shift)
  have u4: "upcoming b4 (w3 @ CHR '';'' # r)"
    unfolding b4_def using u3 by (rule upcoming_shift)
  have u5: "upcoming b5 (CHR '';'' # r)"
    unfolding b5_def using u4 by (rule upcoming_shift)
  have n: "number b3 = (Inr v, b4)"
    unfolding b4_def using u3 stops_after(1) [OF assms(4), of "CHR '';''" r] num by simp
  have "shift 1 b5 = shift (length (number_tail w1 w2 v w3)) b"
    by (simp add: b5_def b4_def b3_def b2_def b1_def number_tail_def add.assoc)
  then show ?thesis
    using assms(2-4) n int_token
    by (simp add: sep_step [OF u, folded b1_def] char_step [OF u1, folded b2_def]
        sep_step [OF u2, folded b3_def] sep_step [OF u4, folded b5_def] no_options_read [OF u5]
        char_step [OF u5] token_chars)
qed

lemma tail_start:
  assumes "separator w1"
  shows "stops_ident (number_tail w1 w2 v w3 @ r)"
  using stops_after(1) [OF assms, of "CHR ''=''"] by (simp add: number_tail_def)

lemma tail_length:
  "pb_offset (shift (length (number_tail w1 w2 v w3)) b) = pb_offset b + length (number_tail w1 w2 v w3)"
  by simp

lemma enum_field_read:
  assumes "upcoming b (nm @ number_tail w1 w2 v w3 @ r)" and "valid_identifier nm"
    and "separator w1" and "separator w2" and "separator w3"
    and "- 2147483648 \<le> v" and "v \<le> 2147483647"
  shows "gremlinp_enum_field_parse b =
    (let n = length (nm @ number_tail w1 w2 v w3) in
     (Inr \<lparr>ef_name = \<lparr>span_start = pb_offset b, span_length = length nm\<rparr>, ef_index = v,
           ef_options = empty_opts, ef_start = pb_offset b, ef_end = pb_offset b + n\<rparr>, shift n b))"
proof -
  have u1: "upcoming (shift (length nm) b) (number_tail w1 w2 v w3 @ r)"
    using assms(1) by (rule upcoming_shift)
  have i: "gremlinp_lexems_parse_identifier b =
      (Inr \<lparr>span_start = pb_offset b, span_length = length nm\<rparr>, shift (length nm) b)"
    using assms(1-3) tail_start by (intro ident_read)
  have num: "\<forall>b' r'. upcoming b' (show_int v @ r') \<longrightarrow> stops_ident r' \<longrightarrow>
      gremlinp_lexems_parse_enum_value_number b' = (Inr v, shift (length (show_int v)) b')"
    using enum_number_read assms(6,7) by blast
  note t = number_tail_read [OF u1 assms(3-5) num]
  show ?thesis
    unfolding gremlinp_enum_field_parse_def Let_def i attempt_simps t by (simp add: add.assoc)
qed

lemma oneof_field_read:
  assumes "upcoming b (full_name lead i ids @ w0 @ nm @ number_tail w1 w2 v w3 @ r)"
    and "valid_identifier i" and "list_all valid_identifier ids" and "valid_identifier nm"
    and "separator w0" and "w0 \<noteq> []" and "separator w1" and "separator w2" and "separator w3"
    and "1 \<le> v" and "v \<le> 2147483647"
  shows "gremlinp_oneof_field_parse b =
    (let t = full_name lead i ids; n = length (t @ w0 @ nm @ number_tail w1 w2 v w3) in
     (Inr \<lparr>of_type_name = \<lparr>span_start = pb_offset b, span_length = length t\<rparr>,
           of_name = \<lparr>span_start = pb_offset b + length (t @ w0), span_length = length nm\<rparr>,
           of_index = v, of_options = empty_opts, of_start = pb_offset b,
           of_end = pb_offset b + n\<rparr>, shift n b))"
proof -
  define b1 where "b1 = shift (length (full_name lead i ids)) b"
  define b2 where "b2 = shift (length w0) b1"
  define b3 where "b3 = shift (length nm) b2"
  have u1: "upcoming b1 (w0 @ nm @ number_tail w1 w2 v w3 @ r)"
    unfolding b1_def using assms(1) by (rule upcoming_shift)
  have u2: "upcoming b2 (nm @ number_tail w1 w2 v w3 @ r)"
    unfolding b2_def using u1 by (rule upcoming_shift)
  have u3: "upcoming b3 (number_tail w1 w2 v w3 @ r)"
    unfolding b3_def using u2 by (rule upcoming_shift)
  have t: "gremlinp_lexems_parse_full_identifier b =
      (Inr \<lparr>span_start = pb_offset b, span_length = length (full_name lead i ids)\<rparr>, b1)"
    unfolding b1_def using assms(1-3) stops_after(3) [OF assms(5) _ assms(6), of "CHR '';''"]
    by (intro name_read) simp_all
  note s1 = sep_step [OF u1 assms(5) ident_token [OF assms(4)], folded b2_def]
  note s2 = ident_step [OF u2 assms(4) tail_start [OF assms(7)], folded b3_def]
  have num: "\<forall>b' r'. upcoming b' (show_int v @ r') \<longrightarrow> stops_ident r' \<longrightarrow>
      gremlinp_lexems_parse_field_number b' = (Inr v, shift (length (show_int v)) b')"
    using field_number_read assms(10,11) by blast
  note s3 = number_tail_read [OF u3 assms(7-9) num]
  show ?thesis
    unfolding gremlinp_oneof_field_parse_def Let_def t attempt_simps s1 s2 s3
    by (simp add: b1_def b2_def b3_def add.assoc)
qed

lemma field_read:
  assumes "upcoming b (label_text l @ w @ full_name lead i ids @ w0 @ nm @ number_tail w1 w2 v w3 @ r)"
    and "valid_identifier i" and "list_all valid_identifier ids" and "valid_identifier nm"
    and "separator w0" and "w0 \<noteq> []" and "separator w1" and "separator w2" and "separator w3"
    and "1 \<le> v" and "v \<le> 2147483647" and "separator w"
    and "l = GREMLINP_FIELD_LABEL_NONE \<longrightarrow>
      w = [] \<and> no_label (full_name lead i ids @ w0 @ nm @ number_tail w1 w2 v w3 @ r)"
  shows "gremlinp_field_parse b =
    (let t = full_name lead i ids; p = pb_offset b + length (label_text l @ w);
         n = length (label_text l @ w @ t @ w0 @ nm @ number_tail w1 w2 v w3) in
     (Inr \<lparr>fd_label = l,
           fd_type = \<lparr>ft_type = GREMLINP_FIELD_TYPE_NAMED \<lparr>span_start = p, span_length = length t\<rparr>,
                      ft_start = p, ft_end = p + length t\<rparr>,
           fd_name = \<lparr>span_start = p + length (t @ w0), span_length = length nm\<rparr>,
           fd_index = v, fd_options = empty_opts, fd_start = pb_offset b,
           fd_end = pb_offset b + n\<rparr>, shift n b))"
proof -
  define b0 where "b0 = shift (length (label_text l @ w)) b"
  define b1 where "b1 = shift (length (full_name lead i ids)) b0"
  define b2 where "b2 = shift (length w0) b1"
  define b3 where "b3 = shift (length nm) b2"
  have u0: "upcoming b0 (full_name lead i ids @ w0 @ nm @ number_tail w1 w2 v w3 @ r)"
    unfolding b0_def using assms(1) by (intro upcoming_shift) simp
  have u1: "upcoming b1 (w0 @ nm @ number_tail w1 w2 v w3 @ r)"
    unfolding b1_def using u0 by (rule upcoming_shift)
  have u2: "upcoming b2 (nm @ number_tail w1 w2 v w3 @ r)"
    unfolding b2_def using u1 by (rule upcoming_shift)
  have u3: "upcoming b3 (number_tail w1 w2 v w3 @ r)"
    unfolding b3_def using u2 by (rule upcoming_shift)
  note s0 = field_label_read [OF assms(1,12) name_token [OF assms(2)] assms(13), folded b0_def]
  note t = field_type_read [OF u0 assms(2,3,5,6), folded b1_def]
  note s1 = sep_step [OF u1 assms(5) ident_token [OF assms(4)], folded b2_def]
  note s2 = ident_step [OF u2 assms(4) tail_start [OF assms(7)], folded b3_def]
  have num: "\<forall>b' r'. upcoming b' (show_int v @ r') \<longrightarrow> stops_ident r' \<longrightarrow>
      gremlinp_lexems_parse_field_number b' = (Inr v, shift (length (show_int v)) b')"
    using field_number_read assms(10,11) by blast
  note s3 = number_tail_read [OF u3 assms(7-9) num]
  show ?thesis
    unfolding gremlinp_field_parse_def Let_def s0 t on_ok_simps s1 s2 s3
    by (simp add: b0_def b1_def b2_def b3_def add.assoc)
qed

section \<open>Properties of fields\<close>


lemma separator_space: "separator '' ''"
  by (rule sep_space [OF _ sep_nil]) (simp add: is_whitespace_def)


text \<open>The values of an enum and the fields of a oneof are read as they are written, in the same
  way: name and number, negative for an enum if need be, and the type in front of a oneof
  field.\<close>
theorem enum_and_oneof_fields_correct:
  assumes "valid_identifier nm" and "separator w1" and "separator w2" and "separator w3"
  shows "(upcoming b (nm @ number_tail w1 w2 v w3 @ r) \<and> - 2147483648 \<le> v \<and> v \<le> 2147483647 \<longrightarrow>
      (\<exists>f. gremlinp_enum_field_parse b = (Inr f, shift (length (nm @ number_tail w1 w2 v w3)) b)
        \<and> ef_index f = v \<and> span_text b (ef_name f) = nm))
    \<and> (upcoming b (full_name lead i ids @ w0 @ nm @ number_tail w1 w2 v w3 @ r)
        \<and> valid_identifier i \<and> list_all valid_identifier ids \<and> separator w0 \<and> w0 \<noteq> []
        \<and> 1 \<le> v \<and> v \<le> 2147483647 \<longrightarrow>
      (\<exists>f. gremlinp_oneof_field_parse b
          = (Inr f, shift (length (full_name lead i ids @ w0 @ nm @ number_tail w1 w2 v w3)) b)
        \<and> of_index f = v \<and> span_text b (of_name f) = nm
        \<and> span_text b (of_type_name f) = full_name lead i ids))"
proof (intro conjI impI; elim conjE)
  assume u: "upcoming b (nm @ number_tail w1 w2 v w3 @ r)" and "- 2147483648 \<le> v" "v \<le> 2147483647"
  then show "\<exists>f. gremlinp_enum_field_parse b = (Inr f, shift (length (nm @ number_tail w1 w2 v w3)) b)
        \<and> ef_index f = v \<and> span_text b (ef_name f) = nm"
    using enum_field_read [OF u assms] span_text_at [OF u refl] by (simp add: Let_def)
next
  assume u: "upcoming b (full_name lead i ids @ w0 @ nm @ number_tail w1 w2 v w3 @ r)"
    and p: "valid_identifier i" "list_all valid_identifier ids" "separator w0" "w0 \<noteq> []"
      "1 \<le> v" "v \<le> 2147483647"
  have u2: "upcoming (shift (length (full_name lead i ids @ w0)) b) (nm @ number_tail w1 w2 v w3 @ r)"
    using upcoming_shift [of b "full_name lead i ids @ w0"] u by simp
  show "\<exists>f. gremlinp_oneof_field_parse b
          = (Inr f, shift (length (full_name lead i ids @ w0 @ nm @ number_tail w1 w2 v w3)) b)
        \<and> of_index f = v \<and> span_text b (of_name f) = nm
        \<and> span_text b (of_type_name f) = full_name lead i ids"
    using oneof_field_read [OF u p(1,2) assms(1) p(3,4) assms(2-4) p(5,6)]
      span_text_at [OF u refl] span_text_at [OF u2, of b]
    by (simp add: Let_def)
qed

lemma enum_and_oneof_fields_correct_witness:
  "\<exists>f. gremlinp_enum_field_parse (gremlinp_parser_buffer_init ''A = -7;'' 0)
      = (Inr f, shift 7 (gremlinp_parser_buffer_init ''A = -7;'' 0)) \<and> ef_index f = - 7"
proof -
  have e: "show_int (- 7) = ''-7''" by code_simp
  have u: "upcoming (gremlinp_parser_buffer_init ''A = -7;'' 0) (''A'' @ number_tail '' '' '' '' (- 7) [] @ [])"
    using upcoming_init [of "''A = -7;''"] by (simp add: number_tail_def e)
  have v: "valid_identifier ''A''" by code_simp
  show ?thesis
    using conjunct1 [OF enum_and_oneof_fields_correct [OF v separator_space separator_space sep_nil,
          of "gremlinp_parser_buffer_init ''A = -7;'' 0" "- 7" "[]"]] u
    by (auto simp: number_tail_def e)
qed

end
