(* ===== verification/Entry_Nesting.thy ===== *)
theory Entry_Nesting
  imports Entry_Correct
begin

text \<open>
  Nested bodies: the brace counter that skips the body of a service or a group
  stops exactly at the brace that closes it, the depth counter of the message
  loop does what recursive descent would do, and every declaration parser is a
  transaction on the cursor with a span that covers what it read.
\<close>

section \<open>Bodies that are skipped\<close>

text \<open>Text inside quotes \<open>q\<close>, and text with balanced braces outside quotes.\<close>

inductive quoted :: "char \<Rightarrow> string \<Rightarrow> bool" for q where
  quoted_nil: "quoted q []"
| quoted_char: "c \<notin> {q, nul, CHR 0x5C} \<Longrightarrow> quoted q xs \<Longrightarrow> quoted q (c # xs)"
| quoted_escape: "c \<noteq> nul \<Longrightarrow> quoted q xs \<Longrightarrow> quoted q (CHR 0x5C # c # xs)"

definition is_quote :: "char \<Rightarrow> bool" where
  "is_quote c \<longleftrightarrow> c = CHR 0x22 \<or> c = CHR 0x27"

inductive balanced :: "string \<Rightarrow> bool" where
  balanced_nil: "balanced []"
| balanced_char: "c \<notin> {nul, CHR ''{'', CHR ''}''} \<Longrightarrow> \<not> is_quote c \<Longrightarrow> balanced xs \<Longrightarrow>
    balanced (c # xs)"
| balanced_quoted: "is_quote q \<Longrightarrow> quoted q qs \<Longrightarrow> balanced xs \<Longrightarrow> balanced (q # qs @ q # xs)"
| balanced_block: "balanced xs \<Longrightarrow> balanced ys \<Longrightarrow> balanced (CHR ''{'' # xs @ CHR ''}'' # ys)"

text \<open>Text that closes \<open>d\<close> open braces.\<close>

fun closes :: "nat \<Rightarrow> string \<Rightarrow> bool" where
  "closes 0 s \<longleftrightarrow> s = []"
| "closes (Suc d) s \<longleftrightarrow> (\<exists>x y. s = x @ CHR ''}'' # y \<and> balanced x \<and> closes d y)"

lemma skip_quoted_read:
  assumes "quoted q qs" and "q \<noteq> CHR 0x5C" and "q \<noteq> nul" and "upcoming b (qs @ q # r)"
  shows "skip_quoted q b = (Inr (), shift (length qs + 1) b)"
  using assms(1,4)
proof (induction qs arbitrary: b)
  case quoted_nil
  then have u: "upcoming b (q # r)" by simp
  show ?case using upcoming_CharD [OF u] assms(3) skip_quoted.simps [of q b] by (simp add: Let_def)
next
  case (quoted_char c xs)
  have u: "upcoming b (c # xs @ q # r)" using quoted_char.prems by simp
  note up = upcoming_CharD [OF u]
  show ?case
    using up quoted_char.IH [OF up(4)] quoted_char.hyps(1) skip_quoted.simps [of q b]
    by (simp add: Let_def)
next
  case (quoted_escape c xs)
  have u: "upcoming b (CHR 0x5C # c # xs @ q # r)" using quoted_escape.prems by simp
  note up = upcoming_CharD [OF u] and up2 = upcoming_CharD [OF upcoming_CharD(4) [OF u]]
  show ?case
    using up up2 quoted_escape.IH [OF up2(4)] quoted_escape.hyps(1) assms(2) skip_quoted.simps [of q b]
    by (simp add: Let_def)
qed

lemma skip_block_step:
  assumes "upcoming b (c # s)" and "0 < d" and "c \<noteq> nul" and "\<not> is_quote c"
  shows "skip_block_loop start d b = skip_block_loop start
    (if c = CHR ''{'' then d + 1 else if c = CHR ''}'' then d - 1 else d) (shift 1 b)"
  using upcoming_CharD(3) [OF assms(1)] assms(2-4) skip_block_loop.simps [of start d b]
  by (simp add: Let_def is_quote_def)

lemma skip_block_read:
  "balanced xs \<Longrightarrow> upcoming b (xs @ r) \<Longrightarrow> 0 < d \<Longrightarrow>
   skip_block_loop start d b = skip_block_loop start d (shift (length xs) b)"
proof (induction xs arbitrary: b d r rule: balanced.induct)
  case (balanced_char c xs)
  have u: "upcoming b (c # xs @ r)" using balanced_char.prems by simp
  show ?case
    using skip_block_step [OF u, of d start] balanced_char.hyps balanced_char.prems(2)
      balanced_char.IH [OF upcoming_CharD(4) [OF u], of d] by simp
next
  case (balanced_quoted q qs xs)
  have u: "upcoming b (q # qs @ q # xs @ r)" using balanced_quoted.prems by simp
  note up = upcoming_CharD [OF u]
  have q: "q \<noteq> CHR 0x5C" "q \<noteq> nul" "q \<noteq> CHR ''{''" "q \<noteq> CHR ''}''" "q = CHR 0x22 \<or> q = CHR 0x27"
    using balanced_quoted.hyps(1) by (auto simp: is_quote_def)
  have "upcoming (shift (length qs + 2) b) (xs @ r)"
    using upcoming_shift [of b "q # qs @ [q]" "xs @ r"] u by simp
  moreover have "skip_quoted q (shift 1 b) = (Inr (), shift (length qs + 2) b)"
    using skip_quoted_read [OF balanced_quoted.hyps(2) q(1,2) up(4)] by simp
  ultimately show ?case
    using up q balanced_quoted.prems(2) balanced_quoted.IH [of "shift (length qs + 2) b" r d]
      skip_block_loop.simps [of start d b]
    by (simp add: Let_def)
next
  case (balanced_block xs ys)
  have u: "upcoming b (CHR ''{'' # xs @ CHR ''}'' # ys @ r)" using balanced_block.prems by simp
  have u1: "upcoming (shift 1 b) (xs @ CHR ''}'' # ys @ r)" using u by (rule upcoming_CharD)
  have u2: "upcoming (shift (length xs) (shift 1 b)) (CHR ''}'' # ys @ r)"
    using u1 by (rule upcoming_shift)
  have u3: "upcoming (shift 1 (shift (length xs) (shift 1 b))) (ys @ r)"
    using u2 by (rule upcoming_CharD)
  show ?case
    using skip_block_step [OF u, of d start] balanced_block.IH(1) [OF u1, of "d + 1"]
      skip_block_step [OF u2, of "d + 1" start] balanced_block.IH(2) [OF u3, of d]
      balanced_block.prems(2)
    by (simp add: is_quote_def)
qed simp

lemma closes_read:
  "closes d s \<Longrightarrow> upcoming b (s @ r) \<Longrightarrow>
   skip_block_loop start d b = (Inr (), shift (length s) b)"
proof (induction d s arbitrary: b rule: closes.induct)
  case (1 s)
  then show ?case using skip_block_loop.simps [of start 0 b] by simp
next
  case (2 d s)
  then obtain x y where s: "s = x @ CHR ''}'' # y" "balanced x" "closes d y" by auto
  have u: "upcoming (shift (length x) b) (CHR ''}'' # y @ r)"
    using upcoming_shift [of b x "CHR ''}'' # y @ r"] "2.prems"(2) s(1) by simp
  show ?case
    using skip_block_read [OF s(2), of b "CHR ''}'' # y @ r" "Suc d" start] "2.prems"(2) s
      skip_block_step [OF u, of "Suc d" start] "2.IH" [OF s(3) upcoming_CharD(4) [OF u]]
    by (simp add: is_quote_def)
qed

text \<open>What a success says about the text.\<close>

lemma valid_shift1: "valid_buffer b \<Longrightarrow> pb_offset b < pb_size b \<Longrightarrow> valid_buffer (shift 1 b)"
  by (simp add: valid_buffer_def)

lemma skip_quoted_sound:
  "\<lbrakk>valid_buffer b; skip_quoted q b = (Inr (), b')\<rbrakk> \<Longrightarrow>
   \<exists>qs. quoted q qs \<and> ahead b = qs @ q # ahead b' \<and> b' = shift (length qs + 1) b"
proof (induction b rule: measure_induct_rule [of remaining])
  case (less b)
  let ?c = "gremlinp_parser_buffer_char b"
  have c0: "?c \<noteq> nul"
    using less.prems(2) skip_quoted.simps [of q b] by (auto simp: Let_def)
  then have lt: "pb_offset b < pb_size b" using char_in_text by blast
  have v1: "valid_buffer (shift 1 b)" and a: "ahead b = ?c # ahead (shift 1 b)"
    using less.prems(1) lt valid_shift1 ahead_Cons [OF less.prems(1) lt]
    by (simp_all add: gremlinp_parser_buffer_char_def)
  note sh = shift_shrinks [OF lt, of 1]
  show ?case
  proof (cases "?c = q")
    case True
    then have "b' = shift 1 b" using less.prems(2) c0 skip_quoted.simps [of q b] by (simp add: Let_def)
    then show ?thesis using a True by (intro exI [of _ "[]"]) (simp add: quoted_nil)
  next
    case nq: False
    let ?d = "gremlinp_parser_buffer_char (shift 1 b)"
    show ?thesis
    proof (cases "?c = CHR 0x5C \<and> ?d \<noteq> nul")
      case True
      then have lt1: "pb_offset (shift 1 b) < pb_size (shift 1 b)" using char_in_text by blast
      have r: "skip_quoted q (shift 1 (shift 1 b)) = (Inr (), b')"
        using less.prems(2) c0 nq True skip_quoted.simps [of q b] by (simp add: Let_def)
      have "remaining (shift 1 (shift 1 b)) < remaining b"
        using shift_shrinks [OF lt1, of 1] sh by simp
      then obtain qs where "quoted q qs" "ahead (shift 1 (shift 1 b)) = qs @ q # ahead b'"
          "b' = shift (length qs + 1) (shift 1 (shift 1 b))"
        using less.IH [OF _ valid_shift1 [OF v1 lt1] r] by blast
      moreover have "ahead (shift 1 b) = ?d # ahead (shift 1 (shift 1 b))"
        using ahead_Cons [OF v1 lt1] lt1 by (simp add: gremlinp_parser_buffer_char_def)
      ultimately show ?thesis
        using a True quoted_escape by (intro exI [of _ "?c # ?d # qs"]) simp
    next
      case False
      have r: "skip_quoted q (shift 1 b) = (Inr (), b')"
        using less.prems(2) c0 nq False skip_quoted.simps [of q b] by (auto simp: Let_def)
      then have "?c \<noteq> CHR 0x5C"
        using False skip_quoted.simps [of q "shift 1 b"] by (auto simp: Let_def)
      moreover obtain qs where "quoted q qs" "ahead (shift 1 b) = qs @ q # ahead b'"
          "b' = shift (length qs + 1) (shift 1 b)"
        using less.IH [OF _ v1 r] sh by auto
      ultimately show ?thesis
        using a nq c0 quoted_char by (intro exI [of _ "?c # qs"]) simp
    qed
  qed
qed

lemma closesI: "balanced x \<Longrightarrow> closes d y \<Longrightarrow> closes (Suc d) (x @ CHR ''}'' # y)"
  by auto

lemma closesE:
  assumes "closes (Suc d) s"
  obtains x y where "s = x @ CHR ''}'' # y" "balanced x" "closes d y"
  using assms by auto

lemma closes_char:
  assumes "closes (Suc d) s" and "c \<notin> {nul, CHR ''{'', CHR ''}''}" and "\<not> is_quote c"
  shows "closes (Suc d) (c # s)"
  using assms(1)
proof (rule closesE)
  fix x y assume "s = x @ CHR ''}'' # y" "balanced x" "closes d y"
  then show ?thesis using closesI [OF balanced_char [OF assms(2,3)], of x d y] by simp
qed

lemma closes_quoted:
  assumes "closes (Suc d) s" and "is_quote q" and "quoted q qs"
  shows "closes (Suc d) (q # qs @ q # s)"
  using assms(1)
proof (rule closesE)
  fix x y assume "s = x @ CHR ''}'' # y" "balanced x" "closes d y"
  then show ?thesis using closesI [OF balanced_quoted [OF assms(2,3)], of x d y] by simp
qed

lemma closes_open:
  assumes "closes (Suc (Suc d)) s"
  shows "closes (Suc d) (CHR ''{'' # s)"
proof -
  obtain x t where s: "s = x @ CHR ''}'' # t" "balanced x" "closes (Suc d) t"
    using assms by (rule closesE)
  obtain y z where t: "t = y @ CHR ''}'' # z" "balanced y" "closes d z"
    using s(3) by (rule closesE)
  show ?thesis
    using closesI [OF balanced_block [OF s(2) t(2)] t(3)] s(1) t(1) by simp
qed

lemma skip_block_sound:
  "\<lbrakk>valid_buffer b; skip_block_loop start d b = (Inr (), b')\<rbrakk> \<Longrightarrow>
   \<exists>s. closes d s \<and> ahead b = s @ ahead b' \<and> b' = shift (length s) b"
proof (induction b arbitrary: d rule: measure_induct_rule [of remaining])
  case (less b)
  note eq = skip_block_loop.simps [of start d b]
  let ?c = "gremlinp_parser_buffer_char b"
  show ?case
  proof (cases d)
    case 0
    then show ?thesis using less.prems eq by (intro exI [of _ "[]"]) simp
  next
    case (Suc k)
    have c0: "?c \<noteq> nul" using less.prems(2) eq Suc by (auto simp: Let_def)
    then have lt: "pb_offset b < pb_size b" using char_in_text by blast
    have v1: "valid_buffer (shift 1 b)" and a: "ahead b = ?c # ahead (shift 1 b)"
      using less.prems(1) lt valid_shift1 ahead_Cons [OF less.prems(1) lt]
      by (simp_all add: gremlinp_parser_buffer_char_def)
    have sh: "remaining (shift 1 b) < remaining b" using shift_shrinks [OF lt, of 1] by simp
    have step: "\<exists>s. closes d s \<and> ahead b = s @ ahead b' \<and> b' = shift (length s) b"
      if r: "skip_block_loop start e (shift 1 b) = (Inr (), b')"
        and c: "\<And>s. closes e s \<Longrightarrow> closes d (?c # s)" for e
    proof -
      obtain s where "closes e s" "ahead (shift 1 b) = s @ ahead b'" "b' = shift (length s) (shift 1 b)"
        using less.IH [OF sh v1 r] by blast
      then show ?thesis using c a by (intro exI [of _ "?c # s"]) simp
    qed
    consider (op) "?c = CHR ''{''" | (cl) "?c = CHR ''}''" | (q) "is_quote ?c" "?c \<noteq> CHR ''{''" "?c \<noteq> CHR ''}''"
      | (ch) "?c \<notin> {nul, CHR ''{'', CHR ''}''}" "\<not> is_quote ?c"
      using c0 by blast
    then show ?thesis
    proof cases
      case op
      then show ?thesis
        using less.prems(2) eq Suc closes_open [of k]
        by (intro step [of "Suc d"]) (simp_all add: Let_def del: closes.simps)
    next
      case cl
      then show ?thesis
        using less.prems(2) eq Suc closesI [OF balanced_nil, of k]
        by (intro step [of k]) (simp_all add: Let_def del: closes.simps)
    next
      case ch
      then show ?thesis
        using less.prems(2) eq Suc closes_char [of k]
        by (intro step [of d]) (auto simp: Let_def is_quote_def simp del: closes.simps)
    next
      case q
      then have "on_ok start (skip_quoted ?c (shift 1 b)) (\<lambda>_ b2. skip_block_loop start d b2) = (Inr (), b')"
        using less.prems(2) eq Suc c0 by (simp add: Let_def is_quote_def)
      then obtain b2 where r: "skip_quoted ?c (shift 1 b) = (Inr (), b2)" "skip_block_loop start d b2 = (Inr (), b')"
        by (auto dest!: on_ok_InrD)
      obtain qs where qs: "quoted ?c qs" "ahead (shift 1 b) = qs @ ?c # ahead b2"
          "b2 = shift (length qs + 1) (shift 1 b)"
        using skip_quoted_sound [OF v1 r(1)] by blast
      have "remaining b2 < remaining b" using skip_quoted_shrinks [OF r(1)] sh by simp
      moreover have "valid_buffer b2"
        using skip_quoted_advances [of "shift 1 b" ?c] r(1) advances_valid [OF _ v1] by simp
      ultimately obtain s where "closes d s" "ahead b2 = s @ ahead b'" "b' = shift (length s) b2"
        using less.IH [OF _ _ r(2)] by blast
      then show ?thesis
        using a qs Suc closes_quoted [OF _ q(1) qs(1), of k s]
        by (intro exI [of _ "?c # qs @ ?c # s"]) simp
    qed
  qed
qed

text \<open>C33. The skipped body of a service or a group ends exactly at the brace that closes it: the
  brace counter succeeds if and only if the text in front of it is balanced (braces inside
  quotes, and escaped characters there, do not count) up to a closing brace, and then it
  stops right behind that brace.\<close>
theorem skip_block_correct:
  assumes "valid_buffer b"
  shows "skip_block_loop start 1 b = (Inr (), b') \<longleftrightarrow>
    (\<exists>body. balanced body \<and> ahead b = body @ CHR ''}'' # ahead b' \<and> b' = shift (length body + 1) b)"
proof
  assume "skip_block_loop start 1 b = (Inr (), b')"
  then obtain s where s: "closes 1 s" "ahead b = s @ ahead b'" "b' = shift (length s) b"
    using skip_block_sound [OF assms] by blast
  then obtain body where "s = body @ [CHR ''}'']" "balanced body" by auto
  then show "\<exists>body. balanced body \<and> ahead b = body @ CHR ''}'' # ahead b' \<and> b' = shift (length body + 1) b"
    using s by (intro exI [of _ body]) simp
next
  assume "\<exists>body. balanced body \<and> ahead b = body @ CHR ''}'' # ahead b' \<and> b' = shift (length body + 1) b"
  then obtain body where "balanced body" "ahead b = (body @ ''}'') @ ahead b'" "b' = shift (length body + 1) b"
    by auto
  then show "skip_block_loop start 1 b = (Inr (), b')"
    using closes_read [of 1 "body @ ''}''" b "ahead b'" start] assms by (simp add: upcoming_def)
qed

lemma skip_block_correct_witness:
  "\<exists>body. balanced body \<and> body = ''rpc A(B) {}''"
proof -
  let ?b = "\<lambda>n. \<lparr>pb_buf = ''rpc A(B) {}} x'', pb_size = 14, pb_offset = n\<rparr>"
  have v: "valid_buffer (?b 0)" by (simp add: valid_buffer_def)
  have r: "skip_block_loop 0 1 (?b 0) = (Inr (), ?b 12)" by code_simp
  then obtain body where "balanced body" "ahead (?b 0) = body @ CHR ''}'' # ahead (?b 12)"
    using skip_block_correct [OF v, of 0 "?b 12"] by blast
  moreover have "ahead (?b 0) = ''rpc A(B) {}} x''" "ahead (?b 12) = '' x''" by code_simp+
  ultimately show ?thesis by auto
qed

text \<open>Comments are not looked at: an apostrophe in one hides the rest of the file.\<close>

lemma service_comment_apostrophe:
  "gremlinp_service_parse (gremlinp_parser_buffer_init
     (''service S { // isn'' @ [CHR 0x27] @ ''t here'' @ [newline] @ ''}'') 0)
   = (Inl GREMLINP_ERROR_UNEXPECTED_EOF, gremlinp_parser_buffer_init
     (''service S { // isn'' @ [CHR 0x27] @ ''t here'' @ [newline] @ ''}'') 0)"
  by code_simp

section \<open>Nested messages\<close>

text \<open>A loop followed by a continuation, along the control patterns of the loop.\<close>

lemma then_on_ok:
  assumes "yields t b r" and "moved q base b"
    and "\<And>x b'. moved (q \<or> t) base b' \<Longrightarrow> f x b' = on_ok start (g x b') k"
  shows "on_ok start r f = on_ok start (on_ok start' r g) k"
proof (cases r rule: result_cases)
  case (ok x b')
  then have "moved (q \<or> t) base b'" using after_ok [OF assms(2), of t x b'] assms(1) by simp
  with ok assms(3) show ?thesis by simp
qed simp

lemma then_attempt:
  assumes "settles b r" and "moved q base b"
    and "\<And>e. no e b = on_ok start (no' e b) k"
    and "\<And>x b'. moved True base b' \<Longrightarrow> yes x b' = on_ok start (yes' x b') k"
  shows "attempt r yes no = on_ok start (attempt r yes' no') k"
proof (cases r rule: result_cases)
  case (error e b')
  then show ?thesis using assms(1,3) by (simp add: settles_error)
next
  case (ok x b')
  then show ?thesis
    using assms(1,4) moved_trans [OF assms(2), of True b'] by (simp add: settles_ok)
qed

lemma then_if:
  "(c \<Longrightarrow> x = on_ok start x' k) \<Longrightarrow> (\<not> c \<Longrightarrow> y = on_ok start y' k) \<Longrightarrow>
   (if c then x else y) = on_ok start (if c then x' else y') k"
  by simp

lemma then_fail: "(Inl e, rewind start b) = on_ok start (Inl e, rewind start' b) k"
  by simp

text \<open>The depth counter splits: closing \<open>m + n\<close> levels is closing \<open>m\<close>, then \<open>n\<close>.\<close>

lemma message_body_split:
  "message_body_loop start (m + n) b =
     on_ok start (message_body_loop start' m b) (\<lambda>_ b'. message_body_loop start n b')"
proof (induction b arbitrary: m rule: measure_induct_rule [of remaining])
  case (less b)
  let ?then = "\<lambda>r. on_ok start r (\<lambda>_ b'. message_body_loop start n b')"
  show ?case
  proof (cases m)
    case 0
    then show ?thesis by (simp add: message_body_loop.simps [of start' 0])
  next
    case (Suc k)
    have again: "message_body_loop start (d + n) b' = ?then (message_body_loop start' d b')"
      if "moved True b b'" for b' d
      using that less.IH by (simp add: consumes_remaining)
    have close: "message_body_loop start (m + n - 1) b' = ?then (message_body_loop start' (m - 1) b')"
      if "moved True b b'" for b'
      using again [OF that, of k] Suc by simp
    have nest: "message_body_loop start (m + n + 1) b' = ?then (message_body_loop start' (m + 1) b')"
      if "moved True b b'" for b'
      using again [OF that, of "m + 1"] by (simp add: ac_simps)
    have m: "m \<noteq> 0" "m + n \<noteq> 0" using Suc by simp_all
    show ?thesis
      unfolding message_body_loop.simps [of start "m + n" b] message_body_loop.simps [of start' m b]
        if_not_P [OF m(1)] if_not_P [OF m(2)] Let_def
      by (assumption | rule close nest again
          | rule then_fail then_on_ok [where base = b] then_attempt [where base = b] then_if
          | rule parse_steps parse_contracts moved_refl moved_next | simp)+
  qed
qed

lemma check_str_InD:
  "check_str b kw = (True, b') \<Longrightarrow> text_at b kw \<and> pb_offset b + length kw \<le> pb_size b \<and> b' = shift (length kw) b"
  by (auto simp: gremlinp_parser_buffer_check_str_and_shift_def split: if_splits)

lemma at_message_keyword:
  assumes "check_str b ''message'' = (True, b')"
  shows "gremlinp_parser_buffer_char b = CHR ''m''" and "check_str b ''enum'' = (False, b)"
proof -
  have t: "take 7 (drop (pb_offset b) (pb_buf b)) = ''message''" and o: "pb_offset b + 7 \<le> pb_size b"
    using check_str_InD [OF assms] by (simp_all add: text_at_def eval_nat_numeral)
  then obtain r where r: "drop (pb_offset b) (pb_buf b) = ''message'' @ r"
    by (metis append_take_drop_id)
  then have "pb_offset b < length (pb_buf b)" by (cases "pb_offset b < length (pb_buf b)") simp_all
  then have "pb_buf b ! pb_offset b = CHR ''m''" using r hd_drop_conv_nth [of "pb_offset b" "pb_buf b"] by simp
  then show "gremlinp_parser_buffer_char b = CHR ''m''"
    using o by (simp add: gremlinp_parser_buffer_char_def)
  show "check_str b ''enum'' = (False, b)"
    using r by (simp add: gremlinp_parser_buffer_check_str_and_shift_def text_at_def)
qed

text \<open>A message is its header and a loop that closes one level.\<close>

lemma message_parse_ok:
  assumes "gremlinp_message_parse b = (Inr msg, b')"
  obtains b1 b2 where "check_str b ''message'' = (True, b1)" "nested_message_header b = (Inr (), b2)"
    "message_body_loop (pb_offset b) 1 b2 = (Inr (), b')"
proof -
  from assms obtain b1 b2 b3 b4 b5 name b6 where
    "check_str b ''message'' = (True, b1)" "skip_spaces b1 = (Inr (), b2)"
    "gremlinp_lexems_parse_identifier b2 = (Inr name, b3)" "skip_spaces b3 = (Inr (), b4)"
    "check_char b4 (CHR ''{'') = (True, b5)" "message_body_loop (pb_offset b) 1 b5 = (Inr (), b6)" "b6 = b'"
    unfolding gremlinp_message_parse_def Let_def
    by (auto dest!: on_ok_InrD require_InrD)
  then show thesis
    by (intro that [of b1 b5]) (simp_all add: nested_message_header_def Let_def)
qed

text \<open>C14. The flat message loop does what recursive descent would do: closing \<open>m + n\<close> levels is
  closing \<open>m\<close> levels and then \<open>n\<close> more from where that stopped; and where a nested message
  stands in a body, at any depth, the loop goes on right behind the end that the message
  parser finds for it.\<close>
theorem message_body_nesting:
  "message_body_loop start (m + n) b =
     on_ok start (message_body_loop start' m b) (\<lambda>_ b'. message_body_loop start n b') \<and>
   (skip_spaces b = (Inr (), b1) \<and> gremlinp_message_parse b1 = (Inr msg, b2) \<longrightarrow>
     message_body_loop start (Suc d) b = message_body_loop start (Suc d) b2)"
proof (intro conjI impI)
  assume a: "skip_spaces b = (Inr (), b1) \<and> gremlinp_message_parse b1 = (Inr msg, b2)"
  then have "gremlinp_message_parse b1 = (Inr msg, b2)" by blast
  then obtain b3 b4 where m: "check_str b1 ''message'' = (True, b3)"
      "nested_message_header b1 = (Inr (), b4)" "message_body_loop (pb_offset b1) 1 b4 = (Inr (), b2)"
    by (rule message_parse_ok)
  have "gremlinp_enum_parse b1 = (Inl GREMLINP_ERROR_UNEXPECTED_TOKEN, b1)"
    using at_message_keyword(2) [OF m(1)] by (simp add: gremlinp_enum_parse_def Let_def)
  then have "message_body_loop start (Suc d) b = message_body_loop start (1 + Suc d) b4"
    using a m(2) at_message_keyword(1) [OF m(1)] message_body_loop.simps [of start "Suc d" b]
    by (simp add: Let_def)
  also have "\<dots> = message_body_loop start (Suc d) b2"
    unfolding message_body_split [of start 1 "Suc d" b4 "pb_offset b1"] m(3) by simp
  finally show "message_body_loop start (Suc d) b = message_body_loop start (Suc d) b2" .
qed (rule message_body_split)

lemma message_body_nesting_witness:
  "message_body_loop 0 1 \<lparr>pb_buf = '' message A {;} }'', pb_size = 16, pb_offset = 0\<rparr>
    = message_body_loop 0 1 \<lparr>pb_buf = '' message A {;} }'', pb_size = 16, pb_offset = 14\<rparr>"
proof -
  let ?b = "\<lambda>n. \<lparr>pb_buf = '' message A {;} }'', pb_size = 16, pb_offset = n\<rparr>"
  have s: "skip_spaces (?b 0) = (Inr (), ?b 1)" by code_simp
  have m: "gremlinp_message_parse (?b 1) = (Inr \<lparr>mg_name = \<lparr>span_start = 9, span_length = 1\<rparr>,
      mg_body_start = 12, mg_body_end = 13, mg_start = 1, mg_end = 14\<rparr>, ?b 14)"
    by code_simp
  show ?thesis
    using mp [OF conjunct2 [OF message_body_nesting] conjI [OF s m], of 0 0] by simp
qed

section \<open>Where a body ends\<close>

text \<open>A body loop that succeeds stops right behind a closing brace, at the offset it reports.\<close>

definition finishes :: "('a \<Rightarrow> parser_buffer \<Rightarrow> nat) \<Rightarrow> parser_buffer \<Rightarrow> 'a parse_result \<Rightarrow> bool" where
  "finishes brace b r \<longleftrightarrow> (case r of (Inl e, b') \<Rightarrow> True
    | (Inr x, b') \<Rightarrow> consumes b b' \<and> pb_offset b' = Suc (brace x b') \<and> pb_buf b ! brace x b' = CHR ''}'')"

lemma finishes_fail: "finishes g b (Inl e, b')"
  by (simp add: finishes_def)

lemma finishes_on_ok:
  assumes "yields t b r" and "moved q base b"
    and "\<And>x b'. moved (q \<or> t) base b' \<Longrightarrow> finishes g base (k x b')"
  shows "finishes g base (on_ok start r k)"
proof (cases r rule: result_cases)
  case (ok x b')
  then have "moved (q \<or> t) base b'" using after_ok [OF assms(2), of t x b'] assms(1) by simp
  with ok assms(3) show ?thesis by simp
qed (simp add: finishes_fail)

lemma finishes_attempt:
  assumes "settles b r" and "moved q base b"
    and "\<And>e. finishes g base (no e b)"
    and "\<And>x b'. moved True base b' \<Longrightarrow> finishes g base (yes x b')"
  shows "finishes g base (attempt r yes no)"
proof (cases r rule: result_cases)
  case (error e b')
  then show ?thesis using assms(1,3) by (simp add: settles_error)
next
  case (ok x b')
  then show ?thesis
    using assms(1,4) moved_trans [OF assms(2), of True b'] by (simp add: settles_ok)
qed

lemma finishes_if:
  "(c \<Longrightarrow> finishes g b x) \<Longrightarrow> (\<not> c \<Longrightarrow> finishes g b y) \<Longrightarrow> finishes g b (if c then x else y)"
  by simp

lemma finishes_return:
  assumes "moved q base b" and "gremlinp_parser_buffer_char b = CHR ''}''"
    and "g x (shift 1 b) = pb_offset b"
  shows "finishes g base (Inr x, shift 1 b)"
proof -
  have lt: "pb_offset b < pb_size b" using char_in_text [OF assms(2)] by simp
  have "pb_buf base = pb_buf b"
    using moved_advances [OF assms(1)] by (auto simp: advances_def consumes_def)
  moreover have "consumes base (shift 1 b)"
    using moved_trans [OF assms(1), of True "shift 1 b"] lt by simp
  ultimately show ?thesis
    using assms(2,3) lt by (simp add: finishes_def gremlinp_parser_buffer_char_def)
qed

lemma finishes_again:
  assumes "moved True base b" and "\<And>b'. consumes base b' \<Longrightarrow> finishes g b' (f b')"
  shows "finishes g base (f b)"
  using assms(2) [of b] assms(1) consumes_trans [of base b]
  by (auto simp: finishes_def consumes_def split: prod.splits sum.splits)

lemmas finish_rules = finishes_on_ok finishes_attempt finishes_if finishes_fail finishes_return

lemma enum_body_finishes: "finishes (\<lambda>e _. e) b (enum_body_loop start b)"
proof (induction b rule: ends_induct)
  case (step b)
  note again = finishes_again [where f = "enum_body_loop start", OF _ step]
  show ?case
    unfolding enum_body_loop.simps [of start b] Let_def
    by (assumption | rule finish_rules again parse_steps parse_contracts moved_refl moved_next | simp)+
qed

lemma oneof_body_finishes: "finishes (\<lambda>e _. e) b (oneof_body_loop start b)"
proof (induction b rule: ends_induct)
  case (step b)
  note again = finishes_again [where f = "oneof_body_loop start", OF _ step]
  show ?case
    unfolding oneof_body_loop.simps [of start b] Let_def
    by (assumption | rule finish_rules again parse_steps parse_contracts moved_refl moved_next | simp)+
qed

lemma extend_body_finishes: "finishes (\<lambda>e _. e) b (extend_body_loop start b)"
proof (induction b rule: ends_induct)
  case (step b)
  note again = finishes_again [where f = "extend_body_loop start", OF _ step]
  show ?case
    unfolding extend_body_loop.simps [of start b] Let_def
    by (assumption | rule finish_rules again parse_steps parse_contracts moved_refl moved_next | simp)+
qed

lemma message_body_finishes:
  "0 < depth \<Longrightarrow> finishes (\<lambda>_ b'. pb_offset b' - 1) b (message_body_loop start depth b)"
proof (induction b arbitrary: depth rule: ends_induct)
  case (step b)
  have again: "finishes (\<lambda>_ b'. pb_offset b' - 1) b (message_body_loop start d b')"
    if "moved True b b'" and "0 < d" for b' d
    using that(1) by (rule finishes_again) (rule step(1) [OF _ that(2)])
  have close: "finishes (\<lambda>_ b'. pb_offset b' - 1) b (message_body_loop start (depth - 1) (shift 1 b'))"
    if "moved q b b'" and "gremlinp_parser_buffer_char b' = CHR ''}''" for b' q
  proof (cases "depth = 1")
    case True
    then show ?thesis
      using finishes_return [OF that, of "\<lambda>_ b'. pb_offset b' - 1" "()"] message_body_loop.simps [of start 0 "shift 1 b'"]
      by simp
  next
    case False
    then show ?thesis using step.prems moved_next [OF that] by (intro again) simp_all
  qed
  have d: "depth \<noteq> 0" "0 < depth + 1" using step.prems by simp_all
  show ?case
    unfolding message_body_loop.simps [of start depth b] Let_def if_not_P [OF d(1)]
    by (assumption | rule close step.prems d(2) finish_rules again
        | rule parse_steps parse_contracts moved_refl moved_next | simp)+
qed

text \<open>The body between its braces, and the end of the declaration right behind.\<close>

definition braced :: "parser_buffer \<Rightarrow> nat \<Rightarrow> nat \<Rightarrow> nat \<Rightarrow> bool" where
  "braced b body_start body_end stop \<longleftrightarrow>
     0 < body_start \<and> pb_buf b ! (body_start - 1) = CHR ''{'' \<and> body_start \<le> body_end \<and>
     pb_buf b ! body_end = CHR ''}'' \<and> stop = Suc body_end \<and> stop = pb_offset b"

lemma check_char_InD:
  "check_char b c = (True, b') \<Longrightarrow> pb_buf b ! pb_offset b = c \<and> b' = shift 1 b"
  by (auto simp: gremlinp_parser_buffer_check_and_shift_def split: if_splits)

lemma braced_finishes:
  assumes "check_char b4 (CHR ''{'') = (True, b5)" and "finishes g b5 (Inr x, b')"
  shows "braced b' (pb_offset b5) (g x b') (pb_offset b')"
  using check_char_InD [OF assms(1)] assms(2)
  by (auto simp: finishes_def braced_def consumes_def)

text \<open>C32. A declaration with a body reports its extent: it starts at the cursor, its body stands
  between an opening and a closing brace, and its end, where the cursor is left, is right
  behind the closing brace.\<close>
theorem declaration_bodies:
  "(gremlinp_message_parse b = (Inr m, b') \<longrightarrow>
      mg_start m = pb_offset b \<and> braced b' (mg_body_start m) (mg_body_end m) (mg_end m)) \<and>
   (gremlinp_enum_parse b = (Inr en, b') \<longrightarrow>
      em_start en = pb_offset b \<and> braced b' (em_body_start en) (em_body_end en) (em_end en)) \<and>
   (gremlinp_oneof_parse b = (Inr oo, b') \<longrightarrow>
      oo_start oo = pb_offset b \<and> braced b' (oo_body_start oo) (oo_body_end oo) (oo_end oo)) \<and>
   (gremlinp_extend_parse b = (Inr et, b') \<longrightarrow>
      et_start et = pb_offset b \<and> braced b' (et_body_start et) (et_body_end et) (et_end et))"
proof (intro conjI impI)
  assume a: "gremlinp_message_parse b = (Inr m, b')"
  then obtain b4 b5 where "check_char b4 (CHR ''{'') = (True, b5)"
      and r: "message_body_loop (pb_offset b) 1 b5 = (Inr (), b')"
      and "mg_body_start m = pb_offset b5" "mg_body_end m = pb_offset b' - 1" "mg_end m = pb_offset b'"
    unfolding gremlinp_message_parse_def Let_def by (auto dest!: on_ok_InrD require_InrD)
  then show "braced b' (mg_body_start m) (mg_body_end m) (mg_end m)"
    using braced_finishes [of b4 b5 "\<lambda>_ b'. pb_offset b' - 1" "()" b'] message_body_finishes [of 1 b5 "pb_offset b"]
    by simp
  show "mg_start m = pb_offset b"
    using a unfolding gremlinp_message_parse_def Let_def by (auto dest!: on_ok_InrD require_InrD)
next
  assume a: "gremlinp_enum_parse b = (Inr en, b')"
  then obtain b4 b5 e where "check_char b4 (CHR ''{'') = (True, b5)"
      and r: "enum_body_loop (pb_offset b) b5 = (Inr e, b')"
      and "em_body_start en = pb_offset b5" "em_body_end en = e" "em_end en = pb_offset b'"
    unfolding gremlinp_enum_parse_def Let_def by (auto dest!: on_ok_InrD require_InrD)
  then show "braced b' (em_body_start en) (em_body_end en) (em_end en)"
    using braced_finishes [of b4 b5 "\<lambda>e _. e" e b'] enum_body_finishes [of b5 "pb_offset b"] by simp
  show "em_start en = pb_offset b"
    using a unfolding gremlinp_enum_parse_def Let_def by (auto dest!: on_ok_InrD require_InrD)
next
  assume a: "gremlinp_oneof_parse b = (Inr oo, b')"
  then obtain b4 b5 e where "check_char b4 (CHR ''{'') = (True, b5)"
      and r: "oneof_body_loop (pb_offset b) b5 = (Inr e, b')"
      and "oo_body_start oo = pb_offset b5" "oo_body_end oo = e" "oo_end oo = pb_offset b'"
    unfolding gremlinp_oneof_parse_def Let_def by (auto dest!: on_ok_InrD require_InrD)
  then show "braced b' (oo_body_start oo) (oo_body_end oo) (oo_end oo)"
    using braced_finishes [of b4 b5 "\<lambda>e _. e" e b'] oneof_body_finishes [of b5 "pb_offset b"] by simp
  show "oo_start oo = pb_offset b"
    using a unfolding gremlinp_oneof_parse_def Let_def by (auto dest!: on_ok_InrD require_InrD)
next
  assume a: "gremlinp_extend_parse b = (Inr et, b')"
  then obtain b4 b5 e where "check_char b4 (CHR ''{'') = (True, b5)"
      and r: "extend_body_loop (pb_offset b) b5 = (Inr e, b')"
      and "et_body_start et = pb_offset b5" "et_body_end et = e" "et_end et = pb_offset b'"
    unfolding gremlinp_extend_parse_def Let_def by (auto dest!: on_ok_InrD require_InrD)
  then show "braced b' (et_body_start et) (et_body_end et) (et_end et)"
    using braced_finishes [of b4 b5 "\<lambda>e _. e" e b'] extend_body_finishes [of b5 "pb_offset b"] by simp
  show "et_start et = pb_offset b"
    using a unfolding gremlinp_extend_parse_def Let_def by (auto dest!: on_ok_InrD require_InrD)
qed

lemma declaration_bodies_witness:
  "braced \<lparr>pb_buf = ''message A {enum B{X=0;}} '', pb_size = 25, pb_offset = 24\<rparr> 11 23 24"
proof -
  let ?b = "\<lambda>n. \<lparr>pb_buf = ''message A {enum B{X=0;}} '', pb_size = 25, pb_offset = n\<rparr>"
  have m: "gremlinp_message_parse (?b 0) = (Inr \<lparr>mg_name = \<lparr>span_start = 8, span_length = 1\<rparr>,
      mg_body_start = 11, mg_body_end = 23, mg_start = 0, mg_end = 24\<rparr>, ?b 24)"
    by code_simp
  show ?thesis using mp [OF conjunct1 [OF declaration_bodies] m] by simp
qed

text \<open>C31. Every declaration parser, and every iterator over the entries of a body or a file, is a
  transaction on the cursor: a failure leaves the buffer as it was, and a success moves
  the cursor forward inside the text and changes nothing else.  A client that calls an
  iterator until it fails therefore stops, after at most as many entries as there are
  characters.\<close>
theorem declarations_restore:
  "settles b (gremlinp_syntax_parse b) \<and> settles b (gremlinp_edition_parse b) \<and>
   settles b (gremlinp_package_parse b) \<and> settles b (gremlinp_import_parse b) \<and>
   settles b (gremlinp_option_parse b) \<and> settles b (gremlinp_option_item_parse b) \<and>
   settles b (gremlinp_option_list_consume b) \<and> settles b (gremlinp_field_parse b) \<and>
   settles b (gremlinp_oneof_field_parse b) \<and> settles b (gremlinp_enum_field_parse b) \<and>
   settles b (gremlinp_reserved_parse b) \<and> settles b (gremlinp_extensions_parse b) \<and>
   settles b (gremlinp_enum_parse b) \<and> settles b (gremlinp_oneof_parse b) \<and>
   settles b (gremlinp_extend_parse b) \<and> settles b (gremlinp_service_parse b) \<and>
   settles b (gremlinp_group_parse b) \<and> settles b (gremlinp_message_parse b) \<and>
   settles b (gremlinp_enum_next_entry b) \<and> settles b (gremlinp_oneof_next_entry b) \<and>
   settles b (gremlinp_message_next_entry b) \<and> settles b (gremlinp_file_next_entry b)"
  by (intro conjI parse_contracts enum_entry.contract oneof_entry.contract message_entry.contract
      file_entry.contract)

end
