(* ===== verification/Build.thy ===== *)
theory Build
  imports Nodes Entry_Nesting
begin

text \<open>
  The two-pass builder, \<open>descriptors/src/build.c\<close>: the first pass counts the
  messages, enums and imports of a source, the second fills arrays of exactly
  these sizes while it walks the same text again.  Nested bodies are walked on the
  same buffer with its window moved.  An array under construction is the list of
  the slots written so far, in order, with its capacity; a write behind the last
  slot, undefined behaviour in C, is the error \<open>Overrun\<close>, and that it never
  arises is part of what is proved.  \<open>sizeof\<close> is that of an LP64 target.
\<close>

section \<open>Windows on the buffer\<close>

definition at_eof :: "parser_buffer \<Rightarrow> bool \<times> parser_buffer" where
  "at_eof b = (let b1 = skipped b in (pb_offset b1 \<ge> pb_size b1, b1))"

definition body_scope_enter :: "parser_buffer \<Rightarrow> nat \<Rightarrow> nat \<Rightarrow> parser_buffer" where
  "body_scope_enter b body_start body_end = b\<lparr>pb_offset := body_start, pb_size := body_end\<rparr>"

text \<open>\<open>saved\<close> is the buffer at the time of \<open>body_scope_enter\<close>.\<close>

definition body_scope_leave :: "parser_buffer \<Rightarrow> parser_buffer \<Rightarrow> parser_buffer" where
  "body_scope_leave saved b = b\<lparr>pb_offset := pb_offset saved, pb_size := pb_size saved\<rparr>"

lemma remaining_enter [simp]: "remaining (body_scope_enter b s e) = e - s"
  by (simp add: remaining_def body_scope_enter_def)

lemma remaining_leave [simp]: "remaining (body_scope_leave a b) = remaining a"
  by (simp add: remaining_def body_scope_leave_def)

section \<open>Options of a field\<close>

function extract_loop :: "string \<Rightarrow> parser_buffer \<Rightarrow> gremlinp_const option" where
  "extract_loop name b =
     (case skip_spaces b of (Inl _, _) \<Rightarrow> None | (Inr _, b1) \<Rightarrow>
      case check_char b1 (CHR '']'') of (closed, b2) \<Rightarrow>
      if closed then None
      else case gremlinp_option_item_parse b2 of (Inl _, _) \<Rightarrow> None | (Inr item, b3) \<Rightarrow>
      if span_text b3 (oi_name item) = name then Some (oi_value item)
      else case skip_spaces b3 of (Inl _, _) \<Rightarrow> None | (Inr _, b4) \<Rightarrow>
      case check_char b4 (CHR '']'') of (closed, b5) \<Rightarrow>
      if closed then None
      else case check_char b5 (CHR '','') of (comma, b6) \<Rightarrow>
      if \<not> comma then None else extract_loop name b6)"
  by pat_completeness auto
termination
  by (relation "measure (\<lambda>(_, b). remaining b)")
     (auto dest!: shrinks skip_spaces_shrinks [OF sym] option_item.ok_decreases [OF sym])

definition extract_option :: "parser_buffer \<Rightarrow> gremlinp_option_list \<Rightarrow> string \<Rightarrow> gremlinp_const option" where
  "extract_option orig opts name =
     (if ol_count opts = 0 then None
      else case check_char (rewind (ol_start opts) orig) (CHR ''['') of (opened, b) \<Rightarrow>
        if \<not> opened then None else extract_loop name b)"

definition extract_default_option :: "parser_buffer \<Rightarrow> gremlinp_option_list \<Rightarrow> gremlinp_const option" where
  "extract_default_option orig opts = extract_option orig opts ''default''"

definition gremlind_field_packed_option :: "parser_buffer \<Rightarrow> gremlinp_option_list \<Rightarrow> int" where
  "gremlind_field_packed_option b opts =
     (case extract_option b opts ''packed'' of
        Some (GREMLINP_CONST_IDENTIFIER s) \<Rightarrow>
          if span_text b s = ''true'' then 1 else if span_text b s = ''false'' then 0 else - 1
      | _ \<Rightarrow> - 1)"

definition gremlind_field_packing :: "gremlind_file \<Rightarrow> int \<Rightarrow> gremlind_packing" where
  "gremlind_field_packing fl opt =
     (if opt \<ge> 0 then (if opt = 1 then GREMLIND_PACKING_PACKED else GREMLIND_PACKING_EXPANDED)
      else if nl_edition fl \<noteq> None \<or>
        (case nl_syntax fl of Some v \<Rightarrow> length v = 6 \<and> v ! 5 = CHR ''3'' | None \<Rightarrow> False)
      then GREMLIND_PACKING_AUTO
      else GREMLIND_PACKING_EXPANDED)"

definition pack_field :: "gremlind_file \<Rightarrow> parser_buffer \<Rightarrow> gremlind_field \<Rightarrow> gremlind_field" where
  "pack_field fl b f =
     f\<lparr>nf_packing := gremlind_field_packing fl (gremlind_field_packed_option b (nf_options f))\<rparr>"

definition resolve_packing :: "gremlind_file \<Rightarrow> parser_buffer \<Rightarrow> gremlind_file" where
  "resolve_packing fl b =
     fl\<lparr>nl_messages := map (\<lambda>m. m\<lparr>nm_fields := map (pack_field fl b) (nm_fields m)\<rparr>) (nl_messages fl)\<rparr>"

definition isinf :: "u64 \<Rightarrow> bool" where
  "isinf d \<longleftrightarrow> d AND 0x7FFFFFFFFFFFFFFF = 0x7FF0000000000000"

definition isnan :: "u64 \<Rightarrow> bool" where
  "isnan d \<longleftrightarrow> d AND 0x7FFFFFFFFFFFFFFF > 0x7FF0000000000000"

definition hoist_codegen_hints :: "gremlind_field \<Rightarrow> gremlind_file \<Rightarrow> gremlind_file" where
  "hoist_codegen_hints fld fl =
     (case nf_default fld of
        None \<Rightarrow> fl
      | Some c \<Rightarrow>
          let fl1 = (case c of
                GREMLINP_CONST_FLOAT v \<Rightarrow> if isinf v \<or> isnan v then fl\<lparr>nl_needs_math_h := True\<rparr> else fl
              | _ \<Rightarrow> fl) in
          case nf_written fld of
            Written_Named tn \<Rightarrow>
              if tn = ''string'' \<or> tn = ''bytes'' then fl1\<lparr>nl_needs_string_h := True\<rparr> else fl1
          | Written_Map _ _ \<Rightarrow> fl1)"

section \<open>The first pass\<close>

record counts =
  n_imports :: nat
  n_enums :: nat
  n_messages :: nat

text \<open>The window of a nested body is smaller than what was left before its declaration.\<close>

lemma message_body_window:
  assumes "gremlinp_message_parse b = (Inr m, b')"
  shows "mg_body_end m - mg_body_start m < remaining b"
proof -
  obtain b1 b2 b3 b4 b5 nm u1 u2 where s: "check_str b ''message'' = (True, b1)" "skip_spaces b1 = (Inr u1, b2)"
      "gremlinp_lexems_parse_identifier b2 = (Inr nm, b3)" "skip_spaces b3 = (Inr u2, b4)"
      "check_char b4 (CHR ''{'') = (True, b5)"
    and r: "message_body_loop (pb_offset b) 1 b5 = (Inr (), b')"
    and e: "mg_body_start m = pb_offset b5" "mg_body_end m = pb_offset b' - 1"
    using assms unfolding gremlinp_message_parse_def Let_def by (auto dest!: on_ok_InrD require_InrD)
  have "remaining b5 < remaining b"
    using shrinks(1) [OF s(2)] shrinks(1) [OF s(4)] check_and_shift_shrinks(1) [OF s(5)]
      check_str_shrinks [OF s(1)] ident.ok_decreases [OF s(3)] by linarith
  moreover have "advances b5 b'" using message_body_loop_ends [of "pb_offset b" b5 1] r by (simp add: ends_def)
  then have "pb_offset b' - 1 - pb_offset b5 \<le> remaining b5"
    by (auto simp: advances_def consumes_def remaining_def)
  ultimately show ?thesis using e by simp
qed

lemma attempt_InrD:
  "attempt r yes no = (Inr x, b') \<Longrightarrow>
   (\<exists>v c. r = (Inr v, c) \<and> yes v c = (Inr x, b')) \<or> (\<exists>e c. r = (Inl e, c) \<and> no e c = (Inr x, b'))"
  by (auto simp: attempt_def split: prod.splits sum.splits)

lemma message_entry_window:
  assumes "gremlinp_message_next_entry b = (Inr r, b')" and "en_entry r = GREMLINP_MSG_ENTRY_MESSAGE m"
  shows "mg_body_end m - mg_body_start m < remaining b"
proof -
  have le: "remaining (skip_semicolons (skipped b)) \<le> remaining b"
    using moved_semicolons [OF moved_skipped [OF moved_refl [of b]]] by (auto simp: moved_def intro: advances_remaining)
  have "gremlinp_message_parse (skip_semicolons (skipped b)) = (Inr m, b')"
    using assms unfolding gremlinp_message_next_entry_def Let_def
    by (auto dest!: attempt_InrD entry_restores message_decl.error_restores)
  then show ?thesis using message_body_window le by fastforce
qed

text \<open>No entry is left: the end of the window, or an error.\<close>

definition ended :: "gremlinp_parsing_error \<Rightarrow> parser_buffer \<Rightarrow> 's \<Rightarrow> 's parse_result" where
  "ended e b s = (case at_eof b of (eof, b1) \<Rightarrow> (if eof then Inr s else Inl e, b1))"

function count_body_loop :: "parser_buffer \<Rightarrow> counts \<Rightarrow> counts parse_result" where
  "count_body_loop b out =
     attempt (gremlinp_message_next_entry b)
       (\<lambda>e b1. case en_entry e of
          GREMLINP_MSG_ENTRY_ENUM _ \<Rightarrow> count_body_loop b1 (out\<lparr>n_enums := n_enums out + 1\<rparr>)
        | GREMLINP_MSG_ENTRY_MESSAGE m \<Rightarrow>
            (case count_body_loop (body_scope_enter b1 (mg_body_start m) (mg_body_end m))
                (out\<lparr>n_messages := n_messages out + 1\<rparr>) of
               (Inl err, b2) \<Rightarrow> (Inl err, body_scope_leave b1 b2)
             | (Inr out1, b2) \<Rightarrow> count_body_loop (body_scope_leave b1 b2) out1)
        | _ \<Rightarrow> count_body_loop b1 out)
       (\<lambda>e b1. ended e b1 out)"
  by pat_completeness auto
termination
  by (relation "measure (\<lambda>(b, _). remaining b)")
     (auto dest: message_entry_window message_entry.ok_decreases)

definition count_message_body :: "parser_buffer \<Rightarrow> nat \<Rightarrow> nat \<Rightarrow> counts \<Rightarrow> counts parse_result" where
  "count_message_body b body_start body_end out =
     (case count_body_loop (body_scope_enter b body_start body_end) out of
        (r, b1) \<Rightarrow> (r, body_scope_leave b b1))"

lemma count_message_body_remaining:
  "count_message_body b s e out = (r, b1) \<Longrightarrow> remaining b1 = remaining b"
  by (auto simp: count_message_body_def split: prod.splits)

function count_entries_loop :: "parser_buffer \<Rightarrow> counts \<Rightarrow> counts parse_result" where
  "count_entries_loop b out =
     attempt (gremlinp_file_next_entry b)
       (\<lambda>e b1. case en_entry e of
          GREMLINP_FILE_ENTRY_IMPORT _ \<Rightarrow> count_entries_loop b1 (out\<lparr>n_imports := n_imports out + 1\<rparr>)
        | GREMLINP_FILE_ENTRY_ENUM _ \<Rightarrow> count_entries_loop b1 (out\<lparr>n_enums := n_enums out + 1\<rparr>)
        | GREMLINP_FILE_ENTRY_MESSAGE m \<Rightarrow>
            (case count_message_body b1 (mg_body_start m) (mg_body_end m)
                (out\<lparr>n_messages := n_messages out + 1\<rparr>) of
               (Inl err, b2) \<Rightarrow> (Inl err, b2)
             | (Inr out1, b2) \<Rightarrow> count_entries_loop b2 out1)
        | _ \<Rightarrow> count_entries_loop b1 out)
       (\<lambda>e b1. ended e b1 out)"
  by pat_completeness auto
termination
  by (relation "measure (\<lambda>(b, _). remaining b)")
     (auto dest!: file_entry.ok_decreases count_message_body_remaining [OF sym])

definition count_entries :: "parser_buffer \<Rightarrow> counts parse_result" where
  "count_entries b = count_entries_loop b \<lparr>n_imports = 0, n_enums = 0, n_messages = 0\<rparr>"

section \<open>The second pass\<close>

datatype build_error = Build_Error gremlinp_parsing_error | Overrun

type_synonym ('a, 'w) built = "(build_error + 'a) \<times> parser_buffer \<times> 'w pool"

record fill_state =
  fs_file :: gremlind_file
  fs_msg_cap :: nat
  fs_enum_cap :: nat

abbreviation (input) sizeof_enum_value :: nat where "sizeof_enum_value \<equiv> 80"
abbreviation (input) sizeof_field :: nat where "sizeof_field \<equiv> 272"
abbreviation (input) sizeof_import :: nat where "sizeof_import \<equiv> 56"
abbreviation (input) sizeof_enum :: nat where "sizeof_enum \<equiv> 112"
abbreviation (input) sizeof_message :: nat where "sizeof_message \<equiv> 128"
abbreviation (input) sizeof_file :: nat where "sizeof_file \<equiv> 216"

definition unnamed :: gremlind_scoped_name where
  "unnamed = \<lparr>segments = [], absolute = False\<rparr>"

definition enum_value :: "parser_buffer \<Rightarrow> gremlinp_enum_field \<Rightarrow> string \<times> int" where
  "enum_value b f = (span_text b (ef_name f), ef_index f)"

definition enum_node :: "parser_buffer \<Rightarrow> gremlinp_enum \<Rightarrow> nat option \<Rightarrow> (string \<times> int) list \<Rightarrow> gremlind_enum" where
  "enum_node b en parent values =
     \<lparr>ne_parsed = en, ne_name = span_text b (em_name en), ne_values = values, ne_parent = parent,
      ne_scoped_name = unnamed, ne_c_name = None\<rparr>"

definition message_node :: "parser_buffer \<Rightarrow> gremlinp_message \<Rightarrow> nat option \<Rightarrow> gremlind_field list \<Rightarrow> gremlind_message" where
  "message_node b m parent fds =
     \<lparr>nm_parsed = m, nm_name = span_text b (mg_name m), nm_fields = fds, nm_parent = parent,
      nm_scoped_name = unnamed, nm_c_name = None, nm_c_reader_ok = None, nm_c_predeclared = False\<rparr>"

definition written_of :: "parser_buffer \<Rightarrow> gremlinp_field_type_kind \<Rightarrow> written_type" where
  "written_of b t =
     (case t of
        GREMLINP_FIELD_TYPE_NAMED s \<Rightarrow> Written_Named (span_text b s)
      | GREMLINP_FIELD_TYPE_MAP m \<Rightarrow>
          Written_Map (span_text b (mt_key_type m)) (span_text b (mt_value_type m)))"

text \<open>A node filled by \<open>memset\<close> and the parser's result; all else is 0.\<close>

definition field_node :: "parser_buffer \<Rightarrow> gremlinp_field \<Rightarrow> gremlind_field" where
  "field_node b f =
     \<lparr>nf_name = span_text b (fd_name f), nf_label = fd_label f, nf_index = fd_index f,
      nf_written = written_of b (ft_type (fd_type f)), nf_options = fd_options f,
      nf_type = GREMLIND_TYPE_REF_UNRESOLVED, nf_default = extract_default_option b (fd_options f),
      nf_packing = GREMLIND_PACKING_AUTO, nf_origin_file = None, nf_origin_scope = None\<rparr>"

definition oneof_field_node :: "parser_buffer \<Rightarrow> gremlinp_oneof_field \<Rightarrow> gremlind_field" where
  "oneof_field_node b f = field_node b
     \<lparr>fd_label = GREMLINP_FIELD_LABEL_OPTIONAL,
      fd_type = \<lparr>ft_type = GREMLINP_FIELD_TYPE_NAMED (of_type_name f), ft_start = 0, ft_end = 0\<rparr>,
      fd_name = of_name f, fd_index = of_index f, fd_options = of_options f,
      fd_start = of_start f, fd_end = of_end f\<rparr>"

text \<open>Enums.\<close>

function count_values_loop :: "parser_buffer \<Rightarrow> nat \<Rightarrow> nat parse_result" where
  "count_values_loop b n =
     attempt (gremlinp_enum_next_entry b)
       (\<lambda>e b1. case en_entry e of
          GREMLINP_ENUM_ENTRY_FIELD _ \<Rightarrow> count_values_loop b1 (n + 1)
        | _ \<Rightarrow> count_values_loop b1 n)
       (\<lambda>e b1. ended e b1 n)"
  by pat_completeness auto
termination
  by (relation "measure (\<lambda>(b, _). remaining b)") (auto dest: enum_entry.ok_decreases)

function fill_values_loop :: "nat \<Rightarrow> parser_buffer \<Rightarrow> (string \<times> int) list \<Rightarrow>
    (build_error + (string \<times> int) list) \<times> parser_buffer" where
  "fill_values_loop n_values b values =
     attempt (gremlinp_enum_next_entry b)
       (\<lambda>e b1. case en_entry e of
          GREMLINP_ENUM_ENTRY_FIELD f \<Rightarrow>
            if length values \<ge> n_values then (Inl Overrun, b1)
            else fill_values_loop n_values b1 (values @ [enum_value b1 f])
        | _ \<Rightarrow> fill_values_loop n_values b1 values)
       (\<lambda>e b1. case ended e b1 values of (r, b2) \<Rightarrow> (map_sum Build_Error id r, b2))"
  by pat_completeness auto
termination
  by (relation "measure (\<lambda>(_, b, _). remaining b)") (auto dest: enum_entry.ok_decreases)

definition add_enum :: "gremlind_enum \<Rightarrow> fill_state \<Rightarrow> fill_state" where
  "add_enum e fs = fs\<lparr>fs_file := (fs_file fs)\<lparr>nl_enums := nl_enums (fs_file fs) @ [e]\<rparr>\<rparr>"

definition fill_enum :: "parser_buffer \<Rightarrow> gremlinp_enum \<Rightarrow> nat option \<Rightarrow> fill_state \<Rightarrow> 'w pool \<Rightarrow> (fill_state, 'w) built" where
  "fill_enum b en parent fs p =
     (if length (nl_enums (fs_file fs)) \<ge> fs_enum_cap fs then (Inl Overrun, b, p)
      else case count_values_loop (body_scope_enter b (em_body_start en) (em_body_end en)) 0 of
        (Inl e, b1) \<Rightarrow> (Inl (Build_Error e), body_scope_leave b b1, p)
      | (Inr n_values, b1) \<Rightarrow>
          let b2 = body_scope_leave b b1 in
          if n_values = 0 then (Inr (add_enum (enum_node b2 en parent []) fs), b2, p)
          else case pool_alloc (n_values * sizeof_enum_value) p of (ok, p1) \<Rightarrow>
            if \<not> ok then (Inl (Build_Error GREMLINP_ERROR_OUT_OF_MEMORY), b2, p1)
            else case fill_values_loop n_values (body_scope_enter b2 (em_body_start en) (em_body_end en)) [] of
              (Inl e, b3) \<Rightarrow> (Inl e, body_scope_leave b2 b3, p1)
            | (Inr values, b3) \<Rightarrow>
                (Inr (add_enum (enum_node b2 en parent values) fs), body_scope_leave b2 b3, p1))"

text \<open>Fields.\<close>

function count_oneof_loop :: "parser_buffer \<Rightarrow> nat \<Rightarrow> nat parse_result" where
  "count_oneof_loop b n =
     attempt (gremlinp_oneof_next_entry b)
       (\<lambda>e b1. case en_entry e of
          GREMLINP_ONEOF_ENTRY_FIELD _ \<Rightarrow> count_oneof_loop b1 (n + 1)
        | _ \<Rightarrow> count_oneof_loop b1 n)
       (\<lambda>e b1. ended e b1 n)"
  by pat_completeness auto
termination
  by (relation "measure (\<lambda>(b, _). remaining b)") (auto dest: oneof_entry.ok_decreases)

function count_fields_loop :: "parser_buffer \<Rightarrow> nat \<Rightarrow> nat parse_result" where
  "count_fields_loop b n =
     attempt (gremlinp_message_next_entry b)
       (\<lambda>e b1. case en_entry e of
          GREMLINP_MSG_ENTRY_FIELD _ \<Rightarrow> count_fields_loop b1 (n + 1)
        | GREMLINP_MSG_ENTRY_ONEOF oo \<Rightarrow>
            (case count_oneof_loop (body_scope_enter b1 (oo_body_start oo) (oo_body_end oo)) n of
               (Inl err, b2) \<Rightarrow> (Inl err, body_scope_leave b1 b2)
             | (Inr n1, b2) \<Rightarrow> count_fields_loop (body_scope_leave b1 b2) n1)
        | _ \<Rightarrow> count_fields_loop b1 n)
       (\<lambda>e b1. ended e b1 n)"
  by pat_completeness auto
termination
  by (relation "measure (\<lambda>(b, _). remaining b)") (auto dest: message_entry.ok_decreases)

text \<open>The assignment to \<open>out->fields.items[fi++]\<close>, \<open>out\<close> being message \<open>k\<close> of the file.\<close>

definition put_field :: "nat \<Rightarrow> nat \<Rightarrow> gremlind_field \<Rightarrow> fill_state \<Rightarrow> fill_state option" where
  "put_field k n_fields fld fs =
     (let fl = fs_file fs; m = nl_messages fl ! k in
      if length (nm_fields m) \<ge> n_fields then None
      else Some (fs\<lparr>fs_file := hoist_codegen_hints fld
        (fl\<lparr>nl_messages := (nl_messages fl)[k := m\<lparr>nm_fields := nm_fields m @ [fld]\<rparr>]\<rparr>)\<rparr>))"

function fill_oneof_loop :: "nat \<Rightarrow> nat \<Rightarrow> parser_buffer \<Rightarrow> fill_state \<Rightarrow> (build_error + fill_state) \<times> parser_buffer" where
  "fill_oneof_loop k n_fields b fs =
     attempt (gremlinp_oneof_next_entry b)
       (\<lambda>e b1. case en_entry e of
          GREMLINP_ONEOF_ENTRY_FIELD f \<Rightarrow>
            (case put_field k n_fields (oneof_field_node b1 f) fs of
               None \<Rightarrow> (Inl Overrun, b1)
             | Some fs1 \<Rightarrow> fill_oneof_loop k n_fields b1 fs1)
        | _ \<Rightarrow> fill_oneof_loop k n_fields b1 fs)
       (\<lambda>e b1. case ended e b1 fs of (r, b2) \<Rightarrow> (map_sum Build_Error id r, b2))"
  by pat_completeness auto
termination
  by (relation "measure (\<lambda>(_, _, b, _). remaining b)") (auto dest: oneof_entry.ok_decreases)

text \<open>Messages.  \<open>open_message\<close> is \<open>fill_message\<close> up to its walk over the body.\<close>

definition open_message :: "parser_buffer \<Rightarrow> gremlinp_message \<Rightarrow> nat option \<Rightarrow> fill_state \<Rightarrow> 'w pool \<Rightarrow>
    (nat \<times> nat \<times> fill_state, 'w) built" where
  "open_message b m parent fs p =
     (let fl = fs_file fs; k = length (nl_messages fl) in
      if k \<ge> fs_msg_cap fs then (Inl Overrun, b, p)
      else
        let fs1 = fs\<lparr>fs_file := fl\<lparr>nl_messages := nl_messages fl @ [message_node b m parent []]\<rparr>\<rparr> in
        case count_fields_loop (body_scope_enter b (mg_body_start m) (mg_body_end m)) 0 of
          (Inl e, b1) \<Rightarrow> (Inl (Build_Error e), body_scope_leave b b1, p)
        | (Inr n_fields, b1) \<Rightarrow>
            let b2 = body_scope_leave b b1 in
            if n_fields > 0 then
              (case pool_alloc (n_fields * sizeof_field) p of (ok, p1) \<Rightarrow>
                 if \<not> ok then (Inl (Build_Error GREMLINP_ERROR_OUT_OF_MEMORY), b2, p1)
                 else (Inr (k, n_fields, fs1), b2, p1))
            else (Inr (k, n_fields, fs1), b2, p))"

lemma open_message_remaining: "open_message b m parent fs p = (r, b1, p1) \<Longrightarrow> remaining b1 = remaining b"
  by (auto simp: open_message_def Let_def split: prod.splits sum.splits if_splits)

lemma fill_enum_remaining: "fill_enum b en parent fs p = (r, b1, p1) \<Longrightarrow> remaining b1 = remaining b"
  by (auto simp: fill_enum_def Let_def split: prod.splits sum.splits if_splits)

function fill_body_loop :: "nat \<Rightarrow> nat \<Rightarrow> parser_buffer \<Rightarrow> fill_state \<Rightarrow> 'w pool \<Rightarrow> (fill_state, 'w) built" where
  "fill_body_loop k n_fields b fs p =
     attempt (gremlinp_message_next_entry b)
       (\<lambda>e b1. case en_entry e of
          GREMLINP_MSG_ENTRY_FIELD f \<Rightarrow>
            (case put_field k n_fields (field_node b1 f) fs of
               None \<Rightarrow> (Inl Overrun, b1, p)
             | Some fs1 \<Rightarrow> fill_body_loop k n_fields b1 fs1 p)
        | GREMLINP_MSG_ENTRY_ENUM en \<Rightarrow>
            (case fill_enum b1 en (Some k) fs p of
               (Inl x, b2, p1) \<Rightarrow> (Inl x, b2, p1)
             | (Inr fs1, b2, p1) \<Rightarrow> fill_body_loop k n_fields b2 fs1 p1)
        | GREMLINP_MSG_ENTRY_MESSAGE m \<Rightarrow>
            (case open_message b1 m (Some k) fs p of
               (Inl x, b2, p1) \<Rightarrow> (Inl x, b2, p1)
             | (Inr (k1, n1, fs1), b2, p1) \<Rightarrow>
                 (case fill_body_loop k1 n1 (body_scope_enter b2 (mg_body_start m) (mg_body_end m)) fs1 p1 of
                    (Inl x, b3, p2) \<Rightarrow> (Inl x, body_scope_leave b2 b3, p2)
                  | (Inr fs2, b3, p2) \<Rightarrow> fill_body_loop k n_fields (body_scope_leave b2 b3) fs2 p2))
        | GREMLINP_MSG_ENTRY_ONEOF oo \<Rightarrow>
            (case fill_oneof_loop k n_fields (body_scope_enter b1 (oo_body_start oo) (oo_body_end oo)) fs of
               (Inl x, b2) \<Rightarrow> (Inl x, body_scope_leave b1 b2, p)
             | (Inr fs1, b2) \<Rightarrow> fill_body_loop k n_fields (body_scope_leave b1 b2) fs1 p)
        | _ \<Rightarrow> fill_body_loop k n_fields b1 fs p)
       (\<lambda>e b1. case ended e b1 fs of (r, b2) \<Rightarrow> (map_sum Build_Error id r, b2, p))"
  by pat_completeness auto
termination
  by (relation "measure (\<lambda>(_, _, b, _). remaining b)")
     (auto dest: message_entry_window message_entry.ok_decreases
        dest!: open_message_remaining [OF sym] fill_enum_remaining [OF sym])

definition fill_message :: "parser_buffer \<Rightarrow> gremlinp_message \<Rightarrow> nat option \<Rightarrow> fill_state \<Rightarrow> 'w pool \<Rightarrow> (fill_state, 'w) built" where
  "fill_message b m parent fs p =
     (case open_message b m parent fs p of
        (Inl x, b1, p1) \<Rightarrow> (Inl x, b1, p1)
      | (Inr (k, n_fields, fs1), b1, p1) \<Rightarrow>
          (case fill_body_loop k n_fields (body_scope_enter b1 (mg_body_start m) (mg_body_end m)) fs1 p1 of
             (r, b2, p2) \<Rightarrow> (r, body_scope_leave b1 b2, p2)))"

lemma fill_message_remaining: "fill_message b m parent fs p = (r, b1, p1) \<Longrightarrow> remaining b1 = remaining b"
  by (auto simp: fill_message_def dest: open_message_remaining split: prod.splits sum.splits)

text \<open>The file.\<close>

definition import_node :: "parser_buffer \<Rightarrow> gremlinp_import \<Rightarrow> gremlind_import" where
  "import_node b i = \<lparr>ni_path = span_text b (im_path i), ni_type = im_type i, ni_resolved = None\<rparr>"

definition on_file :: "(gremlind_file \<Rightarrow> gremlind_file) \<Rightarrow> fill_state \<Rightarrow> fill_state" where
  "on_file g fs = fs\<lparr>fs_file := g (fs_file fs)\<rparr>"

function fill_file :: "nat \<Rightarrow> parser_buffer \<Rightarrow> fill_state \<Rightarrow> 'w pool \<Rightarrow> (fill_state, 'w) built" where
  "fill_file n_imps b fs p =
     attempt (gremlinp_file_next_entry b)
       (\<lambda>e b1. case en_entry e of
          GREMLINP_FILE_ENTRY_SYNTAX x \<Rightarrow>
            fill_file n_imps b1 (on_file (\<lambda>fl. fl\<lparr>nl_syntax := Some (span_text b1 (sy_version x))\<rparr>) fs) p
        | GREMLINP_FILE_ENTRY_EDITION x \<Rightarrow>
            fill_file n_imps b1 (on_file (\<lambda>fl. fl\<lparr>nl_edition := Some (span_text b1 (ed_edition x))\<rparr>) fs) p
        | GREMLINP_FILE_ENTRY_PACKAGE x \<Rightarrow>
            fill_file n_imps b1 (on_file (\<lambda>fl. fl\<lparr>nl_package := Some (span_text b1 (pk_name x))\<rparr>) fs) p
        | GREMLINP_FILE_ENTRY_IMPORT i \<Rightarrow>
            if length (nl_imports (fs_file fs)) \<ge> n_imps then (Inl Overrun, b1, p)
            else fill_file n_imps b1 (on_file (\<lambda>fl. fl\<lparr>nl_imports := nl_imports fl @ [import_node b1 i]\<rparr>) fs) p
        | GREMLINP_FILE_ENTRY_ENUM en \<Rightarrow>
            (case fill_enum b1 en None fs p of
               (Inl x, b2, p1) \<Rightarrow> (Inl x, b2, p1)
             | (Inr fs1, b2, p1) \<Rightarrow> fill_file n_imps b2 fs1 p1)
        | GREMLINP_FILE_ENTRY_MESSAGE m \<Rightarrow>
            (case fill_message b1 m None fs p of
               (Inl x, b2, p1) \<Rightarrow> (Inl x, b2, p1)
             | (Inr fs1, b2, p1) \<Rightarrow> fill_file n_imps b2 fs1 p1)
        | _ \<Rightarrow> fill_file n_imps b1 fs p)
       (\<lambda>e b1. case ended e b1 fs of (r, b2) \<Rightarrow> (map_sum Build_Error id r, b2, p))"
  by pat_completeness auto
termination
  by (relation "measure (\<lambda>(_, b, _). remaining b)")
     (auto dest!: file_entry.ok_decreases fill_enum_remaining [OF sym] fill_message_remaining [OF sym])

definition empty_file :: gremlind_file where
  "empty_file = \<lparr>nl_syntax = None, nl_edition = None, nl_package = None, nl_imports = [], nl_enums = [],
     nl_messages = [], nl_visible = [], nl_needs_math_h = False, nl_needs_string_h = False\<rparr>"

text \<open>An allocation that is made only for a positive number of items.\<close>

definition alloc_items :: "nat \<Rightarrow> nat \<Rightarrow> 'w pool \<Rightarrow> bool \<times> 'w pool" where
  "alloc_items n item_size p = (if n > 0 then pool_alloc (n * item_size) p else (True, p))"

text \<open>The result is the file, or the error with its offset.\<close>

definition gremlind_build_file :: "'w pool \<Rightarrow> parser_buffer \<Rightarrow>
    (build_error \<times> nat + gremlind_file) \<times> parser_buffer \<times> 'w pool" where
  "gremlind_build_file p b =
     (let start_offset = pb_offset b; oom = Inl (Build_Error GREMLINP_ERROR_OUT_OF_MEMORY, 0) in
      case count_entries b of
        (Inl e, b1) \<Rightarrow> (Inl (Build_Error e, pb_offset b1), b1, p)
      | (Inr cnt, b1) \<Rightarrow>
          let b2 = rewind start_offset b1 in
          case pool_alloc sizeof_file p of (ok, p1) \<Rightarrow>
          if \<not> ok then (oom, b2, p1)
          else case alloc_items (n_imports cnt) sizeof_import p1 of (ok, p2) \<Rightarrow>
          if \<not> ok then (oom, b2, p2)
          else case alloc_items (n_enums cnt) sizeof_enum p2 of (ok, p3) \<Rightarrow>
          if \<not> ok then (oom, b2, p3)
          else case alloc_items (n_messages cnt) sizeof_message p3 of (ok, p4) \<Rightarrow>
          if \<not> ok then (oom, b2, p4)
          else case fill_file (n_imports cnt) b2
              \<lparr>fs_file = empty_file, fs_msg_cap = n_messages cnt, fs_enum_cap = n_enums cnt\<rparr> p4 of
            (Inl e, b3, p5) \<Rightarrow> (Inl (e, pb_offset b3), b3, p5)
          | (Inr fs, b3, p5) \<Rightarrow> (Inr (resolve_packing (fs_file fs) b3), b3, p5))"

declare extract_loop.simps [simp del] count_body_loop.simps [simp del] count_entries_loop.simps [simp del]
  count_values_loop.simps [simp del] fill_values_loop.simps [simp del] count_oneof_loop.simps [simp del]
  count_fields_loop.simps [simp del] fill_oneof_loop.simps [simp del] fill_body_loop.simps [simp del]
  fill_file.simps [simp del]

end
