(* ===== verification/Dfs.thy ===== *)
theory Dfs
  imports Prelude "HOL-Library.Sublist"
begin

text \<open>
  The iterative depth-first search that \<open>descriptors/src/resolve.c\<close> writes out three
  times, in \<open>gremlind_check_no_cycles\<close>, \<open>gremlind_topo_sort_files\<close> and
  \<open>gremlind_topo_sort_messages\<close>: three colours, an explicit stack of frames (a node
  and its next edge), nodes emitted in post-order.  The three copies differ only
  in what they do at a gray child, the parameter \<open>gray\<close>: give up (\<open>None\<close>), go on, or
  note it.  An edge that leads nowhere (no target among the nodes) is \<open>None\<close> in
  \<open>succs\<close>.  The stack has its top at the head.
\<close>

datatype color = WHITE | GRAY | BLACK

section \<open>The loops\<close>

definition whites :: "color list \<Rightarrow> nat" where
  "whites col = length (filter (\<lambda>c. c = WHITE) col)"

lemma whites_update_le: "x \<noteq> WHITE \<Longrightarrow> whites (col[v := x]) \<le> whites col"
  by (induction col arbitrary: v) (auto simp: whites_def split: nat.split)

lemma whites_update_less: "v < length col \<Longrightarrow> col ! v = WHITE \<Longrightarrow> x \<noteq> WHITE \<Longrightarrow> whites (col[v := x]) < whites col"
proof (induction col arbitrary: v)
  case (Cons c col)
  then show ?case by (cases v) (auto simp: whites_def)
qed simp

definition pending :: "(nat \<Rightarrow> nat option list) \<Rightarrow> (nat \<times> nat) list \<Rightarrow> nat" where
  "pending succs st = sum_list (map (\<lambda>(v, k). Suc (length (succs v) - k)) st)"

function dfs_loop :: "(nat \<Rightarrow> nat option list) \<Rightarrow> (nat \<Rightarrow> 'b \<Rightarrow> 'b option) \<Rightarrow> color list \<Rightarrow>
    (nat \<times> nat) list \<Rightarrow> 'b \<Rightarrow> nat list \<Rightarrow> nat + (color list \<times> 'b \<times> nat list)" where
  "dfs_loop succs gray col [] b out = Inr (col, b, out)"
| "dfs_loop succs gray col ((v, k) # st) b out =
     (if k \<ge> length (succs v) then dfs_loop succs gray (col[v := BLACK]) st b (out @ [v])
      else (case succs v ! k of
          None \<Rightarrow> dfs_loop succs gray col ((v, k + 1) # st) b out
        | Some c \<Rightarrow>
            if c \<ge> length col then dfs_loop succs gray col ((v, k + 1) # st) b out
            else if col ! c = GRAY then
              (case gray c b of None \<Rightarrow> Inl c | Some b' \<Rightarrow> dfs_loop succs gray col ((v, k + 1) # st) b' out)
            else if col ! c = BLACK then dfs_loop succs gray col ((v, k + 1) # st) b out
            else dfs_loop succs gray (col[c := GRAY]) ((c, 0) # (v, k + 1) # st) b out))"
  by pat_completeness auto
termination
proof (relation "(\<lambda>(_, _, col, _). whites col) <*mlex*> measure (\<lambda>(succs, _, _, st, _). pending succs st)", goal_cases)
  case 1
  show ?case by (intro wf_mlex wf_measure)
next
  case (2 succs gray col v k st b out)
  show ?case by (rule mlex_leq) (simp_all add: whites_update_le pending_def)
next
  case (7 succs gray col v k st b out c)
  then have "col ! c = WHITE" by (cases "col ! c") simp_all
  with 7 show ?case by (intro mlex_less) (simp add: whites_update_less)
qed (rule mlex_leq; simp add: pending_def)+

fun dfs_roots :: "(nat \<Rightarrow> nat option list) \<Rightarrow> (nat \<Rightarrow> 'b \<Rightarrow> 'b option) \<Rightarrow> nat list \<Rightarrow> color list \<Rightarrow> 'b \<Rightarrow>
    nat list \<Rightarrow> nat + (color list \<times> 'b \<times> nat list)" where
  "dfs_roots succs gray [] col b out = Inr (col, b, out)"
| "dfs_roots succs gray (root # roots) col b out =
     (if col ! root \<noteq> WHITE then dfs_roots succs gray roots col b out
      else (case dfs_loop succs gray (col[root := GRAY]) [(root, 0)] b out of
          Inl c \<Rightarrow> Inl c
        | Inr (col', b', out') \<Rightarrow> dfs_roots succs gray roots col' b' out'))"

definition dfs :: "(nat \<Rightarrow> nat option list) \<Rightarrow> (nat \<Rightarrow> 'b \<Rightarrow> 'b option) \<Rightarrow> nat \<Rightarrow> 'b \<Rightarrow>
    nat + (color list \<times> 'b \<times> nat list)" where
  "dfs succs gray n b = dfs_roots succs gray [0..<n] (replicate n WHITE) b []"

declare dfs_loop.simps [simp del]

section \<open>The invariant\<close>

text \<open>
  In the list \<open>out @ map fst st\<close> the emitted nodes are followed by those on the
  stack from its top: the order in which they will be emitted.  A new node enters
  between the two parts, and a finished one moves from the second to the first
  without changing the list, so \<open>before\<close> is stable.
\<close>

abbreviation before :: "nat list \<Rightarrow> nat \<Rightarrow> nat \<Rightarrow> bool" where
  "before L x y \<equiv> subseq [x, y] L"

definition edges :: "(nat \<Rightarrow> nat option list) \<Rightarrow> nat \<Rightarrow> (nat \<times> nat) set" where
  "edges succs n = {(v, c). v < n \<and> c < n \<and> Some c \<in> set (succs v)}"

text \<open>The first \<open>k\<close> edges of \<open>v\<close> lead to nodes emitted before it, or to noted ones.\<close>

definition seen :: "(nat \<Rightarrow> nat option list) \<Rightarrow> nat \<Rightarrow> nat list \<Rightarrow> nat set \<Rightarrow> nat \<Rightarrow> nat \<Rightarrow> bool" where
  "seen succs n L H v k \<longleftrightarrow> (\<forall>j < k. j < length (succs v) \<longrightarrow>
     (\<forall>c. succs v ! j = Some c \<longrightarrow> c < n \<longrightarrow> before L c v \<or> c \<in> H))"

text \<open>A noted node lies on a cycle and has a referrer that is emitted no later.\<close>

definition noted :: "(nat \<Rightarrow> nat option list) \<Rightarrow> nat \<Rightarrow> nat list \<Rightarrow> nat \<Rightarrow> bool" where
  "noted succs n L c \<longleftrightarrow> (c, c) \<in> (edges succs n)\<^sup>+ \<and>
     (\<exists>v. (v, c) \<in> edges succs n \<and> v \<in> set L \<and> c \<in> set L \<and> (v = c \<or> before L v c))"

fun stack_linked :: "(nat \<Rightarrow> nat option list) \<Rightarrow> (nat \<times> nat) list \<Rightarrow> bool" where
  "stack_linked succs ((c, k) # (v, j) # st) \<longleftrightarrow>
     0 < j \<and> j \<le> length (succs v) \<and> succs v ! (j - 1) = Some c \<and> stack_linked succs ((v, j) # st)"
| "stack_linked succs st \<longleftrightarrow> True"

definition dfs_inv :: "(nat \<Rightarrow> nat option list) \<Rightarrow> nat \<Rightarrow> color list \<Rightarrow> (nat \<times> nat) list \<Rightarrow>
    nat list \<Rightarrow> nat set \<Rightarrow> bool" where
  "dfs_inv succs n col st out H \<longleftrightarrow> (let L = out @ map fst st in
     length col = n \<and> distinct L \<and> set L \<subseteq> {..<n} \<and>
     (\<forall>v < n. col ! v = BLACK \<longleftrightarrow> v \<in> set out) \<and>
     (\<forall>v < n. col ! v = GRAY \<longleftrightarrow> v \<in> set (map fst st)) \<and>
     stack_linked succs st \<and>
     (\<forall>v \<in> set out. seen succs n L H v (length (succs v))) \<and>
     (\<forall>(v, k) \<in> set st. seen succs n L H v k) \<and>
     (\<forall>c \<in> H. noted succs n L c))"

lemma before_append: "x \<in> set xs \<Longrightarrow> y \<in> set ys \<Longrightarrow> before (xs @ ys) x y"
  using list_emb_append_mono [of "(=)" "[x]" xs "[y]" ys] by (simp add: subseq_singleton_left)

lemma before_insert: "before (xs @ ys) x y \<Longrightarrow> before (xs @ z # ys) x y"
proof -
  have "subseq (xs @ ys) (xs @ [z] @ ys)" by (rule list_emb_append_mono [OF subseq_order.refl subseq_drop_many [OF subseq_order.refl]])
  then show "before (xs @ ys) x y \<Longrightarrow> ?thesis" using subseq_order.trans by auto
qed

lemma before_prefix: "before L x y \<Longrightarrow> before (L @ ys) x y"
  by (rule list_emb_prefix)

lemma before_memD: "before L x y \<Longrightarrow> x \<in> set L \<and> y \<in> set L"
  using list_emb_set [of "(=)" "[x, y]" L x] list_emb_set [of "(=)" "[x, y]" L y] by auto

text \<open>A rank that \<open>before\<close> increases.\<close>

definition rank :: "nat list \<Rightarrow> nat \<Rightarrow> nat" where
  "rank L x = length (takeWhile (\<lambda>y. y \<noteq> x) L)"

lemma before_rank: "distinct L \<Longrightarrow> before L x y \<Longrightarrow> rank L x < rank L y"
proof (induction L)
  case (Cons z L)
  show ?case
  proof (cases "x = z")
    case True
    then have "y \<in> set L" using Cons.prems by (auto simp: subseq_singleton_left)
    then have "y \<noteq> z" using Cons.prems(1) by auto
    then show ?thesis using True by (simp add: rank_def)
  next
    case False
    then have "before L x y" using Cons.prems(2) by (auto elim: list_emb.cases)
    then have "y \<noteq> z" "rank L x < rank L y" using Cons before_memD by auto
    then show ?thesis using False by (simp add: rank_def)
  qed
qed simp

lemma seen_mono:
  "seen succs n L H v k \<Longrightarrow> (\<And>x y. before L x y \<Longrightarrow> before L' x y) \<Longrightarrow> H \<subseteq> H' \<Longrightarrow> seen succs n L' H' v k"
  unfolding seen_def by blast

lemma noted_mono:
  "noted succs n L c \<Longrightarrow> (\<And>x y. before L x y \<Longrightarrow> before L' x y) \<Longrightarrow> set L \<subseteq> set L' \<Longrightarrow> noted succs n L' c"
  unfolding noted_def by blast

lemma stack_path:
  "stack_linked succs st \<Longrightarrow> st = (v, k) # st' \<Longrightarrow> set (map fst st) \<subseteq> {..<n} \<Longrightarrow> c \<in> set (map fst st) \<Longrightarrow>
   (c, v) \<in> (edges succs n)\<^sup>*"
proof (induction succs st arbitrary: v k st' rule: stack_linked.induct)
  case (1 succs c' k' u j st)
  show ?case
  proof (cases "c = v")
    case False
    have "c \<in> set (map fst ((u, j) # st))" using False 1 by auto
    then have "(c, u) \<in> (edges succs n)\<^sup>*" using 1 by (intro "1.IH" [OF _ refl]) auto
    moreover have "j - 1 < length (succs u)" "succs u ! (j - 1) = Some v" using 1 by auto
    then have "Some v \<in> set (succs u)" using nth_mem by metis
    then have "(u, v) \<in> edges succs n" using 1 by (auto simp: edges_def)
    ultimately show ?thesis by (rule rtrancl_into_rtrancl)
  qed simp
qed auto

lemma stack_top: "stack_linked succs ((v, k) # st) \<Longrightarrow> stack_linked succs ((v, k') # st)"
  by (cases st) auto

section \<open>The steps keep it\<close>

lemma dfs_inv_top: "dfs_inv succs n col ((v, k) # st) out H \<Longrightarrow> seen succs n (out @ v # map fst st) H v k"
  by (simp add: dfs_inv_def Let_def)

lemma seen_Suc:
  "seen succs n L H v k \<Longrightarrow>
   (\<And>c. succs v ! k = Some c \<Longrightarrow> c < n \<Longrightarrow> before L c v \<or> c \<in> H) \<Longrightarrow> seen succs n L H v (k + 1)"
  by (auto simp: seen_def less_Suc_eq)

lemma dfs_inv_edge:
  assumes inv: "dfs_inv succs n col ((v, k) # st) out H" and k: "k < length (succs v)"
    and new: "\<And>c. succs v ! k = Some c \<Longrightarrow> c < n \<Longrightarrow> before (out @ v # map fst st) c v \<or> c \<in> H'"
    and H: "H \<subseteq> H'" "\<forall>c \<in> H'. noted succs n (out @ v # map fst st) c"
  shows "dfs_inv succs n col ((v, k + 1) # st) out H'"
proof -
  have "seen succs n (out @ v # map fst st) H' v (k + 1)"
    using seen_mono [OF dfs_inv_top [OF inv] _ H(1)] new by (intro seen_Suc) blast+
  moreover have "\<And>u j. seen succs n (out @ v # map fst st) H u j \<Longrightarrow> seen succs n (out @ v # map fst st) H' u j"
    using H(1) seen_mono by blast
  ultimately show ?thesis using inv H(2) stack_top [of succs v k st "k + 1"]
    by (auto simp: dfs_inv_def Let_def)
qed

lemma dfs_inv_pop:
  assumes inv: "dfs_inv succs n col ((v, k) # st) out H" and k: "length (succs v) \<le> k"
  shows "dfs_inv succs n (col[v := BLACK]) st (out @ [v]) H"
proof -
  have "seen succs n (out @ v # map fst st) H v (length (succs v))"
    using dfs_inv_top [OF inv] k less_le_trans unfolding seen_def by blast
  moreover have "stack_linked succs st" using inv by (cases st) (auto simp: dfs_inv_def Let_def)
  moreover have "v < n" "v \<notin> set (map fst st)" "v \<notin> set out" "length col = n"
    using inv by (auto simp: dfs_inv_def Let_def)
  ultimately show ?thesis using inv by (auto simp: dfs_inv_def Let_def nth_list_update)
qed

lemma dfs_inv_push:
  assumes inv: "dfs_inv succs n col ((v, k) # st) out H" and k: "k < length (succs v)"
    and c: "succs v ! k = Some c" "c < n" "col ! c = WHITE"
  shows "dfs_inv succs n (col[c := GRAY]) ((c, 0) # (v, k + 1) # st) out H"
proof -
  let ?L = "out @ v # map fst st" and ?L' = "out @ c # v # map fst st"
  have b: "before ?L x y \<Longrightarrow> before ?L' x y" for x y by (rule before_insert)
  have new: "c \<notin> set out" "c \<notin> set (map fst ((v, k) # st))" "length col = n"
    using inv c by (auto simp: dfs_inv_def Let_def)
  have "before ?L' c v" using before_append [of c "out @ [c]" v "v # map fst st"] by simp
  then have "seen succs n ?L' H v (k + 1)"
    using seen_mono [OF dfs_inv_top [OF inv] b] c(1) by (intro seen_Suc) auto
  moreover have "seen succs n ?L H u j \<Longrightarrow> seen succs n ?L' H u j" for u j
    by (rule seen_mono [OF _ b order_refl])
  moreover have "noted succs n ?L u \<Longrightarrow> noted succs n ?L' u" for u
    by (rule noted_mono [OF _ b]) auto
  moreover have "stack_linked succs ((c, 0) # (v, k + 1) # st)"
    using inv k c stack_top [of succs v k st "k + 1"] by (auto simp: dfs_inv_def Let_def)
  moreover have "seen succs n ?L' H c 0" by (simp add: seen_def)
  ultimately show ?thesis using inv new c(2) by (auto simp: dfs_inv_def Let_def nth_list_update)
qed

lemma dfs_inv_gray:
  assumes inv: "dfs_inv succs n col ((v, k) # st) out H" and k: "k < length (succs v)"
    and c: "succs v ! k = Some c" "c < n" "col ! c = GRAY"
  shows "noted succs n (out @ v # map fst st) c"
proof -
  have L: "set (map fst ((v, k) # st)) \<subseteq> {..<n}" and l: "stack_linked succs ((v, k) # st)"
    and m: "c \<in> set (map fst ((v, k) # st))"
    using inv c by (auto simp: dfs_inv_def Let_def)
  have "Some c \<in> set (succs v)" using c(1) k nth_mem by metis
  then have e: "(v, c) \<in> edges succs n" using L c(2) by (auto simp: edges_def)
  then have "(c, c) \<in> (edges succs n)\<^sup>+" by (rule rtrancl_into_trancl1 [OF stack_path [OF l refl L m]])
  moreover have "v = c \<or> before (out @ v # map fst st) v c"
    using m before_append [of v "out @ [v]" c "map fst st"] by auto
  ultimately show ?thesis using e m by (auto simp: noted_def)
qed

section \<open>The search\<close>

text \<open>
  What the three uses have in common: \<open>gray\<close> either gives up or goes on with a state
  that has noted the gray child.  \<open>stands b H\<close> says that the state \<open>b\<close> stands for the
  set \<open>H\<close> of noted nodes.
\<close>

locale dfs_search =
  fixes gray :: "nat \<Rightarrow> 'b \<Rightarrow> 'b option" and stands :: "'b \<Rightarrow> nat set \<Rightarrow> bool"
  assumes stands_gray: "stands b H \<Longrightarrow> gray c b = Some b' \<Longrightarrow> stands b' (insert c H)"
begin

definition finds :: "(nat \<Rightarrow> nat option list) \<Rightarrow> nat \<Rightarrow> nat list \<Rightarrow> nat + (color list \<times> 'b \<times> nat list) \<Rightarrow> bool" where
  "finds succs n L r \<longleftrightarrow> (case r of
     Inl c \<Rightarrow> c < n \<and> (c, c) \<in> (edges succs n)\<^sup>+ \<and> (\<exists>b. gray c b = None)
   | Inr (col, b, out) \<Rightarrow> \<exists>H. dfs_inv succs n col [] out H \<and> stands b H \<and> set L \<subseteq> set out)"

lemma loop_finds:
  "g = gray \<Longrightarrow> dfs_inv succs n col st out H \<Longrightarrow> stands b H \<Longrightarrow>
   finds succs n (out @ map fst st) (dfs_loop succs g col st b out)"
proof (induction succs g col st b out arbitrary: H rule: dfs_loop.induct)
  case (1 succs g col b out)
  then show ?case by (auto simp: dfs_loop.simps finds_def)
next
  case (2 succs g col v k st b out)
  note inv = "2.prems"(2) and st = "2.prems"(3)
  have g: "g = gray" and H: "\<forall>c \<in> H. noted succs n (out @ v # map fst st) c"
    and v: "v \<in> set (out @ v # map fst st)" and n: "length col = n"
    using "2.prems" by (auto simp: dfs_inv_def Let_def)
  note unf = dfs_loop.simps(2) [of succs g col v k st b out]
  consider (pop) "k \<ge> length (succs v)"
    | (none) "k < length (succs v)" "succs v ! k = None"
    | (out) c where "k < length (succs v)" "succs v ! k = Some c" "c \<ge> n"
    | (gray) c where "k < length (succs v)" "succs v ! k = Some c" "c < n" "col ! c = GRAY"
    | (black) c where "k < length (succs v)" "succs v ! k = Some c" "c < n" "col ! c = BLACK"
    | (white) c where "k < length (succs v)" "succs v ! k = Some c" "c < n" "col ! c = WHITE"
  proof -
    have "thesis" if "k < length (succs v)" "succs v ! k = Some c" "c < n" for c
      using gray [OF that] black [OF that] white [OF that] by (cases "col ! c") simp_all
    then show thesis using pop none out not_le by (cases "succs v ! k") auto
  qed
  then show ?case
  proof cases
    case pop
    then show ?thesis using "2.IH"(1) [OF pop g dfs_inv_pop [OF inv pop] st] unf by simp
  next
    case none
    have "dfs_inv succs n col ((v, k + 1) # st) out H"
      by (rule dfs_inv_edge [OF inv none(1) _ order_refl H]) (use none in simp)
    then show ?thesis using "2.IH"(2) [OF _ none(2) g _ st] none unf by simp
  next
    case out
    have "dfs_inv succs n col ((v, k + 1) # st) out H"
      by (rule dfs_inv_edge [OF inv out(1) _ order_refl H]) (use out in simp)
    then show ?thesis using "2.IH"(3) [OF _ out(2) _ g _ st] out n unf by simp
  next
    case black
    then have "c \<in> set out" using inv by (simp add: dfs_inv_def Let_def)
    then have "before (out @ v # map fst st) c v" by (rule before_append) simp
    then have "dfs_inv succs n col ((v, k + 1) # st) out H"
      using black by (intro dfs_inv_edge [OF inv black(1) _ order_refl H]) simp
    then show ?thesis using "2.IH"(5) [OF _ black(2) _ _ _ g _ st] black n unf by simp
  next
    case white
    have "finds succs n (out @ map fst ((c, 0) # (v, k + 1) # st))
        (dfs_loop succs g (col[c := GRAY]) ((c, 0) # (v, k + 1) # st) b out)"
      using "2.IH"(6) [OF _ white(2) _ _ _ g dfs_inv_push [OF inv white(1-4)] st] white n by simp
    then show ?thesis using white n unf
      by (auto simp: finds_def split: sum.splits prod.splits)
  next
    case gray
    note nt = dfs_inv_gray [OF inv gray]
    show ?thesis
    proof (cases "gray c b")
      case None
      then show ?thesis using gray n unf nt g by (auto simp: finds_def noted_def)
    next
      case (Some b')
      have "dfs_inv succs n col ((v, k + 1) # st) out (insert c H)"
        using gray nt H by (intro dfs_inv_edge [OF inv gray(1)]) auto
      then show ?thesis
        using "2.IH"(4) [OF _ gray(2) _ gray(4) _ g _ stands_gray [OF st Some]] Some gray n g unf by simp
    qed
  qed
qed

text \<open>From one root after another: no node stays gray between two of them.\<close>

lemma roots_find:
  "g = gray \<Longrightarrow> dfs_inv succs n col [] out H \<Longrightarrow> stands b H \<Longrightarrow> set roots \<subseteq> {..<n} \<Longrightarrow>
   finds succs n (out @ roots) (dfs_roots succs g roots col b out)"
proof (induction succs g roots col b out arbitrary: H rule: dfs_roots.induct)
  case (1 succs g col b out)
  then show ?case by (auto simp: finds_def)
next
  case (2 succs g root roots col b out)
  note inv = "2.prems"(2)
  have root: "root < n" and n: "length col = n" using "2.prems" by (auto simp: dfs_inv_def Let_def)
  show ?case
  proof (cases "col ! root = WHITE")
    case False
    then have "col ! root = BLACK" using inv root by (cases "col ! root") (auto simp: dfs_inv_def Let_def)
    then have "root \<in> set out" using inv root by (simp add: dfs_inv_def Let_def)
    then show ?thesis using "2.IH"(1) [OF False "2.prems"(1) inv "2.prems"(3)] False "2.prems"(4)
      by (auto simp: finds_def split: sum.splits prod.splits)
  next
    case True
    have "root \<notin> set out" using inv root True by (auto simp: dfs_inv_def Let_def)
    moreover have "seen succs n out H v k \<Longrightarrow> seen succs n (out @ [root]) H v k" for v k
      by (rule seen_mono [OF _ before_prefix order_refl])
    moreover have "noted succs n out c \<Longrightarrow> noted succs n (out @ [root]) c" for c
      by (rule noted_mono [OF _ before_prefix]) auto
    ultimately have "dfs_inv succs n (col[root := GRAY]) [(root, 0)] out H"
      using inv root n by (auto simp: dfs_inv_def Let_def nth_list_update seen_def [of _ _ _ _ root])
    from loop_finds [OF "2.prems"(1) this "2.prems"(3)]
    have f: "finds succs n (out @ [root]) (dfs_loop succs g (col[root := GRAY]) [(root, 0)] b out)" by simp
    show ?thesis
    proof (cases "dfs_loop succs g (col[root := GRAY]) [(root, 0)] b out")
      case (Inl c)
      then show ?thesis using f True by (simp add: finds_def)
    next
      case (Inr r)
      obtain col' b' out' where r: "r = (col', b', out')" by (metis surj_pair)
      with f Inr obtain H' where H': "dfs_inv succs n col' [] out' H'" "stands b' H'"
        "set (out @ [root]) \<subseteq> set out'" by (auto simp: finds_def)
      have "finds succs n (out' @ roots) (dfs_roots succs g roots col' b' out')"
        using "2.IH"(2) [OF _ Inr r [symmetric] refl "2.prems"(1) H'(1,2)] True "2.prems"(4) by simp
      then show ?thesis using True Inr r H'(3)
        by (auto simp: finds_def split: sum.splits prod.splits)
    qed
  qed
qed

lemma dfs_finds: "stands b {} \<Longrightarrow> finds succs n [0..<n] (dfs succs gray n b)"
  using roots_find [of gray succs n "replicate n WHITE" "[]" "{}" b "[0..<n]"]
  by (simp add: dfs_def dfs_inv_def atLeast0LessThan)

text \<open>What each use reads off: a node given up at lies on a cycle; otherwise every node
  is emitted once, after all nodes it has edges to, except for the noted ones.\<close>

lemma dfs_gives_up:
  assumes "stands b {}" and "dfs succs gray n b = Inl c"
  shows "c < n \<and> (c, c) \<in> (edges succs n)\<^sup>+"
  using dfs_finds [OF assms(1), of succs n] assms(2) by (simp add: finds_def)

lemma dfs_emits:
  assumes "stands b {}" and "dfs succs gray n b = Inr (col, b', out)"
  shows "\<exists>H. stands b' H \<and> distinct out \<and> set out = {..<n} \<and>
    (\<forall>(v, c) \<in> edges succs n. before out c v \<or> c \<in> H) \<and> (\<forall>c \<in> H. noted succs n out c)"
proof -
  obtain H where inv: "dfs_inv succs n col [] out H" and st: "stands b' H" and sub: "set [0..<n] \<subseteq> set out"
    using dfs_finds [OF assms(1), of succs n] assms(2) by (auto simp: finds_def)
  have "set out = {..<n}" using inv sub by (auto simp: dfs_inv_def Let_def)
  moreover have "before out c v \<or> c \<in> H" if e: "(v, c) \<in> edges succs n" for v c
  proof -
    obtain j where j: "j < length (succs v)" "succs v ! j = Some c" and "v < n" "c < n"
      using e by (auto simp: edges_def in_set_conv_nth)
    then have "seen succs n out H v (length (succs v))"
      using inv calculation by (auto simp: dfs_inv_def Let_def)
    then show ?thesis using j \<open>c < n\<close> unfolding seen_def by blast
  qed
  ultimately show ?thesis using inv st by (intro exI [of _ H]) (auto simp: dfs_inv_def Let_def)
qed

end

text \<open>An order in which every target comes before its source excludes cycles.\<close>

lemma before_acyclic:
  assumes "distinct L" and "\<forall>(v, c) \<in> E. before L c v"
  shows "acyclic E"
proof -
  have "E\<inverse> \<subseteq> measure (rank L)" using assms before_rank by fastforce
  then have "wf (E\<inverse>)" using wf_measure wf_subset by blast
  then show ?thesis using wf_acyclic acyclic_converse by blast
qed

end
