(* ===== verification/Resolve_Imports.thy ===== *)
theory Resolve_Imports
  imports Dfs Scoped_Names
begin

text \<open>
  The import passes of \<open>descriptors/src/resolve.c\<close>: linking each import to the file
  with its path, refusing import cycles, computing which files each file sees, and
  ordering the files.  The context is a record; \<open>files\<close> is \<open>None\<close> before the build,
  then parallel to the sources, with \<open>None\<close> for a \<open>NULL\<close> entry.  A pass returns its
  error code (\<open>None\<close> for \<open>GREMLINP_OK\<close>) with the context and the pool after.  The
  model takes the context itself, so the code's test \<open>ctx == NULL\<close> has no image.
\<close>

section \<open>The context\<close>

record gremlind_resolve_context =
  rc_paths :: "string list"
  rc_files :: "gremlind_file option list option"
  rc_error :: "gremlinp_parsing_error option"
  rc_failed_source_idx :: nat
  rc_error_offset :: nat
  rc_failed_import :: "(nat \<times> nat) option"
  rc_failed_field :: "(nat \<times> nat \<times> nat) option"

type_synonym 'w pass = "gremlinp_parsing_error option \<times> gremlind_resolve_context \<times> 'w pool"

abbreviation n_sources :: "gremlind_resolve_context \<Rightarrow> nat" where
  "n_sources ctx \<equiv> length (rc_paths ctx)"

abbreviation file_at :: "gremlind_resolve_context \<Rightarrow> nat \<Rightarrow> gremlind_file option" where
  "file_at ctx i \<equiv> the (rc_files ctx) ! i"

definition unbuilt :: "gremlind_resolve_context \<Rightarrow> bool" where
  "unbuilt ctx \<longleftrightarrow> rc_files ctx = None \<and> n_sources ctx > 0"

definition failed :: "gremlinp_parsing_error \<Rightarrow> gremlind_resolve_context \<Rightarrow> 'w pool \<Rightarrow> 'w pass" where
  "failed e ctx s = (Some e, ctx\<lparr>rc_error := Some e\<rparr>, s)"

definition set_file :: "nat \<Rightarrow> gremlind_file \<Rightarrow> gremlind_resolve_context \<Rightarrow> gremlind_resolve_context" where
  "set_file i f ctx = ctx\<lparr>rc_files := Some ((the (rc_files ctx))[i := Some f])\<rparr>"

section \<open>Linking imports\<close>

definition lookup :: "gremlind_resolve_context \<Rightarrow> string \<Rightarrow> nat option" where
  "lookup ctx path =
     (case find (\<lambda>i. length (rc_paths ctx ! i) = length path \<and>
          (length path = 0 \<or> rc_paths ctx ! i = path)) [0..<n_sources ctx] of
        Some i \<Rightarrow> (if file_at ctx i = None then None else Some i)
      | None \<Rightarrow> None)"

text \<open>The imports linked so far with the one that failed and those behind it.\<close>

fun link_file :: "gremlind_resolve_context \<Rightarrow> gremlind_import list \<Rightarrow> gremlind_import list \<times> gremlind_import list" where
  "link_file ctx [] = ([], [])"
| "link_file ctx (imp # imps) =
     (case lookup ctx (ni_path imp) of
        None \<Rightarrow> ([], imp # imps)
      | Some target \<Rightarrow>
          (case link_file ctx imps of (linked, rest) \<Rightarrow> (imp\<lparr>ni_resolved := Some target\<rparr> # linked, rest)))"

fun link_files :: "nat list \<Rightarrow> gremlind_resolve_context \<Rightarrow> 'w pool \<Rightarrow> 'w pass" where
  "link_files [] ctx s = (None, ctx, s)"
| "link_files (i # is) ctx s =
     (case file_at ctx i of
        None \<Rightarrow> link_files is ctx s
      | Some f \<Rightarrow>
          (case link_file ctx (nl_imports f) of (linked, rest) \<Rightarrow>
             let ctx' = set_file i (f\<lparr>nl_imports := linked @ rest\<rparr>) ctx in
             if rest \<noteq> [] then failed GREMLINP_ERROR_IMPORT_TARGET_NOT_FOUND
               (ctx'\<lparr>rc_failed_source_idx := i, rc_failed_import := Some (i, length linked)\<rparr>) s
             else link_files is ctx' s))"

definition gremlind_link_imports :: "gremlind_resolve_context \<Rightarrow> 'w pool \<Rightarrow> 'w pass" where
  "gremlind_link_imports ctx s =
     (if unbuilt ctx then failed GREMLINP_ERROR_NULL_POINTER ctx s
      else link_files [0..<n_sources ctx] ctx s)"

section \<open>The import graph\<close>

text \<open>The scan for a pointer finds the position it is modelled by.\<close>

definition file_index :: "gremlind_resolve_context \<Rightarrow> nat \<Rightarrow> nat option" where
  "file_index ctx f = find (\<lambda>i. file_at ctx i \<noteq> None \<and> i = f) [0..<n_sources ctx]"

definition import_target :: "gremlind_resolve_context \<Rightarrow> gremlind_import \<Rightarrow> nat option" where
  "import_target ctx imp = (case ni_resolved imp of None \<Rightarrow> None | Some t \<Rightarrow> file_index ctx t)"

definition import_succs :: "gremlind_resolve_context \<Rightarrow> nat \<Rightarrow> nat option list" where
  "import_succs ctx v = (case file_at ctx v of None \<Rightarrow> [] | Some f \<Rightarrow> map (import_target ctx) (nl_imports f))"

text \<open>Two allocations of \<open>n\<close> bytes and \<open>n\<close> frames, both made before either is tested.\<close>

definition alloc_both :: "nat \<Rightarrow> nat \<Rightarrow> 'w pool \<Rightarrow> bool \<times> 'w pool" where
  "alloc_both m n s = (case pool_alloc m s of (ok1, s1) \<Rightarrow>
     (case pool_alloc n s1 of (ok2, s2) \<Rightarrow> (ok1 \<and> ok2, s2)))"

abbreviation (input) sizeof_frame :: nat where "sizeof_frame \<equiv> 16"
abbreviation (input) sizeof_pointer :: nat where "sizeof_pointer \<equiv> 8"

definition gremlind_check_no_cycles :: "gremlind_resolve_context \<Rightarrow> 'w pool \<Rightarrow> 'w pass" where
  "gremlind_check_no_cycles ctx s =
     (let n = n_sources ctx in
      if unbuilt ctx then failed GREMLINP_ERROR_NULL_POINTER ctx s
      else if n = 0 then (None, ctx, s)
      else (case alloc_both n (n * sizeof_frame) s of (ok, s1) \<Rightarrow>
        if \<not> ok then failed GREMLINP_ERROR_OUT_OF_MEMORY ctx s1
        else (case dfs (import_succs ctx) (\<lambda>_ _. None) n () of
            Inl child \<Rightarrow> failed GREMLINP_ERROR_CIRCULAR_IMPORT (ctx\<lparr>rc_failed_source_idx := child\<rparr>) s1
          | Inr _ \<Rightarrow> (None, ctx, s1))))"

text \<open>The order is the list of the files' positions; a gray target is passed over.\<close>

definition gremlind_topo_sort_files :: "gremlind_resolve_context \<Rightarrow> 'w pool \<Rightarrow> nat list \<times> 'w pass" where
  "gremlind_topo_sort_files ctx s =
     (let n = n_sources ctx in
      if unbuilt ctx then ([], failed GREMLINP_ERROR_NULL_POINTER ctx s)
      else if n = 0 then ([], None, ctx, s)
      else (case pool_alloc (n * sizeof_pointer) s of (ok0, s0) \<Rightarrow>
        (case alloc_both n (n * sizeof_frame) s0 of (ok, s1) \<Rightarrow>
        if \<not> ok0 \<or> \<not> ok then ([], failed GREMLINP_ERROR_OUT_OF_MEMORY ctx s1)
        else (case dfs (import_succs ctx) (\<lambda>_. Some) n () of
            Inl _ \<Rightarrow> ([], None, ctx, s1)
          | Inr (_, _, items) \<Rightarrow> (items, None, ctx, s1)))))"

section \<open>Visibility\<close>

fun add_new :: "nat list \<Rightarrow> nat option list \<Rightarrow> nat list" where
  "add_new scratch [] = scratch"
| "add_new scratch (None # ts) = add_new scratch ts"
| "add_new scratch (Some t # ts) = add_new (if t \<in> set scratch then scratch else scratch @ [t]) ts"

definition is_public :: "gremlind_import \<Rightarrow> bool" where
  "is_public imp \<longleftrightarrow> ni_type imp = GREMLINP_IMPORT_TYPE_PUBLIC"

definition public_succs :: "gremlind_resolve_context \<Rightarrow> nat \<Rightarrow> nat option list" where
  "public_succs ctx v = (case file_at ctx v of None \<Rightarrow> []
     | Some f \<Rightarrow> map (import_target ctx) (filter is_public (nl_imports f)))"

lemma file_index_eq: "file_index ctx f = (if f < n_sources ctx \<and> file_at ctx f \<noteq> None then Some f else None)"
proof -
  let ?P = "\<lambda>i. file_at ctx i \<noteq> None \<and> i = f"
  show ?thesis
  proof (cases "find ?P [0..<n_sources ctx]")
    case None
    then show ?thesis by (auto simp: file_index_def find_None_iff)
  next
    case (Some i)
    then have "i < n_sources ctx \<and> ?P i" by (auto simp: find_Some_iff)
    then show ?thesis using Some by (auto simp: file_index_def)
  qed
qed

lemma import_target_less: "import_target ctx imp = Some t \<Longrightarrow> t < n_sources ctx"
  by (auto simp: import_target_def file_index_eq split: option.splits if_splits)

lemma public_succs_less: "Some t \<in> set (public_succs ctx v) \<Longrightarrow> t < n_sources ctx"
  by (auto simp: public_succs_def dest: import_target_less [OF sym] split: option.splits)

definition missing :: "nat \<Rightarrow> nat list \<Rightarrow> nat" where
  "missing n xs = card ({..<n} - set xs)"

lemma add_new_grows:
  "\<forall>t. Some t \<in> set ts \<longrightarrow> t < n \<Longrightarrow>
   length xs \<le> length (add_new xs ts) \<and> missing n (add_new xs ts) + length (add_new xs ts) = missing n xs + length xs"
proof (induction xs ts rule: add_new.induct)
  case (3 xs t ts)
  have "missing n (xs @ [t]) + 1 = missing n xs" if "t \<notin> set xs"
  proof -
    have "t < n" using "3.prems" by simp
    then have "Suc (card ({..<n} - set xs - {t})) = card ({..<n} - set xs)"
      using that by (intro card_Suc_Diff1) simp_all
    moreover have "{..<n} - set (xs @ [t]) = {..<n} - set xs - {t}" by auto
    ultimately show ?thesis by (simp add: missing_def)
  qed
  moreover have "\<forall>t. Some t \<in> set ts \<longrightarrow> t < n" using "3.prems" by simp
  note "3.IH" [OF this]
  ultimately show ?case by (cases "t \<in> set xs") simp_all
qed simp_all

function visible_loop :: "gremlind_resolve_context \<Rightarrow> nat list \<Rightarrow> nat \<Rightarrow> nat list" where
  "visible_loop ctx scratch processing =
     (if processing < length scratch then
        visible_loop ctx (add_new scratch (public_succs ctx (scratch ! processing))) (processing + 1)
      else scratch)"
  by pat_completeness auto
termination
proof (relation "measure (\<lambda>(ctx, xs, p). missing (n_sources ctx) xs + (length xs - p))", goal_cases)
  case (2 ctx xs p)
  then show ?case
    using add_new_grows [of "public_succs ctx (xs ! p)" "n_sources ctx" xs] public_succs_less by fastforce
qed simp

definition visible_files :: "gremlind_resolve_context \<Rightarrow> nat \<Rightarrow> nat list" where
  "visible_files ctx i = visible_loop ctx (add_new [i] (import_succs ctx i)) 1"

fun visibility_loop :: "nat list \<Rightarrow> gremlind_resolve_context \<Rightarrow> 'w pool \<Rightarrow> 'w pass" where
  "visibility_loop [] ctx s = (None, ctx, s)"
| "visibility_loop (i # is) ctx s =
     (case file_at ctx i of
        None \<Rightarrow> visibility_loop is ctx s
      | Some f \<Rightarrow>
          (case pool_alloc (n_sources ctx * sizeof_pointer) s of (ok, s1) \<Rightarrow>
           if \<not> ok then failed GREMLINP_ERROR_OUT_OF_MEMORY ctx s1
           else let visible = visible_files ctx i in
             (case pool_alloc (length visible * sizeof_pointer) s1 of (ok2, s2) \<Rightarrow>
              if \<not> ok2 then failed GREMLINP_ERROR_OUT_OF_MEMORY ctx s2
              else visibility_loop is (set_file i (f\<lparr>nl_visible := visible\<rparr>) ctx) s2)))"

definition gremlind_compute_visibility :: "gremlind_resolve_context \<Rightarrow> 'w pool \<Rightarrow> 'w pass" where
  "gremlind_compute_visibility ctx s =
     (if unbuilt ctx then failed GREMLINP_ERROR_NULL_POINTER ctx s
      else visibility_loop [0..<n_sources ctx] ctx s)"

declare visible_loop.simps [simp del]

section \<open>Cycles and order\<close>

text \<open>\<open>(i, j)\<close>: file \<open>i\<close> has an import that was linked to file \<open>j\<close>.\<close>

definition imports_rel :: "gremlind_resolve_context \<Rightarrow> (nat \<times> nat) set" where
  "imports_rel ctx = {(i, j). i < n_sources ctx \<and> j < n_sources ctx \<and> file_at ctx j \<noteq> None \<and>
     (\<exists>f imp. file_at ctx i = Some f \<and> imp \<in> set (nl_imports f) \<and> ni_resolved imp = Some j)}"

lemma import_target_Some:
  "import_target ctx imp = Some j \<longleftrightarrow> ni_resolved imp = Some j \<and> j < n_sources ctx \<and> file_at ctx j \<noteq> None"
  by (auto simp: import_target_def file_index_eq split: option.splits if_splits)

lemma edges_imports: "edges (import_succs ctx) (n_sources ctx) = imports_rel ctx"
proof -
  have "Some j \<in> set (import_succs ctx i) \<longleftrightarrow>
      (\<exists>f imp. file_at ctx i = Some f \<and> imp \<in> set (nl_imports f) \<and> import_target ctx imp = Some j)" for i j
    by (cases "file_at ctx i") (auto simp: import_succs_def image_iff eq_commute [of "Some j"])
  then show ?thesis by (auto simp: edges_def imports_rel_def import_target_Some)
qed

interpretation cycle_check: dfs_search "\<lambda>_ _. None" "\<lambda>(_ :: unit) H. H = {}"
  by unfold_locales simp

interpretation file_order: dfs_search "\<lambda>_. Some" "\<lambda>(_ :: unit) _. True"
  by unfold_locales simp

lemma check_no_cycles_decides:
  assumes "\<not> unbuilt ctx"
  shows "case gremlind_check_no_cycles ctx s of
      (None, ctx', s') \<Rightarrow> acyclic (imports_rel ctx) \<and> ctx' = ctx
    | (Some e, ctx', s') \<Rightarrow> rc_error ctx' = Some e \<and> rc_files ctx' = rc_files ctx \<and>
        (e = GREMLINP_ERROR_CIRCULAR_IMPORT \<and>
           (rc_failed_source_idx ctx', rc_failed_source_idx ctx') \<in> (imports_rel ctx)\<^sup>+
         \<or> e = GREMLINP_ERROR_OUT_OF_MEMORY)"
proof (cases "n_sources ctx = 0")
  case True
  then have "imports_rel ctx = {}" by (auto simp: imports_rel_def)
  then show ?thesis using assms True by (simp add: gremlind_check_no_cycles_def acyclic_def)
next
  case n: False
  obtain ok s1 where a: "alloc_both (n_sources ctx) (n_sources ctx * sizeof_frame) s = (ok, s1)"
    by (metis surj_pair)
  show ?thesis
  proof (cases "dfs (import_succs ctx) (\<lambda>_ _. None) (n_sources ctx) ()")
    case (Inl c)
    then have "(c, c) \<in> (imports_rel ctx)\<^sup>+" using cycle_check.dfs_gives_up edges_imports by fastforce
    then show ?thesis using assms n a Inl by (simp add: gremlind_check_no_cycles_def failed_def)
  next
    case (Inr r)
    obtain col out where "r = (col, (), out)" by (metis old.unit.exhaust surj_pair)
    with Inr have "dfs (import_succs ctx) (\<lambda>_ _. None) (n_sources ctx) () = Inr (col, (), out)" by simp
    from cycle_check.dfs_emits [OF refl this]
    have "distinct out" "\<forall>(v, c) \<in> imports_rel ctx. before out c v" by (auto simp: edges_imports)
    then have "acyclic (imports_rel ctx)" by (rule before_acyclic)
    then show ?thesis using assms n a Inr by (simp add: gremlind_check_no_cycles_def failed_def)
  qed
qed

text \<open>C12. The cycle check decides whether the linked import graph has a cycle: \<open>OK\<close> only
  if it has none, \<open>CIRCULAR_IMPORT\<close> only with a file that is on one, which the
  context then names; the one other outcome is \<open>OUT_OF_MEMORY\<close>.  It always ends.\<close>
theorem check_no_cycles_correct:
  assumes "\<not> unbuilt ctx"
  shows "case gremlind_check_no_cycles ctx s of
      (None, ctx', s') \<Rightarrow> acyclic (imports_rel ctx) \<and> ctx' = ctx
    | (Some e, ctx', s') \<Rightarrow> rc_error ctx' = Some e \<and> rc_files ctx' = rc_files ctx \<and>
        (e = GREMLINP_ERROR_CIRCULAR_IMPORT \<and>
           (rc_failed_source_idx ctx', rc_failed_source_idx ctx') \<in> (imports_rel ctx)\<^sup>+
         \<or> e = GREMLINP_ERROR_OUT_OF_MEMORY)"
  using assms by (rule check_no_cycles_decides)

text \<open>C37. The file order lists every file exactly once, and when the import graph has
  no cycle every file after all the files it imports.\<close>
theorem topo_sort_files_correct:
  assumes "gremlind_topo_sort_files ctx s = (items, None, ctx', s')"
  shows "distinct items \<and> set items = {..<n_sources ctx} \<and> ctx' = ctx \<and>
    (acyclic (imports_rel ctx) \<longrightarrow> (\<forall>(i, j) \<in> imports_rel ctx. before items j i))"
proof (cases "n_sources ctx = 0")
  case True
  then show ?thesis using assms
    by (auto simp: gremlind_topo_sort_files_def failed_def imports_rel_def Let_def split: if_splits)
next
  case n: False
  obtain ok0 s0 ok s1 where a: "pool_alloc (n_sources ctx * sizeof_pointer) s = (ok0, s0)"
    "alloc_both (n_sources ctx) (n_sources ctx * sizeof_frame) s0 = (ok, s1)" by (metis surj_pair)
  have ok: "\<not> unbuilt ctx" "ok0" "ok" "ctx' = ctx"
    using assms n a by (auto simp: gremlind_topo_sort_files_def failed_def Let_def split: if_splits sum.splits prod.splits)
  show ?thesis
  proof (cases "dfs (import_succs ctx) (\<lambda>_. Some) (n_sources ctx) ()")
    case (Inl c)
    then have "\<exists>b. (\<lambda>_. Some) c (b :: unit) = (None :: unit option)"
      using file_order.dfs_finds [OF TrueI, where succs = "import_succs ctx" and n = "n_sources ctx" and b = "()"] by (auto simp: file_order.finds_def)
    then show ?thesis by simp
  next
    case (Inr r)
    obtain col out where "r = (col, (), out)" by (metis old.unit.exhaust surj_pair)
    with Inr have r: "dfs (import_succs ctx) (\<lambda>_. Some) (n_sources ctx) () = Inr (col, (), out)" by simp
    then have "items = out" using assms n a ok by (simp add: gremlind_topo_sort_files_def)
    moreover obtain H where H: "distinct out" "set out = {..<n_sources ctx}"
      "\<forall>(v, c) \<in> imports_rel ctx. before out c v \<or> c \<in> H"
      "\<forall>c \<in> H. noted (import_succs ctx) (n_sources ctx) out c"
      using file_order.dfs_emits [OF _ r] edges_imports [of ctx] by auto
    moreover have "H = {}" if "acyclic (imports_rel ctx)"
      using that H(4) edges_imports [of ctx] by (auto simp: noted_def acyclic_def)
    ultimately show ?thesis using ok(4) by auto
  qed
qed

section \<open>What a file sees\<close>

lemma add_new_set [simp]: "set (add_new xs ts) = set xs \<union> {t. Some t \<in> set ts}"
  by (induction xs ts rule: add_new.induct) auto

lemma add_new_distinct: "distinct xs \<Longrightarrow> distinct (add_new xs ts)"
  by (induction xs ts rule: add_new.induct) auto

lemma add_new_prefix: "\<exists>ys. add_new xs ts = xs @ ys"
  by (induction xs ts rule: add_new.induct) (auto split: if_splits)

text \<open>Closed under the public imports of the processed entries, and nothing else inside.\<close>

definition public_closed :: "gremlind_resolve_context \<Rightarrow> nat set \<Rightarrow> nat set \<Rightarrow> bool" where
  "public_closed ctx A B \<longleftrightarrow> (\<forall>v \<in> A. \<forall>t. Some t \<in> set (public_succs ctx v) \<longrightarrow> t \<in> B)"

lemma visible_loop_closed:
  "distinct xs \<Longrightarrow> xs \<noteq> [] \<Longrightarrow> p \<le> length xs \<Longrightarrow> public_closed ctx (set (take p xs)) (set xs) \<Longrightarrow>
   set xs \<subseteq> T \<Longrightarrow> public_closed ctx T T \<Longrightarrow>
   (let r = visible_loop ctx xs p in
     distinct r \<and> hd r = hd xs \<and> set xs \<subseteq> set r \<and> set r \<subseteq> T \<and> public_closed ctx (set r) (set r))"
proof (induction ctx xs p rule: visible_loop.induct)
  case (1 ctx xs p)
  show ?case
  proof (cases "p < length xs")
    case False
    then have "take p xs = xs" using "1.prems"(3) by simp
    then show ?thesis using "1.prems" False by (subst visible_loop.simps) simp
  next
    case True
    let ?ys = "add_new xs (public_succs ctx (xs ! p))"
    obtain zs where zs: "?ys = xs @ zs" using add_new_prefix by blast
    have v: "xs ! p \<in> T" using True "1.prems"(5) nth_mem by blast
    have set: "set ?ys = set xs \<union> {t. Some t \<in> set (public_succs ctx (xs ! p))}" by simp
    have "public_closed ctx (set (take (p + 1) ?ys)) (set ?ys)"
    proof -
      have "t \<in> set xs \<union> set zs" if "Some t \<in> set (public_succs ctx (xs ! p))" for t
        using that set unfolding zs by auto
      then show ?thesis using "1.prems"(4) True by (auto simp: public_closed_def zs take_Suc_conv_app_nth)
    qed
    moreover have "set ?ys \<subseteq> T" using "1.prems"(5,6) v unfolding public_closed_def set by blast
    moreover have "distinct ?ys" using "1.prems"(1) by (rule add_new_distinct)
    ultimately have "let r = visible_loop ctx ?ys (p + 1) in
      distinct r \<and> hd r = hd ?ys \<and> set ?ys \<subseteq> set r \<and> set r \<subseteq> T \<and> public_closed ctx (set r) (set r)"
      using "1.IH" [OF True] "1.prems"(2,6) True by (simp add: zs)
    moreover have "visible_loop ctx xs p = visible_loop ctx ?ys (p + 1)"
      using True by (subst visible_loop.simps) simp
    moreover have "hd ?ys = hd xs" using "1.prems"(2) by (simp add: zs)
    ultimately show ?thesis using set by (simp add: Let_def)
  qed
qed

text \<open>Reachable over public imports.\<close>

definition public_rel :: "gremlind_resolve_context \<Rightarrow> (nat \<times> nat) set" where
  "public_rel ctx = {(v, t). Some t \<in> set (public_succs ctx v)}"

definition direct_imports :: "gremlind_resolve_context \<Rightarrow> nat \<Rightarrow> nat set" where
  "direct_imports ctx i = {t. Some t \<in> set (import_succs ctx i)}"

lemma public_direct: "Some t \<in> set (public_succs ctx i) \<Longrightarrow> t \<in> direct_imports ctx i"
  by (auto simp: public_succs_def direct_imports_def import_succs_def split: option.splits)

lemma visible_files_eq:
  "distinct (visible_files ctx i) \<and> hd (visible_files ctx i) = i \<and>
   set (visible_files ctx i) = insert i ((public_rel ctx)\<^sup>* `` direct_imports ctx i)"
proof -
  let ?T = "insert i ((public_rel ctx)\<^sup>* `` direct_imports ctx i)"
  let ?xs = "add_new [i] (import_succs ctx i)" and ?r = "visible_files ctx i"
  obtain zs where zs: "?xs = i # zs" using add_new_prefix [of "[i]" "import_succs ctx i"] by auto
  have xs: "set ?xs = insert i (direct_imports ctx i)" by (auto simp: direct_imports_def)
  have "t \<in> ?T" if v: "v \<in> ?T" and t: "Some t \<in> set (public_succs ctx v)" for v t
  proof (cases "v = i")
    case True
    then show ?thesis using public_direct t by blast
  next
    case False
    then obtain d where d: "d \<in> direct_imports ctx i" "(d, v) \<in> (public_rel ctx)\<^sup>*" using v by blast
    have "(v, t) \<in> public_rel ctx" using t by (simp add: public_rel_def)
    then show ?thesis using d by (meson ImageI insertI2 rtrancl_into_rtrancl)
  qed
  then have c: "public_closed ctx ?T ?T" unfolding public_closed_def by blast
  have d: "distinct ?xs" by (rule add_new_distinct) simp
  have ne: "?xs \<noteq> []" and len: "1 \<le> length ?xs" and one: "take 1 ?xs = [i]" by (simp_all add: zs)
  have cl: "public_closed ctx (set (take 1 ?xs)) (set ?xs)"
    unfolding one xs public_closed_def using public_direct by simp
  have sub: "set ?xs \<subseteq> ?T" unfolding xs by blast
  have r: "distinct ?r" "hd ?r = hd ?xs" "set ?xs \<subseteq> set ?r" "set ?r \<subseteq> ?T" "public_closed ctx (set ?r) (set ?r)"
    using visible_loop_closed [OF d ne len cl sub c] by (auto simp: visible_files_def Let_def)
  have "t \<in> set ?r" if "(d, t) \<in> (public_rel ctx)\<^sup>*" "d \<in> direct_imports ctx i" for d t
    using that(1) r(5) by (induction) (use that(2) r(3) xs in \<open>auto simp: public_closed_def public_rel_def\<close>)
  then have "?T \<subseteq> set ?r" using r(3) xs by auto
  then show ?thesis using r zs by auto
qed

section \<open>Passes that update the files one by one\<close>

text \<open>\<open>ctx'\<close> is \<open>ctx\<close> with \<open>upd i\<close> applied to the files at the positions in \<open>A\<close>.\<close>

definition updated :: "(nat \<Rightarrow> gremlind_file \<Rightarrow> gremlind_file) \<Rightarrow> nat set \<Rightarrow>
    gremlind_resolve_context \<Rightarrow> gremlind_resolve_context \<Rightarrow> bool" where
  "updated upd A ctx ctx' \<longleftrightarrow> rc_paths ctx' = rc_paths ctx \<and>
     rc_files ctx' \<noteq> None \<and> length (the (rc_files ctx')) = length (the (rc_files ctx)) \<and>
     (\<forall>i. file_at ctx' i = (if i \<in> A then map_option (upd i) (file_at ctx i) else file_at ctx i))"

definition built :: "gremlind_resolve_context \<Rightarrow> bool" where
  "built ctx \<longleftrightarrow> rc_files ctx \<noteq> None \<and> length (the (rc_files ctx)) = n_sources ctx"

lemma built_not_unbuilt: "built ctx \<Longrightarrow> \<not> unbuilt ctx"
  by (simp add: built_def unbuilt_def)

lemma updated_empty: "built ctx \<Longrightarrow> updated upd {} ctx ctx"
  by (simp add: updated_def built_def)

lemma updated_set_file:
  assumes "built ctx" "i < n_sources ctx" "file_at ctx i = Some f"
  shows "updated upd {i} ctx (set_file i (upd i f) ctx)"
  using assms by (auto simp: updated_def set_file_def built_def nth_list_update)

lemma updated_skip: "file_at ctx i = None \<Longrightarrow> updated upd A ctx ctx' \<Longrightarrow> updated upd (insert i A) ctx ctx'"
  by (auto simp: updated_def)

lemma updated_built: "updated upd A ctx ctx' \<Longrightarrow> built ctx \<Longrightarrow> built ctx'"
  by (simp add: updated_def built_def)

lemma updated_trans:
  "updated upd {i} ctx ctx1 \<Longrightarrow> updated upd' A ctx1 ctx2 \<Longrightarrow> i \<notin> A \<Longrightarrow>
   (\<And>j f. j \<in> A \<Longrightarrow> upd' j f = upd j f) \<Longrightarrow> updated upd (insert i A) ctx ctx2"
  by (auto simp: updated_def intro!: option.map_cong0)

lemma updated_None_iff: "updated upd A ctx ctx' \<Longrightarrow> file_at ctx' i = None \<longleftrightarrow> file_at ctx i = None"
  by (auto simp: updated_def)

lemma updated_lookup: "updated upd A ctx ctx' \<Longrightarrow> lookup ctx' path = lookup ctx path"
  unfolding lookup_def using updated_None_iff [of upd A ctx ctx']
  by (simp add: updated_def split: option.split)

lemma updated_file_index: "updated upd A ctx ctx' \<Longrightarrow> file_index ctx' f = file_index ctx f"
  unfolding file_index_eq using updated_None_iff [of upd A ctx ctx'] by (simp add: updated_def)

lemma updated_succs:
  assumes "updated upd A ctx ctx'" and "\<And>i f. nl_imports (upd i f) = nl_imports f"
  shows "import_succs ctx' v = import_succs ctx v" "public_succs ctx' v = public_succs ctx v"
proof -
  have "import_target ctx' = import_target ctx"
    using updated_file_index [OF assms(1)] by (auto simp: import_target_def fun_eq_iff split: option.split)
  moreover have "file_at ctx' v = (if v \<in> A then map_option (upd v) (file_at ctx v) else file_at ctx v)"
    using assms(1) by (simp add: updated_def)
  ultimately show "import_succs ctx' v = import_succs ctx v" "public_succs ctx' v = public_succs ctx v"
    using assms(2) by (auto simp: import_succs_def public_succs_def split: option.split)
qed

lemma visible_loop_cong: "(\<And>v. public_succs ctx' v = public_succs ctx v) \<Longrightarrow> visible_loop ctx' xs p = visible_loop ctx xs p"
proof (induction ctx xs p rule: visible_loop.induct)
  case (1 ctx xs p)
  then show ?case by (subst (1 2) visible_loop.simps) simp
qed

section \<open>Visibility of all files\<close>

abbreviation see :: "gremlind_resolve_context \<Rightarrow> nat \<Rightarrow> gremlind_file \<Rightarrow> gremlind_file" where
  "see ctx i f \<equiv> f\<lparr>nl_visible := visible_files ctx i\<rparr>"

lemma updated_visible: "updated (see ctx0) A ctx ctx' \<Longrightarrow> visible_files ctx' i = visible_files ctx i"
  using updated_succs [of "see ctx0" A ctx ctx'] visible_loop_cong [of ctx' ctx] by (simp add: visible_files_def)

lemma visibility_loop_updates:
  "built ctx \<Longrightarrow> distinct is \<Longrightarrow> set is \<subseteq> {..<n_sources ctx} \<Longrightarrow>
   case visibility_loop is ctx s of (None, ctx', s') \<Rightarrow> updated (see ctx) (set is) ctx ctx'
   | (Some e, ctx', s') \<Rightarrow> e = GREMLINP_ERROR_OUT_OF_MEMORY"
proof (induction "is" ctx s rule: visibility_loop.induct)
  case (1 ctx s)
  then show ?case by (simp add: updated_empty)
next
  case (2 i "is" ctx s)
  show ?case
  proof (cases "file_at ctx i")
    case None
    then show ?thesis using 2 by (auto split: option.splits intro: updated_skip)
  next
    case (Some f)
    let ?vs = "visible_files ctx i"
    obtain ok s1 where a: "pool_alloc (n_sources ctx * sizeof_pointer) s = (ok, s1)" by (metis surj_pair)
    obtain ok2 s2 where b: "pool_alloc (length ?vs * sizeof_pointer) s1 = (ok2, s2)" by (metis surj_pair)
    show ?thesis
    proof (cases "ok \<and> ok2")
      case False
      then show ?thesis using Some a b by (auto simp: failed_def)
    next
      case True
      let ?ctx = "set_file i (see ctx i f) ctx"
      have u: "updated (see ctx) {i} ctx ?ctx"
        by (rule updated_set_file) (use "2.prems" Some in auto)
      have "case visibility_loop is ?ctx s2 of (None, ctx', s') \<Rightarrow> updated (see ?ctx) (set is) ?ctx ctx'
          | (Some e, ctx', s') \<Rightarrow> e = GREMLINP_ERROR_OUT_OF_MEMORY"
        using "2.IH"(2) [OF Some a [symmetric] _ refl b [symmetric]] True "2.prems" updated_built [OF u] u
        by (simp add: updated_def)
      moreover have "see ?ctx j g = see ctx j g" for j g using updated_visible [OF u] by simp
      ultimately show ?thesis using Some a b True "2.prems"(2) updated_trans [OF u, of "see ?ctx"]
        by (auto split: option.splits)
    qed
  qed
qed

text \<open>C13. After the visibility pass every file sees, each once and itself first, exactly
  itself, the files it imports, and the files these lead to over public imports;
  nothing else of the files changes, and the pass can fail only for lack of memory.\<close>
theorem compute_visibility_correct:
  assumes "built ctx"
  shows "case gremlind_compute_visibility ctx s of
      (None, ctx', s') \<Rightarrow> \<forall>i < n_sources ctx. \<forall>f. file_at ctx i = Some f \<longrightarrow>
        (\<exists>vs. file_at ctx' i = Some (f\<lparr>nl_visible := vs\<rparr>) \<and> distinct vs \<and> hd vs = i \<and>
           set vs = insert i ((public_rel ctx)\<^sup>* `` direct_imports ctx i))
    | (Some e, ctx', s') \<Rightarrow> e = GREMLINP_ERROR_OUT_OF_MEMORY"
proof -
  have "\<exists>vs. see ctx i f = f\<lparr>nl_visible := vs\<rparr> \<and> distinct vs \<and> hd vs = i \<and>
      set vs = insert i ((public_rel ctx)\<^sup>* `` direct_imports ctx i)" for i f
    using visible_files_eq [of ctx i] by (intro exI [of _ "visible_files ctx i"]) simp
  then show ?thesis
    using visibility_loop_updates [OF assms, of "[0..<n_sources ctx]" s] built_not_unbuilt [OF assms]
    by (auto simp: gremlind_compute_visibility_def updated_def atLeast0LessThan split: option.splits)
qed

section \<open>Links of all files\<close>

definition link :: "gremlind_resolve_context \<Rightarrow> gremlind_import \<Rightarrow> gremlind_import" where
  "link ctx imp = imp\<lparr>ni_resolved := lookup ctx (ni_path imp)\<rparr>"

abbreviation link_all :: "gremlind_resolve_context \<Rightarrow> nat \<Rightarrow> gremlind_file \<Rightarrow> gremlind_file" where
  "link_all ctx i f \<equiv> f\<lparr>nl_imports := map (link ctx) (nl_imports f)\<rparr>"

definition found :: "gremlind_resolve_context \<Rightarrow> gremlind_import \<Rightarrow> bool" where
  "found ctx imp \<longleftrightarrow> lookup ctx (ni_path imp) \<noteq> None"

lemma link_file_eq:
  "link_file ctx imps = (map (link ctx) (takeWhile (found ctx) imps), dropWhile (found ctx) imps)"
  by (induction imps) (auto simp: link_def found_def split: option.split)

text \<open>Files without a \<open>NULL\<close> entry, as the build leaves them.\<close>

definition all_built :: "gremlind_resolve_context \<Rightarrow> bool" where
  "all_built ctx \<longleftrightarrow> built ctx \<and> (\<forall>i < n_sources ctx. file_at ctx i \<noteq> None)"

lemma lookup_eq:
  assumes "all_built ctx"
  shows "lookup ctx path = find (\<lambda>i. rc_paths ctx ! i = path) [0..<n_sources ctx]"
proof -
  have "(\<lambda>i. length (rc_paths ctx ! i) = length path \<and> (length path = 0 \<or> rc_paths ctx ! i = path)) =
      (\<lambda>i. rc_paths ctx ! i = path)" by auto
  then have e: "lookup ctx path = (case find (\<lambda>i. rc_paths ctx ! i = path) [0..<n_sources ctx] of
      Some i \<Rightarrow> (if file_at ctx i = None then None else Some i) | None \<Rightarrow> None)"
    by (simp add: lookup_def)
  show ?thesis
  proof (cases "find (\<lambda>i. rc_paths ctx ! i = path) [0..<n_sources ctx]")
    case (Some i)
    then have "i < n_sources ctx" by (auto simp: find_Some_iff)
    then show ?thesis using assms e Some by (auto simp: all_built_def)
  qed (simp add: e)
qed

lemma lookup_cases:
  assumes "all_built ctx"
  shows "case lookup ctx path of
      Some j \<Rightarrow> j < n_sources ctx \<and> rc_paths ctx ! j = path \<and> (\<forall>k < j. rc_paths ctx ! k \<noteq> path)
    | None \<Rightarrow> path \<notin> set (rc_paths ctx)"
  unfolding lookup_eq [OF assms]
  by (auto simp: find_Some_iff find_None_iff in_set_conv_nth split: option.split)

definition link_failed :: "gremlind_resolve_context \<Rightarrow> gremlind_resolve_context \<Rightarrow> nat list \<Rightarrow> bool" where
  "link_failed ctx ctx' is \<longleftrightarrow> (\<exists>i k f. i \<in> set is \<and> rc_failed_source_idx ctx' = i \<and> rc_failed_import ctx' = Some (i, k) \<and>
     file_at ctx i = Some f \<and> k < length (nl_imports f) \<and> \<not> found ctx (nl_imports f ! k) \<and>
     (\<forall>j < k. found ctx (nl_imports f ! j)))"

lemma link_files_updates:
  "built ctx \<Longrightarrow> distinct is \<Longrightarrow> set is \<subseteq> {..<n_sources ctx} \<Longrightarrow>
   case link_files is ctx s of
     (None, ctx', s') \<Rightarrow> updated (link_all ctx) (set is) ctx ctx' \<and>
       (\<forall>i \<in> set is. \<forall>f. file_at ctx i = Some f \<longrightarrow> list_all (found ctx) (nl_imports f))
   | (Some e, ctx', s') \<Rightarrow> e = GREMLINP_ERROR_IMPORT_TARGET_NOT_FOUND \<and> link_failed ctx ctx' is"
proof (induction "is" ctx s rule: link_files.induct)
  case (1 ctx s)
  then show ?case by (simp add: updated_empty)
next
  case (2 i "is" ctx s)
  show ?case
  proof (cases "file_at ctx i")
    case None
    then have "link_files (i # is) ctx s = link_files is ctx s" by simp
    then show ?thesis using "2.IH"(1) [OF None] "2.prems" None
      by (auto split: option.splits intro: updated_skip simp: link_failed_def)
  next
    case (Some f)
    let ?imps = "nl_imports f"
    show ?thesis
    proof (cases "list_all (found ctx) ?imps")
      case True
      then have tw: "takeWhile (found ctx) ?imps = ?imps" "dropWhile (found ctx) ?imps = []"
        by (simp_all add: list_all_iff takeWhile_eq_all_conv)
      let ?ctx = "set_file i (link_all ctx i f) ctx"
      have u: "updated (link_all ctx) {i} ctx ?ctx"
        by (rule updated_set_file) (use "2.prems" Some in auto)
      have same: "link ?ctx imp = link ctx imp" "found ?ctx imp = found ctx imp" for imp
        using updated_lookup [OF u] by (simp_all add: link_def found_def)
      have fa: "file_at ?ctx j = file_at ctx j" if "j \<in> set is" for j
        using u that "2.prems"(2) by (auto simp: updated_def)
      have "link_files (i # is) ctx s = link_files is ?ctx s"
        using Some by (simp add: link_file_eq tw)
      moreover have "case link_files is ?ctx s of
          (None, ctx', s') \<Rightarrow> updated (link_all ?ctx) (set is) ?ctx ctx' \<and>
            (\<forall>i \<in> set is. \<forall>f. file_at ?ctx i = Some f \<longrightarrow> list_all (found ?ctx) (nl_imports f))
        | (Some e, ctx', s') \<Rightarrow> e = GREMLINP_ERROR_IMPORT_TARGET_NOT_FOUND \<and> link_failed ?ctx ctx' is"
        using "2.IH"(2) [OF Some, of "map (link ctx) ?imps" "[]" ?ctx] tw "2.prems" updated_built [OF u] u
        by (simp add: link_file_eq updated_def)
      moreover have "updated (link_all ctx) (insert i (set is)) ctx ctx'"
        if "updated (link_all ?ctx) (set is) ?ctx ctx'" for ctx'
        by (rule updated_trans [OF u that]) (use "2.prems"(2) in \<open>simp_all add: same\<close>)
      moreover have "link_failed ctx ctx' (i # is)" if "link_failed ?ctx ctx' is" for ctx'
        using that fa unfolding link_failed_def same by (metis list.set_intros(2))
      moreover have "found ?ctx = found ctx" by (simp add: fun_eq_iff same)
      ultimately show ?thesis using True Some
        by (auto simp: fa simp del: link_files.simps split: option.splits)
    next
      case False
      let ?k = "length (takeWhile (found ctx) ?imps)"
      have dw: "dropWhile (found ctx) ?imps \<noteq> []" using False by (simp add: list_all_iff dropWhile_eq_Nil_conv)
      then have "?k < length ?imps" using takeWhile_dropWhile_id [of "found ctx" ?imps]
        by (metis append_Nil2 length_append length_greater_0_conv less_add_same_cancel1)
      moreover have "\<not> found ctx (?imps ! ?k)" using nth_length_takeWhile calculation by blast
      moreover have "\<forall>j < ?k. found ctx (?imps ! j)" 
        using nth_mem [of _ "takeWhile (found ctx) ?imps"] set_takeWhileD [of _ "found ctx" ?imps]
        by (simp add: takeWhile_nth)
      ultimately show ?thesis using Some dw
        by (auto simp: link_file_eq failed_def link_failed_def set_file_def)
    qed
  qed
qed


section \<open>An example\<close>

text \<open>\<open>a.proto\<close> imports \<open>b.proto\<close> publicly, \<open>b.proto\<close> imports nothing.\<close>

definition bare_file :: "gremlind_import list \<Rightarrow> gremlind_file" where
  "bare_file imps = sample_file\<lparr>nl_imports := imps\<rparr>"

definition sample_ctx :: gremlind_resolve_context where
  "sample_ctx = \<lparr>rc_paths = [''a.proto'', ''b.proto''],
     rc_files = Some [Some (bare_file [\<lparr>ni_path = ''b.proto'', ni_type = GREMLINP_IMPORT_TYPE_PUBLIC, ni_resolved = Some 1\<rparr>]),
       Some (bare_file [])],
     rc_error = None, rc_failed_source_idx = 0, rc_error_offset = 0, rc_failed_import = None, rc_failed_field = None\<rparr>"

lemma sample_all_built: "all_built sample_ctx"
  by (simp add: all_built_def built_def sample_ctx_def less_Suc_eq nth_Cons')

lemma sample_built: "built sample_ctx" and sample_not_unbuilt: "\<not> unbuilt sample_ctx"
  using sample_all_built built_not_unbuilt by (simp_all add: all_built_def)

lemma sample_succs: "import_succs sample_ctx 0 = [Some 1]" "import_succs sample_ctx (Suc 0) = []"
  by (simp_all add: import_succs_def import_target_def file_index_eq sample_ctx_def bare_file_def)

lemma sample_dfs:
  "dfs (import_succs sample_ctx) (\<lambda>_. Some) 2 () = Inr ([BLACK, BLACK], (), [1, 0])"
  by (simp add: dfs_def dfs_loop.simps sample_succs upt_rec numeral_2_eq_2)

lemma sample_order:
  "gremlind_topo_sort_files sample_ctx (sample_pool 0) = ([1, 0], None, sample_ctx, sample_pool 56)"
proof -
  have "n_sources sample_ctx = 2" by (simp add: sample_ctx_def)
  then show ?thesis
    by (simp add: gremlind_topo_sort_files_def sample_not_unbuilt alloc_both_def sample_pool_alloc align_up_def sample_dfs)
qed

lemma check_no_cycles_correct_witness:
  "case gremlind_check_no_cycles sample_ctx (sample_pool 0) of
     (None, ctx', s') \<Rightarrow> acyclic (imports_rel sample_ctx)
   | (Some e, ctx', s') \<Rightarrow> rc_error ctx' = Some e"
  using check_no_cycles_correct [OF sample_not_unbuilt, of "sample_pool 0"]
  by (auto split: option.splits)

lemma topo_sort_files_correct_witness: "set [1, 0] = {..<n_sources sample_ctx}"
  using topo_sort_files_correct [OF sample_order] by blast

lemma compute_visibility_correct_witness:
  "case gremlind_compute_visibility sample_ctx (sample_pool 0) of
     (None, ctx', s') \<Rightarrow> \<exists>f. file_at ctx' 0 = Some f \<and> hd (nl_visible f) = 0
   | (Some e, ctx', s') \<Rightarrow> e = GREMLINP_ERROR_OUT_OF_MEMORY"
proof -
  have "file_at sample_ctx 0 \<noteq> None" "0 < n_sources sample_ctx" by (simp_all add: sample_ctx_def)
  then show ?thesis
    using compute_visibility_correct [OF sample_built, of "sample_pool 0"]
    by (auto split: option.splits dest!: spec [of _ 0])
qed


end
