(* ===== verification/Resolve_Types.thy ===== *)
theory Resolve_Types
  imports Resolve_Imports
begin

text \<open>
  Type references, \<open>descriptors/src/resolve.c\<close>: looking a full name up in the files a
  file sees, the walk from the innermost scope outwards, the pass over all fields,
  and the order of the messages of a file by their fields.
\<close>

section \<open>Looking a name up\<close>

definition RESOLVE_BUILTIN_TYPES :: "string list" where
  "RESOLVE_BUILTIN_TYPES = [''double'', ''float'', ''int32'', ''int64'', ''uint32'', ''uint64'',
     ''sint32'', ''sint64'', ''fixed32'', ''fixed64'', ''sfixed32'', ''sfixed64'', ''bool'', ''string'', ''bytes'']"

definition is_builtin_span :: "string \<Rightarrow> bool" where
  "is_builtin_span s = list_ex (\<lambda>t. length t = length s \<and> t = s) RESOLVE_BUILTIN_TYPES"

definition find_name :: "gremlind_scoped_name list \<Rightarrow> gremlind_scoped_name \<Rightarrow> nat option" where
  "find_name names target = find (\<lambda>i. gremlind_scoped_name_eq (names ! i) target) [0..<length names]"

definition lookup_in_file :: "gremlind_scoped_name \<Rightarrow> nat \<Rightarrow> gremlind_file \<Rightarrow> gremlind_type_ref option" where
  "lookup_in_file target i f =
     (case find_name (map nm_scoped_name (nl_messages f)) target of
        Some m \<Rightarrow> Some (GREMLIND_TYPE_REF_MESSAGE i m)
      | None \<Rightarrow>
          (case find_name (map ne_scoped_name (nl_enums f)) target of
             Some e \<Rightarrow> Some (GREMLIND_TYPE_REF_ENUM i e)
           | None \<Rightarrow> None))"

fun lookup_in_visible :: "gremlind_resolve_context \<Rightarrow> gremlind_scoped_name \<Rightarrow> nat list \<Rightarrow> gremlind_type_ref option" where
  "lookup_in_visible ctx target [] = None"
| "lookup_in_visible ctx target (i # visible) =
     (case lookup_in_file target i (the (file_at ctx i)) of
        Some r \<Rightarrow> Some r
      | None \<Rightarrow> lookup_in_visible ctx target visible)"

section \<open>The scope walk\<close>

text \<open>\<open>for (k = n + 1; k-- > 0; )\<close>: the argument is \<open>k\<close> before the test.\<close>

fun scope_walk :: "gremlind_resolve_context \<Rightarrow> string list \<Rightarrow> string list \<Rightarrow> nat list \<Rightarrow> nat \<Rightarrow>
    'w pool \<Rightarrow> (gremlind_type_ref, 'w) pooled" where
  "scope_walk ctx ref scope visible 0 s = (Inl GREMLINP_ERROR_TYPE_NOT_FOUND, s)"
| "scope_walk ctx ref scope visible (Suc k) s =
     then_ok (gremlind_scoped_name_extend s \<lparr>segments = take k scope, absolute = True\<rparr> ref) (\<lambda>candidate s1.
       case lookup_in_visible ctx candidate visible of
         Some r \<Rightarrow> (Inr r, s1)
       | None \<Rightarrow> scope_walk ctx ref scope visible k s1)"

definition resolve_named_type :: "gremlind_resolve_context \<Rightarrow> 'w pool \<Rightarrow> string \<Rightarrow> gremlind_scoped_name \<Rightarrow>
    nat list \<Rightarrow> (gremlind_type_ref, 'w) pooled" where
  "resolve_named_type ctx s span scope visible =
     (if length span = 0 then (Inl GREMLINP_ERROR_TYPE_NOT_FOUND, s)
      else if is_builtin_span span then (Inr (GREMLIND_TYPE_REF_BUILTIN span), s)
      else then_ok (gremlind_scoped_name_parse s span) (\<lambda>ref s1.
        if absolute ref then
          (case lookup_in_visible ctx ref visible of
             Some r \<Rightarrow> (Inr r, s1)
           | None \<Rightarrow> (Inl GREMLINP_ERROR_TYPE_NOT_FOUND, s1))
        else scope_walk ctx (segments ref) (segments scope) visible (length (segments scope) + 1) s1))"

abbreviation (input) sizeof_type_ref :: nat where "sizeof_type_ref \<equiv> 24"

definition resolve_field_type :: "gremlind_resolve_context \<Rightarrow> 'w pool \<Rightarrow> gremlind_field \<Rightarrow>
    gremlind_scoped_name \<Rightarrow> nat list \<Rightarrow> (gremlind_field, 'w) pooled" where
  "resolve_field_type ctx s fd scope visible =
     (case nf_written fd of
        Written_Named name \<Rightarrow>
          then_ok (resolve_named_type ctx s name scope visible) (\<lambda>t s1. (Inr (fd\<lparr>nf_type := t\<rparr>), s1))
      | Written_Map key value \<Rightarrow>
          (case alloc_both sizeof_type_ref sizeof_type_ref s of (ok, s1) \<Rightarrow>
           if \<not> ok then (Inl GREMLINP_ERROR_OUT_OF_MEMORY, s1)
           else then_ok (resolve_named_type ctx s1 key scope visible) (\<lambda>kr s2.
             then_ok (resolve_named_type ctx s2 value scope visible) (\<lambda>vr s3.
               (Inr (fd\<lparr>nf_type := GREMLIND_TYPE_REF_MAP kr vr\<rparr>), s3)))))"

section \<open>The pass over all fields\<close>

definition field_scope :: "gremlind_message \<Rightarrow> gremlind_field \<Rightarrow> gremlind_scoped_name" where
  "field_scope msg fd = (case nf_origin_scope fd of Some scope \<Rightarrow> scope | None \<Rightarrow> nm_scoped_name msg)"

definition field_visible :: "gremlind_resolve_context \<Rightarrow> gremlind_file \<Rightarrow> gremlind_field \<Rightarrow> nat list" where
  "field_visible ctx f fd = (case nf_origin_file fd of
     Some i \<Rightarrow> nl_visible (the (file_at ctx i)) | None \<Rightarrow> nl_visible f)"

text \<open>The fields done, and the error that stopped the loop: then the next field failed.\<close>

fun resolve_fields :: "gremlind_resolve_context \<Rightarrow> gremlind_file \<Rightarrow> gremlind_message \<Rightarrow> gremlind_field list \<Rightarrow>
    'w pool \<Rightarrow> gremlind_field list \<times> gremlinp_parsing_error option \<times> 'w pool" where
  "resolve_fields ctx f msg [] s = ([], None, s)"
| "resolve_fields ctx f msg (fd # fds) s =
     (case resolve_field_type ctx s fd (field_scope msg fd) (field_visible ctx f fd) of
        (Inl e, s1) \<Rightarrow> ([], Some e, s1)
      | (Inr fd', s1) \<Rightarrow>
          (case resolve_fields ctx f msg fds s1 of (fds', r, s2) \<Rightarrow> (fd' # fds', r, s2)))"

fun resolve_messages :: "gremlind_resolve_context \<Rightarrow> gremlind_file \<Rightarrow> nat \<Rightarrow> gremlind_message list \<Rightarrow> 'w pool \<Rightarrow>
    gremlind_message list \<times> (gremlinp_parsing_error \<times> nat \<times> nat) option \<times> 'w pool" where
  "resolve_messages ctx f m [] s = ([], None, s)"
| "resolve_messages ctx f m (msg # msgs) s =
     (case resolve_fields ctx f msg (nm_fields msg) s of (fds, r, s1) \<Rightarrow>
        let msg' = msg\<lparr>nm_fields := fds @ drop (length fds) (nm_fields msg)\<rparr> in
        (case r of
           Some e \<Rightarrow> (msg' # msgs, Some (e, m, length fds), s1)
         | None \<Rightarrow>
             (case resolve_messages ctx f (m + 1) msgs s1 of (msgs', r', s2) \<Rightarrow> (msg' # msgs', r', s2))))"

fun resolve_files :: "nat list \<Rightarrow> gremlind_resolve_context \<Rightarrow> 'w pool \<Rightarrow> 'w pass" where
  "resolve_files [] ctx s = (None, ctx, s)"
| "resolve_files (i # is) ctx s =
     (case file_at ctx i of
        None \<Rightarrow> resolve_files is ctx s
      | Some f \<Rightarrow>
          (case resolve_messages ctx f 0 (nl_messages f) s of (msgs, r, s1) \<Rightarrow>
             let ctx' = set_file i (f\<lparr>nl_messages := msgs\<rparr>) ctx in
             (case r of
                Some (e, m, fi) \<Rightarrow> failed e (ctx'\<lparr>rc_failed_source_idx := i, rc_failed_field := Some (i, m, fi)\<rparr>) s1
              | None \<Rightarrow> resolve_files is ctx' s1)))"

definition gremlind_resolve_type_refs :: "gremlind_resolve_context \<Rightarrow> 'w pool \<Rightarrow> 'w pass" where
  "gremlind_resolve_type_refs ctx s =
     (if unbuilt ctx then failed GREMLINP_ERROR_NULL_POINTER ctx s
      else resolve_files [0..<n_sources ctx] ctx s)"

section \<open>The order of a file's messages\<close>

text \<open>\<open>i\<close> is the position of the file that holds \<open>flat\<close>; only its own messages count.\<close>

definition field_target_msg_idx :: "nat \<Rightarrow> gremlind_message list \<Rightarrow> gremlind_type_ref \<Rightarrow> nat option" where
  "field_target_msg_idx i flat tr =
     (let target = (case tr of
          GREMLIND_TYPE_REF_MESSAGE j m \<Rightarrow> Some (j, m)
        | GREMLIND_TYPE_REF_MAP key value \<Rightarrow>
            (case value of GREMLIND_TYPE_REF_MESSAGE j m \<Rightarrow> Some (j, m) | _ \<Rightarrow> None)
        | _ \<Rightarrow> None) in
      case target of
        None \<Rightarrow> None
      | Some (j, m) \<Rightarrow> if j = i \<and> m < length flat then Some m else None)"

definition message_succs :: "nat \<Rightarrow> gremlind_message list \<Rightarrow> nat \<Rightarrow> nat option list" where
  "message_succs i flat v = map (\<lambda>fd. field_target_msg_idx i flat (nf_type fd)) (nm_fields (flat ! v))"

text \<open>\<open>needs_pre[tidx] = 1\<close> at a back edge.\<close>

definition mark_back_edge :: "nat \<Rightarrow> bool list \<Rightarrow> bool list option" where
  "mark_back_edge t needs_pre = Some (needs_pre[t := True])"

definition gremlind_topo_sort_messages :: "'w pool \<Rightarrow> nat \<Rightarrow> gremlind_file \<Rightarrow> (nat list \<times> nat list, 'w) pooled" where
  "gremlind_topo_sort_messages s i file =
     (let n = length (nl_messages file) in
      if n = 0 then (Inr ([], []), s)
      else (case alloc_both (n * sizeof_pointer) n s of (ok1, s1) \<Rightarrow>
        (case alloc_both n (n * sizeof_frame) s1 of (ok2, s2) \<Rightarrow>
        if \<not> ok1 \<or> \<not> ok2 then (Inl GREMLINP_ERROR_OUT_OF_MEMORY, s2)
        else (case dfs (message_succs i (nl_messages file)) mark_back_edge n (replicate n False) of
            Inl _ \<Rightarrow> (Inr ([], []), s2)
          | Inr (_, needs_pre, items) \<Rightarrow>
              (let predeclare = filter (\<lambda>m. needs_pre ! m) [0..<n] in
               if predeclare = [] then (Inr (items, []), s2)
               else with_alloc (length predeclare * sizeof_pointer) s2 (\<lambda>s3. (Inr (items, predeclare), s3)))))))"

section \<open>What a name refers to\<close>

lemma find_name_cases:
  "case find_name names target of
     Some i \<Rightarrow> i < length names \<and> segments (names ! i) = segments target
   | None \<Rightarrow> \<forall>n \<in> set names. segments n \<noteq> segments target"
  by (auto simp: find_name_def find_Some_iff find_None_iff scoped_name_eq_iff in_set_conv_nth split: option.split)

text \<open>\<open>t\<close> is a message or enum with the full name \<open>segs\<close> in one of the files \<open>visible\<close>.\<close>

definition designates :: "gremlind_resolve_context \<Rightarrow> nat list \<Rightarrow> string list \<Rightarrow> gremlind_type_ref \<Rightarrow> bool" where
  "designates ctx visible segs t \<longleftrightarrow> (\<exists>i \<in> set visible. let f = the (file_at ctx i) in
     (\<exists>m < length (nl_messages f). t = GREMLIND_TYPE_REF_MESSAGE i m \<and> segments (nm_scoped_name (nl_messages f ! m)) = segs) \<or>
     (\<exists>e < length (nl_enums f). t = GREMLIND_TYPE_REF_ENUM i e \<and> segments (ne_scoped_name (nl_enums f ! e)) = segs))"

lemma lookup_in_file_cases:
  "case lookup_in_file target i f of
     Some t \<Rightarrow> (\<exists>m < length (nl_messages f). t = GREMLIND_TYPE_REF_MESSAGE i m \<and> segments (nm_scoped_name (nl_messages f ! m)) = segments target) \<or>
       (\<exists>e < length (nl_enums f). t = GREMLIND_TYPE_REF_ENUM i e \<and> segments (ne_scoped_name (nl_enums f ! e)) = segments target)
   | None \<Rightarrow> (\<forall>m \<in> set (nl_messages f). segments (nm_scoped_name m) \<noteq> segments target) \<and>
       (\<forall>e \<in> set (nl_enums f). segments (ne_scoped_name e) \<noteq> segments target)"
  using find_name_cases [of "map nm_scoped_name (nl_messages f)" target]
    find_name_cases [of "map ne_scoped_name (nl_enums f)" target]
  by (auto simp: lookup_in_file_def split: option.splits)

lemma lookup_in_visible_Some: "lookup_in_visible ctx target visible = Some t \<Longrightarrow> designates ctx visible (segments target) t"
proof (induction visible)
  case (Cons i visible)
  then show ?case using lookup_in_file_cases [where target = target and i = i and f = "the (file_at ctx i)"]
    by (auto simp: designates_def Let_def split: option.splits)
qed simp

lemma lookup_in_visible_None: "lookup_in_visible ctx target visible = None \<Longrightarrow> \<not> designates ctx visible (segments target) t"
proof (induction visible)
  case (Cons i visible)
  then show ?case using lookup_in_file_cases [where target = target and i = i and f = "the (file_at ctx i)"]
    by (auto simp: designates_def Let_def split: option.splits)
qed (simp add: designates_def)

text \<open>
  The rule of protobuf: an absolute name is a full name; a relative name is tried
  under the scope, then under the scope less its last part, and so on, and the
  innermost that names something decides.  \<open>named\<close> says what has a full name.
\<close>

definition nearest :: "(string list \<Rightarrow> 'r \<Rightarrow> bool) \<Rightarrow> string list \<Rightarrow> string list \<Rightarrow> 'r \<Rightarrow> bool" where
  "nearest named scope parts t \<longleftrightarrow> (\<exists>k \<le> length scope. named (take k scope @ parts) t \<and>
     (\<forall>j t'. k < j \<longrightarrow> j \<le> length scope \<longrightarrow> \<not> named (take j scope @ parts) t'))"

definition scoped :: "(string list \<Rightarrow> 'r \<Rightarrow> bool) \<Rightarrow> string list \<Rightarrow> string \<Rightarrow> 'r \<Rightarrow> bool" where
  "scoped named scope name t \<longleftrightarrow>
     (if leading_dot name then named (name_parts name) t else nearest named scope (name_parts name) t)"

text \<open>The interface of a scope walk: a lookup of full names, and the loop over the scopes.\<close>

locale scope_search =
  fixes lookup :: "gremlind_scoped_name \<Rightarrow> 'r option"
    and named :: "string list \<Rightarrow> 'r \<Rightarrow> bool"
    and err :: gremlinp_parsing_error
    and walk :: "string list \<Rightarrow> string list \<Rightarrow> nat \<Rightarrow> 'w pool \<Rightarrow> ('r, 'w) pooled"
  assumes lookup_Some: "lookup c = Some t \<Longrightarrow> named (segments c) t"
    and lookup_None: "lookup c = None \<Longrightarrow> \<not> named (segments c) t"
    and walk_0: "walk ref scope 0 s = (Inl err, s)"
    and walk_Suc: "walk ref scope (Suc k) s =
      then_ok (gremlind_scoped_name_extend s \<lparr>segments = take k scope, absolute = True\<rparr> ref) (\<lambda>candidate s1.
        case lookup candidate of Some t \<Rightarrow> (Inr t, s1) | None \<Rightarrow> walk ref scope k s1)"
begin

lemma walk_cases:
  "k \<le> length scope + 1 \<Longrightarrow>
   (\<forall>j t'. k \<le> j \<longrightarrow> j \<le> length scope \<longrightarrow> \<not> named (take j scope @ ref) t') \<Longrightarrow>
   case fst (walk ref scope k s) of
     Inr t \<Rightarrow> nearest named scope ref t
   | Inl e \<Rightarrow> e = GREMLINP_ERROR_OUT_OF_MEMORY \<or> e = err \<and> (\<forall>t. \<not> nearest named scope ref t)"
proof (induction k arbitrary: s)
  case 0
  then show ?case by (simp add: walk_0 nearest_def)
next
  case (Suc k)
  let ?c = "\<lparr>segments = take k scope @ ref, absolute = True\<rparr>"
  obtain r s1 where e: "gremlind_scoped_name_extend s \<lparr>segments = take k scope, absolute = True\<rparr> ref = (r, s1)"
    by (metis surj_pair)
  with extend_delivers [of "\<lparr>segments = take k scope, absolute = True\<rparr>" ref s]
  consider "r = Inl GREMLINP_ERROR_OUT_OF_MEMORY" | "r = Inr ?c"
    by (cases r) (auto simp: delivers_def)
  then show ?case
  proof cases
    case 1
    then show ?thesis by (simp add: walk_Suc e)
  next
    case 2
    show ?thesis
    proof (cases "lookup ?c")
      case (Some t)
      then have "named (take k scope @ ref) t" using lookup_Some by fastforce
      then show ?thesis using Some 2 e Suc.prems
        by (auto simp: walk_Suc nearest_def less_eq_Suc_le intro!: exI [of _ k])
    next
      case None
      have "\<forall>t. \<not> named (take k scope @ ref) t" using lookup_None [OF None] by simp
      then have "\<forall>j t'. k \<le> j \<longrightarrow> j \<le> length scope \<longrightarrow> \<not> named (take j scope @ ref) t'"
        using Suc.prems(2) by (metis le_neq_implies_less not_less_eq_eq order_class.order_eq_iff)
      from Suc.IH [OF _ this, of s1] show ?thesis using None 2 e Suc.prems(1) by (simp add: walk_Suc)
    qed
  qed
qed

text \<open>Parsing the name, then a single lookup or the walk.\<close>

lemma search_cases:
  assumes "name \<noteq> []"
  shows "case fst (then_ok (gremlind_scoped_name_parse s name) (\<lambda>ref s1.
      if absolute ref then (case lookup ref of Some t \<Rightarrow> (Inr t, s1) | None \<Rightarrow> (Inl err, s1))
      else walk (segments ref) scope (length scope + 1) s1)) of
     Inr t \<Rightarrow> scoped named scope name t
   | Inl e \<Rightarrow> e = GREMLINP_ERROR_OUT_OF_MEMORY \<or>
       e = GREMLINP_ERROR_INVALID_OPTION_NAME \<and> [] \<in> set (name_parts name) \<or>
       e = err \<and> (\<forall>t. \<not> scoped named scope name t)"
proof -
  obtain r s1 where p: "gremlind_scoped_name_parse s name = (r, s1)" by (metis surj_pair)
  then have r: "case r of Inr sn \<Rightarrow> sn = \<lparr>segments = name_parts name, absolute = leading_dot name\<rparr>
      | Inl e \<Rightarrow> e = GREMLINP_ERROR_OUT_OF_MEMORY \<or> e = GREMLINP_ERROR_INVALID_OPTION_NAME \<and> [] \<in> set (name_parts name)"
    by (auto simp: scoped_name_parse_eq with_alloc_def split: if_splits prod.splits)
  show ?thesis
  proof (cases r)
    case (Inl e)
    then show ?thesis using p r by auto
  next
    case (Inr sn)
    then have sn: "segments sn = name_parts name" "absolute sn = leading_dot name" using r by auto
    show ?thesis
    proof (cases "leading_dot name")
      case True
      then show ?thesis
        using p Inr sn lookup_Some [of sn] lookup_None [of sn] by (auto simp: scoped_def split: option.splits)
    next
      case False
      then show ?thesis using p Inr sn walk_cases [of "length scope + 1" scope "name_parts name" s1]
        by (auto simp: scoped_def split: sum.splits)
    qed
  qed
qed

end

interpretation type_search: scope_search "\<lambda>c. lookup_in_visible ctx c visible" "designates ctx visible"
    GREMLINP_ERROR_TYPE_NOT_FOUND "\<lambda>ref scope. scope_walk ctx ref scope visible"
  for ctx visible
  by unfold_locales (auto dest: lookup_in_visible_Some lookup_in_visible_None)

text \<open>Of a type, a builtin name is itself.\<close>

definition refers :: "gremlind_resolve_context \<Rightarrow> nat list \<Rightarrow> string list \<Rightarrow> string \<Rightarrow> gremlind_type_ref \<Rightarrow> bool" where
  "refers ctx visible scope name t \<longleftrightarrow>
     (if is_builtin_span name then t = GREMLIND_TYPE_REF_BUILTIN name
      else scoped (designates ctx visible) scope name t)"

lemma resolve_named_type_cases:
  "case fst (resolve_named_type ctx s name scope visible) of
     Inr t \<Rightarrow> refers ctx visible (segments scope) name t
   | Inl e \<Rightarrow> e = GREMLINP_ERROR_OUT_OF_MEMORY \<or>
       e = GREMLINP_ERROR_INVALID_OPTION_NAME \<and> [] \<in> set (name_parts name) \<or>
       e = GREMLINP_ERROR_TYPE_NOT_FOUND \<and> (name = [] \<or> (\<forall>t. \<not> refers ctx visible (segments scope) name t))"
proof (cases "name = [] \<or> is_builtin_span name")
  case True
  then show ?thesis by (auto simp: resolve_named_type_def refers_def)
next
  case False
  then show ?thesis using type_search.search_cases [where name = name and s = s and ctx = ctx and visible = visible and scope = "segments scope"]
    by (auto simp: resolve_named_type_def refers_def split: sum.splits)
qed

section \<open>All fields\<close>

text \<open>Contexts that agree on the names of the types and on what the files see.\<close>

definition same_names :: "gremlind_resolve_context \<Rightarrow> gremlind_resolve_context \<Rightarrow> bool" where
  "same_names ctx ctx' \<longleftrightarrow> (\<forall>i.
     map nm_scoped_name (nl_messages (the (file_at ctx' i))) = map nm_scoped_name (nl_messages (the (file_at ctx i))) \<and>
     nl_enums (the (file_at ctx' i)) = nl_enums (the (file_at ctx i)) \<and>
     nl_visible (the (file_at ctx' i)) = nl_visible (the (file_at ctx i)))"

lemma map_eq_nth: "map g xs = map g ys \<Longrightarrow> length xs = length ys \<and> (\<forall>i < length ys. g (xs ! i) = g (ys ! i))"
  by (metis map_eq_imp_length_eq nth_map)

lemma same_names_designates: "same_names ctx ctx' \<Longrightarrow> designates ctx' visible segs t = designates ctx visible segs t"
proof -
  assume same: "same_names ctx ctx'"
  have "(\<exists>m < length (nl_messages (the (file_at ctx' i))). P m \<and> segments (nm_scoped_name (nl_messages (the (file_at ctx' i)) ! m)) = segs) =
      (\<exists>m < length (nl_messages (the (file_at ctx i))). P m \<and> segments (nm_scoped_name (nl_messages (the (file_at ctx i)) ! m)) = segs)" for i P
    using map_eq_nth [of nm_scoped_name "nl_messages (the (file_at ctx' i))" "nl_messages (the (file_at ctx i))"] same
    unfolding same_names_def by auto
  moreover have "nl_enums (the (file_at ctx' i)) = nl_enums (the (file_at ctx i))" for i
    using same by (simp add: same_names_def)
  ultimately show ?thesis by (simp add: designates_def Let_def)
qed

definition field_resolved :: "gremlind_resolve_context \<Rightarrow> gremlind_file \<Rightarrow> gremlind_message \<Rightarrow> gremlind_field \<Rightarrow> gremlind_type_ref \<Rightarrow> bool" where
  "field_resolved ctx f msg fd t \<longleftrightarrow>
     (let visible = field_visible ctx f fd; scope = segments (field_scope msg fd) in
      case nf_written fd of
        Written_Named name \<Rightarrow> refers ctx visible scope name t
      | Written_Map key value \<Rightarrow> \<exists>tk tv. t = GREMLIND_TYPE_REF_MAP tk tv \<and>
          refers ctx visible scope key tk \<and> refers ctx visible scope value tv)"

definition fields_resolved :: "gremlind_resolve_context \<Rightarrow> gremlind_file \<Rightarrow> gremlind_message \<Rightarrow> gremlind_message \<Rightarrow> bool" where
  "fields_resolved ctx f msg msg' \<longleftrightarrow> (\<exists>ts. length ts = length (nm_fields msg) \<and>
     msg' = msg\<lparr>nm_fields := map2 (\<lambda>fd t. fd\<lparr>nf_type := t\<rparr>) (nm_fields msg) ts\<rparr> \<and>
     list_all2 (field_resolved ctx f msg) (nm_fields msg) ts)"

definition file_resolved :: "gremlind_resolve_context \<Rightarrow> gremlind_file \<Rightarrow> gremlind_file \<Rightarrow> bool" where
  "file_resolved ctx f f' \<longleftrightarrow> (\<exists>msgs. f' = f\<lparr>nl_messages := msgs\<rparr> \<and> list_all2 (fields_resolved ctx f) (nl_messages f) msgs)"

lemma same_names_field_resolved:
  assumes "same_names ctx ctx'"
  shows "field_resolved ctx' = field_resolved ctx"
proof -
  have "designates ctx' = designates ctx" using same_names_designates [OF assms] by (intro ext)
  then have r: "refers ctx' = refers ctx" by (intro ext) (simp only: refers_def)
  have v: "field_visible ctx' = field_visible ctx"
    using assms by (simp add: fun_eq_iff field_visible_def same_names_def split: option.split)
  show ?thesis by (intro ext) (simp only: field_resolved_def r v)
qed

lemma same_names_resolved:
  assumes "same_names ctx ctx'"
  shows "file_resolved ctx' = file_resolved ctx"
proof -
  have "fields_resolved ctx' = fields_resolved ctx"
    using same_names_field_resolved [OF assms] by (intro ext) (simp only: fields_resolved_def)
  then show ?thesis by (intro ext) (simp only: file_resolved_def)
qed

lemma resolve_field_type_Inr:
  assumes "resolve_field_type ctx s fd (field_scope msg fd) (field_visible ctx f fd) = (Inr fd', s')"
  shows "\<exists>t. fd' = fd\<lparr>nf_type := t\<rparr> \<and> field_resolved ctx f msg fd t"
proof -
  have named: "refers ctx visible (segments scope) name t" if "resolve_named_type ctx s name scope visible = (Inr t, s')"
    for s :: "'a pool" and name scope visible t s'
    using resolve_named_type_cases [where ctx = ctx and s = s and name = name and scope = scope and visible = visible] that by simp
  show ?thesis
  proof (cases "nf_written fd")
    case (Written_Named name)
    then obtain t s1 where "resolve_named_type ctx s name (field_scope msg fd) (field_visible ctx f fd) = (Inr t, s1)"
      "fd' = fd\<lparr>nf_type := t\<rparr>"
      using assms by (auto simp: resolve_field_type_def then_ok_def split: sum.splits prod.splits)
    moreover from this(1) have "refers ctx (field_visible ctx f fd) (segments (field_scope msg fd)) name t" by (rule named)
    ultimately show ?thesis using Written_Named by (intro exI [of _ t]) (simp add: field_resolved_def)
  next
    case (Written_Map key val)
    obtain ok s1 where a: "alloc_both sizeof_type_ref sizeof_type_ref s = (ok, s1)" by (metis surj_pair)
    let ?key = "resolve_named_type ctx s1 key (field_scope msg fd) (field_visible ctx f fd)"
    obtain kr s2 where k: "?key = (kr, s2)" by (metis surj_pair)
    obtain vr s3 where v: "resolve_named_type ctx s2 val (field_scope msg fd) (field_visible ctx f fd) = (vr, s3)"
      by (metis surj_pair)
    obtain tk tv where kv: "kr = Inr tk" "vr = Inr tv" "fd' = fd\<lparr>nf_type := GREMLIND_TYPE_REF_MAP tk tv\<rparr>"
      using assms Written_Map a k v by (cases ok; cases kr; cases vr) (auto simp: resolve_field_type_def)
    have "field_resolved ctx f msg fd (GREMLIND_TYPE_REF_MAP tk tv)"
      using Written_Map named [OF k [unfolded kv]] named [OF v [unfolded kv]] by (simp add: field_resolved_def)
    then show ?thesis using kv(3) by blast
  qed
qed

lemma resolve_fields_None:
  "resolve_fields ctx f msg fds s = (fds', None, s') \<Longrightarrow>
   \<exists>ts. length ts = length fds \<and> fds' = map2 (\<lambda>fd t. fd\<lparr>nf_type := t\<rparr>) fds ts \<and> list_all2 (field_resolved ctx f msg) fds ts"
proof (induction fds arbitrary: fds' s)
  case Nil
  then show ?case by simp
next
  case (Cons fd fds)
  then obtain fd1 fds1 s1 where
    r: "resolve_field_type ctx s fd (field_scope msg fd) (field_visible ctx f fd) = (Inr fd1, s1)"
      "resolve_fields ctx f msg fds s1 = (fds1, None, s')" "fds' = fd1 # fds1"
    by (auto split: sum.splits prod.splits)
  obtain t where "fd1 = fd\<lparr>nf_type := t\<rparr>" "field_resolved ctx f msg fd t" using resolve_field_type_Inr [OF r(1)] by blast
  moreover obtain ts where "length ts = length fds" "fds1 = map2 (\<lambda>fd t. fd\<lparr>nf_type := t\<rparr>) fds ts"
    "list_all2 (field_resolved ctx f msg) fds ts" using Cons.IH [OF r(2)] by blast
  ultimately show ?case using r(3) by (intro exI [of _ "t # ts"]) simp
qed

lemma resolve_messages_None:
  "resolve_messages ctx f m msgs s = (msgs', None, s') \<Longrightarrow> list_all2 (fields_resolved ctx f) msgs msgs'"
proof (induction msgs arbitrary: m msgs' s)
  case Nil
  then show ?case by simp
next
  case (Cons msg msgs)
  then obtain fds s1 msgs1 where r: "resolve_fields ctx f msg (nm_fields msg) s = (fds, None, s1)"
      "resolve_messages ctx f (m + 1) msgs s1 = (msgs1, None, s')"
      "msgs' = msg\<lparr>nm_fields := fds @ drop (length fds) (nm_fields msg)\<rparr> # msgs1"
    by (auto simp: Let_def split: option.splits prod.splits)
  then show ?case using resolve_fields_None [OF r(1)] Cons.IH [OF r(2)]
    by (fastforce simp: fields_resolved_def)
qed

lemma file_resolved_names:
  assumes "file_resolved ctx f f'"
  shows "map nm_scoped_name (nl_messages f') = map nm_scoped_name (nl_messages f) \<and>
    nl_enums f' = nl_enums f \<and> nl_visible f' = nl_visible f"
proof -
  have "list_all2 (fields_resolved ctx f) msgs msgs' \<Longrightarrow> map nm_scoped_name msgs' = map nm_scoped_name msgs" for msgs msgs'
    by (induction rule: list_all2_induct) (auto simp: fields_resolved_def)
  then show ?thesis using assms by (auto simp: file_resolved_def)
qed

lemma resolve_files_None:
  "built ctx \<Longrightarrow> distinct is \<Longrightarrow> set is \<subseteq> {..<n_sources ctx} \<Longrightarrow> resolve_files is ctx s = (None, ctx', s') \<Longrightarrow>
   (\<forall>i. if i \<in> set is then rel_option (file_resolved ctx) (file_at ctx i) (file_at ctx' i)
        else file_at ctx' i = file_at ctx i)"
proof (induction "is" arbitrary: ctx s)
  case Nil
  then show ?case by simp
next
  case (Cons i "is")
  show ?case
  proof (cases "file_at ctx i")
    case None
    then have r: "resolve_files is ctx s = (None, ctx', s')" using Cons.prems(4) by simp
    have "\<forall>j. if j \<in> set is then rel_option (file_resolved ctx) (file_at ctx j) (file_at ctx' j)
        else file_at ctx' j = file_at ctx j"
      using Cons.IH [OF Cons.prems(1) _ _ r] Cons.prems(2,3) by simp
    note same = this
    moreover have "i \<notin> set is" using Cons.prems(2) by simp
    ultimately have "file_at ctx' i = None" using None by metis
    then show ?thesis using same None by auto
  next
    case (Some f)
    obtain msgs s1 where r: "resolve_messages ctx f 0 (nl_messages f) s = (msgs, None, s1)"
      "resolve_files is (set_file i (f\<lparr>nl_messages := msgs\<rparr>) ctx) s1 = (None, ctx', s')"
      using Cons.prems(4) Some by (auto simp: Let_def failed_def split: prod.splits option.splits)
    let ?f = "f\<lparr>nl_messages := msgs\<rparr>" and ?ctx = "set_file i (f\<lparr>nl_messages := msgs\<rparr>) ctx"
    have fr: "file_resolved ctx f ?f" using resolve_messages_None [OF r(1)] by (auto simp: file_resolved_def)
    have u: "updated (\<lambda>_ _. ?f) {i} ctx ?ctx" by (rule updated_set_file) (use Cons.prems Some in auto)
    have at: "file_at ?ctx j = (if j = i then Some ?f else file_at ctx j)" for j
      using u Some by (auto simp: updated_def)
    have "same_names ctx ?ctx" unfolding same_names_def
      using file_resolved_names [OF fr] Some at by simp
    then have "file_resolved ?ctx = file_resolved ctx" by (rule same_names_resolved)
    moreover have "\<forall>j. if j \<in> set is then rel_option (file_resolved ?ctx) (file_at ?ctx j) (file_at ctx' j)
        else file_at ctx' j = file_at ?ctx j"
      using Cons.IH [OF updated_built [OF u Cons.prems(1)] _ _ r(2)] Cons.prems(2,3) u by (simp add: updated_def)
    ultimately show ?thesis using fr Some at Cons.prems(2) by (auto split: if_splits)
  qed
qed

text \<open>C7. When the pass over the field types succeeds, every field of every message has
  the reference its written type stands for under protobuf's rule (a builtin name
  itself; an absolute name the message or enum with that full name among the
  files seen; a relative one what the innermost enclosing scope makes of it; a map
  both its types), an extension field in the scope and the file that declared it,
  and nothing else of the file has changed.\<close>
theorem resolve_type_refs_correct:
  assumes "built ctx" and "gremlind_resolve_type_refs ctx s = (None, ctx', s')" and "i < n_sources ctx"
  shows "rel_option (file_resolved ctx) (file_at ctx i) (file_at ctx' i)"
  using resolve_files_None [OF assms(1), of "[0..<n_sources ctx]" s ctx' s'] assms(2,3) built_not_unbuilt [OF assms(1)]
  by (auto simp: gremlind_resolve_type_refs_def atLeast0LessThan split: if_splits)

section \<open>Messages in order\<close>

interpretation message_order: dfs_search mark_back_edge
    "\<lambda>needs_pre H. length needs_pre = n \<and> H \<inter> {..<n} = {m. m < n \<and> needs_pre ! m}" for n
proof
  fix b b' :: "bool list" and H c
  assume b: "length b = n \<and> H \<inter> {..<n} = {m. m < n \<and> b ! m}" and "mark_back_edge c b = Some b'"
  then have b': "b' = b[c := True]" by (simp add: mark_back_edge_def)
  have len: "length b = n" and mem: "\<And>m. m \<in> H \<inter> {..<n} \<longleftrightarrow> m < n \<and> b ! m" using b by auto
  have "m \<in> insert c H \<inter> {..<n} \<longleftrightarrow> m < n \<and> b' ! m" for m
    using mem [of m] len by (cases "m = c") (auto simp: b')
  then have "insert c H \<inter> {..<n} = {m. m < n \<and> b' ! m}" by blast
  then show "length b' = n \<and> insert c H \<inter> {..<n} = {m. m < n \<and> b' ! m}" using b by (simp add: b')
qed

text \<open>\<open>(m, t)\<close>: message \<open>m\<close> of the file has a field (or a map field's value) of message type \<open>t\<close>.\<close>

definition uses_rel :: "nat \<Rightarrow> gremlind_message list \<Rightarrow> (nat \<times> nat) set" where
  "uses_rel i flat = {(m, t). m < length flat \<and> t < length flat \<and>
     (\<exists>fd \<in> set (nm_fields (flat ! m)). nf_type fd = GREMLIND_TYPE_REF_MESSAGE i t \<or>
        (\<exists>k. nf_type fd = GREMLIND_TYPE_REF_MAP k (GREMLIND_TYPE_REF_MESSAGE i t)))}"

lemma field_target_Some:
  "field_target_msg_idx i flat tr = Some t \<longleftrightarrow> t < length flat \<and>
     (tr = GREMLIND_TYPE_REF_MESSAGE i t \<or> (\<exists>k. tr = GREMLIND_TYPE_REF_MAP k (GREMLIND_TYPE_REF_MESSAGE i t)))"
  by (auto simp: field_target_msg_idx_def split: gremlind_type_ref.splits option.splits)

lemma edges_uses: "edges (message_succs i flat) (length flat) = uses_rel i flat"
proof -
  have "Some t \<in> set (message_succs i flat m) \<longleftrightarrow>
      (\<exists>fd \<in> set (nm_fields (flat ! m)). field_target_msg_idx i flat (nf_type fd) = Some t)" for t m
    by (auto simp: message_succs_def image_iff eq_commute [of "Some t"])
  then show ?thesis by (auto simp: edges_def uses_rel_def field_target_Some)
qed

text \<open>C16. The order of a file's messages lists each exactly once, and the messages to
  declare ahead are exactly those that some message uses at or before their own
  place: whatever a message uses has been defined before it or is declared ahead,
  and nothing is declared ahead in vain.\<close>
theorem topo_sort_messages_correct:
  assumes "gremlind_topo_sort_messages s i f = (Inr (items, predeclare), s')"
  shows "distinct items \<and> set items = {..<length (nl_messages f)} \<and> distinct predeclare \<and>
    set predeclare = {t. \<exists>m. (m, t) \<in> uses_rel i (nl_messages f) \<and> \<not> before items t m}"
proof (cases "length (nl_messages f) = 0")
  case True
  then show ?thesis using assms by (simp add: gremlind_topo_sort_messages_def uses_rel_def)
next
  case n: False
  let ?n = "length (nl_messages f)"
  let ?dfs = "dfs (message_succs i (nl_messages f)) mark_back_edge ?n (replicate ?n False)"
  have start: "length (replicate ?n False) = ?n \<and> {} \<inter> {..<?n} = {m. m < ?n \<and> replicate ?n False ! m}"
    by auto
  have "\<exists>r. ?dfs = Inr r"
  proof (cases ?dfs)
    case (Inl c)
    then have "\<exists>b. mark_back_edge c b = None"
      using message_order.dfs_finds [OF start, of "message_succs i (nl_messages f)" ?n] by (auto simp: message_order.finds_def)
    then show ?thesis by (simp add: mark_back_edge_def)
  next
    case (Inr res)
    then show ?thesis by blast
  qed
  then obtain res where res: "?dfs = Inr res" by blast
  obtain col needs_pre out where "res = (col, needs_pre, out)" by (metis surj_pair)
  with res have r: "?dfs = Inr (col, needs_pre, out)" by simp
  have "items = out \<and> predeclare = filter (\<lambda>m. needs_pre ! m) [0..<?n]"
    using assms n r by (auto simp: gremlind_topo_sort_messages_def Let_def with_alloc_def split: prod.splits if_splits)
  then have res: "items = out" "distinct predeclare" "set predeclare = {m. m < ?n \<and> needs_pre ! m}" by auto
  obtain H where H: "H \<inter> {..<?n} = {m. m < ?n \<and> needs_pre ! m}"
    and out: "distinct out" "set out = {..<?n}"
    and uses: "\<forall>(v, c) \<in> uses_rel i (nl_messages f). before out c v \<or> c \<in> H"
    and noted: "\<forall>c \<in> H. noted (message_succs i (nl_messages f)) ?n out c"
    using message_order.dfs_emits [OF start r] edges_uses [of i "nl_messages f"] by auto
  have "\<exists>m. (m, t) \<in> uses_rel i (nl_messages f) \<and> \<not> before out t m" if t: "t \<in> H" for t
  proof -
    obtain m where m: "(m, t) \<in> uses_rel i (nl_messages f)" "m = t \<or> before out m t"
      using noted t edges_uses unfolding noted_def by metis
    have "\<not> before out t m"
    proof
      assume "before out t m"
      then have "rank out t < rank out m" using before_rank out(1) by blast
      then show False using m(2) before_rank [OF out(1), of m t] by auto
    qed
    then show ?thesis using m(1) by blast
  qed
  moreover have "t \<in> H \<inter> {..<?n}" if "(m, t) \<in> uses_rel i (nl_messages f)" "\<not> before out t m" for m t
    using that uses by (auto simp: uses_rel_def)
  ultimately have "H \<inter> {..<?n} = {t. \<exists>m. (m, t) \<in> uses_rel i (nl_messages f) \<and> \<not> before out t m}"
    by blast
  then show ?thesis using res out H by simp
qed

section \<open>An example\<close>

text \<open>\<open>message A { B b = 1; }\<close> and \<open>message B { A a = 1; }\<close> in one file, resolved and not.\<close>

definition sample_field :: "string \<Rightarrow> gremlind_type_ref \<Rightarrow> gremlind_field" where
  "sample_field written t = \<lparr>nf_name = ''f'', nf_label = GREMLINP_FIELD_LABEL_NONE, nf_index = 1,
     nf_written = Written_Named written, nf_options = empty_opts, nf_type = t, nf_default = None, nf_packing = GREMLIND_PACKING_AUTO,
     nf_origin_file = None, nf_origin_scope = None\<rparr>"

definition mutual_file :: "gremlind_type_ref \<Rightarrow> gremlind_type_ref \<Rightarrow> gremlind_file" where
  "mutual_file b a = sample_file\<lparr>nl_visible := [0], nl_enums := [],
     nl_messages := [(sample_message ''A'' None)\<lparr>nm_scoped_name := \<lparr>segments = [''A''], absolute = True\<rparr>, nm_fields := [sample_field ''B'' b]\<rparr>,
       (sample_message ''B'' None)\<lparr>nm_scoped_name := \<lparr>segments = [''B''], absolute = True\<rparr>, nm_fields := [sample_field ''A'' a]\<rparr>]\<rparr>"

definition mutual_ctx :: "gremlind_type_ref \<Rightarrow> gremlind_type_ref \<Rightarrow> gremlind_resolve_context" where
  "mutual_ctx b a = sample_ctx\<lparr>rc_paths := [''m.proto''], rc_files := Some [Some (mutual_file b a)]\<rparr>"

lemma mutual_resolves:
  "gremlind_resolve_type_refs (mutual_ctx GREMLIND_TYPE_REF_UNRESOLVED GREMLIND_TYPE_REF_UNRESOLVED) (sample_pool 0) =
     (None, mutual_ctx (GREMLIND_TYPE_REF_MESSAGE 0 1) (GREMLIND_TYPE_REF_MESSAGE 0 0), sample_pool 128)"
  by (simp add: gremlind_resolve_type_refs_def mutual_ctx_def unbuilt_def sample_ctx_def mutual_file_def sample_message_def
      resolve_field_type_def resolve_named_type_def is_builtin_span_def RESOLVE_BUILTIN_TYPES_def scoped_name_parse_eq
      name_parts_def leading_dot_def with_alloc_def sample_pool_alloc align_up_def field_scope_def field_visible_def
      gremlind_scoped_name_extend_def lookup_in_file_def find_name_def gremlind_scoped_name_eq_def sample_field_def
      set_file_def upt_rec)

lemma resolve_type_refs_correct_witness:
  "rel_option (file_resolved (mutual_ctx GREMLIND_TYPE_REF_UNRESOLVED GREMLIND_TYPE_REF_UNRESOLVED))
     (Some (mutual_file GREMLIND_TYPE_REF_UNRESOLVED GREMLIND_TYPE_REF_UNRESOLVED))
     (Some (mutual_file (GREMLIND_TYPE_REF_MESSAGE 0 1) (GREMLIND_TYPE_REF_MESSAGE 0 0)))"
  using resolve_type_refs_correct [OF _ mutual_resolves, of 0]
  by (simp add: built_def mutual_ctx_def sample_ctx_def)

lemma mutual_order:
  "gremlind_topo_sort_messages (sample_pool 0) 0 (mutual_file (GREMLIND_TYPE_REF_MESSAGE 0 1) (GREMLIND_TYPE_REF_MESSAGE 0 0)) =
     (Inr ([1, 0], [0]), sample_pool 72)"
  by (simp add: gremlind_topo_sort_messages_def mutual_file_def alloc_both_def sample_pool_alloc align_up_def
      dfs_def dfs_loop.simps message_succs_def field_target_msg_idx_def sample_field_def mark_back_edge_def
      with_alloc_def upt_rec)

lemma topo_sort_messages_correct_witness:
  "{0} = {t. \<exists>m. (m, t) \<in> uses_rel 0 (nl_messages (mutual_file (GREMLIND_TYPE_REF_MESSAGE 0 1) (GREMLIND_TYPE_REF_MESSAGE 0 0))) \<and>
     \<not> before [1, 0] t m}"
  using topo_sort_messages_correct [OF mutual_order] by (metis list.set(1) list.set(2))

end
