(* ===== verification/Extend.thy ===== *)
theory Extend
  imports Build Resolve_Types
begin

text \<open>
  \<open>descriptors/src/extend.c\<close>: the pass that reads every source again, resolves the
  target of each \<open>extend\<close> declaration, at the top level or in a message, and appends
  its fields to the target.  The buffers of the sources are a list beside the
  context.  As in the builder, an array under construction is the list of the slots
  written, and a write behind the last slot, or a read of a message the file does
  not have, is the error \<open>Overrun\<close>.  The windows on the buffer and the test for its
  end are those of the builder, of which the file has its own copies.
\<close>

section \<open>The target\<close>

fun lookup_message :: "gremlind_resolve_context \<Rightarrow> gremlind_scoped_name \<Rightarrow> nat list \<Rightarrow> (nat \<times> nat) option" where
  "lookup_message ctx target [] = None"
| "lookup_message ctx target (i # visible) =
     (case find_name (map nm_scoped_name (nl_messages (the (file_at ctx i)))) target of
        Some m \<Rightarrow> Some (i, m)
      | None \<Rightarrow> lookup_message ctx target visible)"

text \<open>\<open>for (k = n_segs + 1; k-- > 0; )\<close>: the argument is \<open>k\<close> before the test.\<close>

fun extend_scope_walk :: "gremlind_resolve_context \<Rightarrow> string list \<Rightarrow> string list \<Rightarrow> nat list \<Rightarrow> nat \<Rightarrow>
    'w pool \<Rightarrow> (nat \<times> nat, 'w) pooled" where
  "extend_scope_walk ctx ref scope visible 0 s = (Inl GREMLINP_ERROR_EXTEND_SOURCE_NOT_FOUND, s)"
| "extend_scope_walk ctx ref scope visible (Suc k) s =
     then_ok (gremlind_scoped_name_extend s \<lparr>segments = take k scope, absolute = True\<rparr> ref) (\<lambda>candidate s1.
       case lookup_message ctx candidate visible of
         Some m \<Rightarrow> (Inr m, s1)
       | None \<Rightarrow> extend_scope_walk ctx ref scope visible k s1)"

text \<open>Both callers pass a scope, so its being \<open>NULL\<close> has no image.\<close>

definition resolve_extend_target :: "gremlind_resolve_context \<Rightarrow> 'w pool \<Rightarrow> string \<Rightarrow> gremlind_scoped_name \<Rightarrow>
    nat list \<Rightarrow> (nat \<times> nat, 'w) pooled" where
  "resolve_extend_target ctx s span enclosing visible =
     (if length span = 0 then (Inl GREMLINP_ERROR_EXTEND_SOURCE_NOT_FOUND, s)
      else then_ok (gremlind_scoped_name_parse s span) (\<lambda>ref s1.
        if absolute ref then
          (case lookup_message ctx ref visible of
             Some m \<Rightarrow> (Inr m, s1)
           | None \<Rightarrow> (Inl GREMLINP_ERROR_EXTEND_SOURCE_NOT_FOUND, s1))
        else extend_scope_walk ctx (segments ref) (segments enclosing) visible
          (length (segments enclosing) + 1) s1))"

section \<open>The body of an extension\<close>

text \<open>A slot set to zero with the parsed field in it.\<close>

definition extension_node :: "parser_buffer \<Rightarrow> gremlinp_field \<Rightarrow> gremlind_field" where
  "extension_node b f = (field_node b f)\<lparr>nf_default := None\<rparr>"

lemma shift_decreases: "\<not> pb_size b \<le> pb_offset b \<Longrightarrow> remaining b \<le> n \<Longrightarrow> remaining (shift (Suc 0) b) < n"
  using shift_shrinks [of b "Suc 0"] by simp

text \<open>
  \<open>slots\<close> is \<open>None\<close> when the fields are only counted, else the length of the array
  they are stored in; \<open>fds\<close> is what it holds so far.
\<close>

function extend_fields_loop :: "nat option \<Rightarrow> parser_buffer \<Rightarrow> gremlind_field list \<Rightarrow> nat \<Rightarrow>
    (build_error + gremlind_field list \<times> nat) \<times> parser_buffer" where
  "extend_fields_loop slots b fds n =
     (if pb_offset b \<ge> pb_size b then (Inr (fds, n), b)
      else case skip_spaces b of
        (Inl e, b1) \<Rightarrow> (Inl (Build_Error e), b1)
      | (Inr _, b1) \<Rightarrow>
          if pb_offset b1 \<ge> pb_size b1 then (Inr (fds, n), b1)
          else if gremlinp_parser_buffer_char b1 = CHR '';'' then extend_fields_loop slots (shift 1 b1) fds n
          else attempt (gremlinp_field_parse b1)
            (\<lambda>f b2. case slots of
               None \<Rightarrow> extend_fields_loop slots b2 fds (n + 1)
             | Some cap \<Rightarrow>
                 if length fds \<ge> cap then (Inl Overrun, b2)
                 else extend_fields_loop slots b2 (fds @ [extension_node b2 f]) (n + 1))
            (\<lambda>e b2. (Inl (Build_Error e), b2)))"
  by pat_completeness auto
termination
  by (relation "measure (\<lambda>(_, b, _, _). remaining b)")
     (auto dest!: field.ok_decreases skip_spaces_shrinks [OF sym] intro: shift_decreases)

definition walk_extend_body :: "parser_buffer \<Rightarrow> nat \<Rightarrow> nat \<Rightarrow> nat option \<Rightarrow> gremlind_field list \<Rightarrow>
    (build_error + gremlind_field list \<times> nat) \<times> parser_buffer" where
  "walk_extend_body b body_start body_end slots fds =
     (case extend_fields_loop slots (body_scope_enter b body_start body_end) fds 0 of
        (r, b1) \<Rightarrow> (r, body_scope_leave b b1))"

section \<open>Applying an extension\<close>

type_synonym ('a, 'w) extending = "(build_error + 'a) \<times> parser_buffer \<times> gremlind_resolve_context \<times> 'w pool"

text \<open>\<open>i\<close> is the position of the extending file.\<close>

definition tag_extension :: "nat \<Rightarrow> gremlind_file \<Rightarrow> parser_buffer \<Rightarrow> gremlind_scoped_name \<Rightarrow> gremlind_field \<Rightarrow> gremlind_field" where
  "tag_extension i origin b scope fd =
     fd\<lparr>nf_origin_file := Some i, nf_origin_scope := Some scope,
        nf_packing := gremlind_field_packing origin (gremlind_field_packed_option b (nf_options fd))\<rparr>"

definition set_fields :: "nat \<times> nat \<Rightarrow> gremlind_field list \<Rightarrow> gremlind_resolve_context \<Rightarrow> gremlind_resolve_context" where
  "set_fields t fds ctx = (case t of (j, m) \<Rightarrow>
     let f = the (file_at ctx j) in
     set_file j (f\<lparr>nl_messages := (nl_messages f)[m := (nl_messages f ! m)\<lparr>nm_fields := fds\<rparr>]\<rparr>) ctx)"

definition target_fields :: "gremlind_resolve_context \<Rightarrow> nat \<times> nat \<Rightarrow> gremlind_field list" where
  "target_fields ctx t = (case t of (j, m) \<Rightarrow> nm_fields (nl_messages (the (file_at ctx j)) ! m))"

definition apply_extend :: "nat \<Rightarrow> parser_buffer \<Rightarrow> gremlinp_extend \<Rightarrow> gremlind_scoped_name \<Rightarrow> gremlind_scoped_name \<Rightarrow>
    gremlind_resolve_context \<Rightarrow> 'w pool \<Rightarrow> (unit, 'w) extending" where
  "apply_extend i b ext enclosing persistent_scope ctx s =
     (let origin = the (file_at ctx i) in
      case resolve_extend_target ctx s (span_text b (et_base_type ext)) enclosing (nl_visible origin) of
        (Inl e, s1) \<Rightarrow> (Inl (Build_Error e), b, ctx, s1)
      | (Inr target, s1) \<Rightarrow>
          (case walk_extend_body b (et_body_start ext) (et_body_end ext) None [] of
             (Inl e, b1) \<Rightarrow> (Inl e, b1, ctx, s1)
           | (Inr (_, n_new), b1) \<Rightarrow>
               if n_new = 0 then (Inr (), b1, ctx, s1)
               else
                 let old = target_fields ctx target; new_count = length old + n_new in
                 case pool_alloc (new_count * sizeof_field) s1 of (ok, s2) \<Rightarrow>
                 if \<not> ok then (Inl (Build_Error GREMLINP_ERROR_OUT_OF_MEMORY), b1, ctx, s2)
                 else case walk_extend_body b1 (et_body_start ext) (et_body_end ext) (Some new_count) old of
                   (Inl e, b2) \<Rightarrow> (Inl e, b2, ctx, s2)
                 | (Inr (merged, _), b2) \<Rightarrow>
                     (Inr (), b2, set_fields target (take (length old) merged @
                        map (tag_extension i origin b2 persistent_scope) (drop (length old) merged)) ctx, s2)))"

lemma walk_extend_body_remaining: "walk_extend_body b s e slots fds = (r, b1) \<Longrightarrow> remaining b1 = remaining b"
  by (auto simp: walk_extend_body_def split: prod.splits)

lemma apply_extend_remaining: "apply_extend i b ext sc ps ctx s = (r, b1, ctx1, s1) \<Longrightarrow> remaining b1 = remaining b"
  by (auto simp: apply_extend_def Let_def dest!: walk_extend_body_remaining split: prod.splits sum.splits if_splits)

section \<open>The walk over a file\<close>

text \<open>The scope of the message at the cursor, if the file has so many messages.\<close>

definition message_scope :: "gremlind_resolve_context \<Rightarrow> nat \<Rightarrow> nat \<Rightarrow> gremlind_scoped_name option" where
  "message_scope ctx i idx = (let ms = nl_messages (the (file_at ctx i)) in
     if idx < length ms then Some (nm_scoped_name (ms ! idx)) else None)"

function extend_body_walk :: "nat \<Rightarrow> gremlind_scoped_name \<Rightarrow> parser_buffer \<Rightarrow> nat \<Rightarrow>
    gremlind_resolve_context \<Rightarrow> 'w pool \<Rightarrow> (nat, 'w) extending" where
  "extend_body_walk i enclosing b idx ctx s =
     attempt (gremlinp_message_next_entry b)
       (\<lambda>e b1. case en_entry e of
          GREMLINP_MSG_ENTRY_MESSAGE m \<Rightarrow>
            (case message_scope ctx i idx of
               None \<Rightarrow> (Inl Overrun, b1, ctx, s)
             | Some inner \<Rightarrow>
                 (case extend_body_walk i inner (body_scope_enter b1 (mg_body_start m) (mg_body_end m)) (idx + 1) ctx s of
                    (Inl x, b2, ctx1, s1) \<Rightarrow> (Inl x, body_scope_leave b1 b2, ctx1, s1)
                  | (Inr idx1, b2, ctx1, s1) \<Rightarrow>
                      extend_body_walk i enclosing (body_scope_leave b1 b2) idx1 ctx1 s1))
        | GREMLINP_MSG_ENTRY_EXTEND x \<Rightarrow>
            (case apply_extend i b1 x enclosing enclosing ctx s of
               (Inl x, b2, ctx1, s1) \<Rightarrow> (Inl x, b2, ctx1, s1)
             | (Inr _, b2, ctx1, s1) \<Rightarrow> extend_body_walk i enclosing b2 idx ctx1 s1)
        | _ \<Rightarrow> extend_body_walk i enclosing b1 idx ctx s)
       (\<lambda>e b1. case ended e b1 idx of (r, b2) \<Rightarrow> (map_sum Build_Error id r, b2, ctx, s))"
  by pat_completeness auto
termination
  by (relation "measure (\<lambda>(_, _, b, _, _, _). remaining b)")
     (auto dest: message_entry_window message_entry.ok_decreases dest!: apply_extend_remaining [OF sym])

definition walk_message_body :: "nat \<Rightarrow> parser_buffer \<Rightarrow> nat \<Rightarrow> nat \<Rightarrow> gremlind_scoped_name \<Rightarrow> nat \<Rightarrow>
    gremlind_resolve_context \<Rightarrow> 'w pool \<Rightarrow> (nat, 'w) extending" where
  "walk_message_body i b body_start body_end enclosing idx ctx s =
     (case extend_body_walk i enclosing (body_scope_enter b body_start body_end) idx ctx s of
        (r, b1, ctx1, s1) \<Rightarrow> (r, body_scope_leave b b1, ctx1, s1))"

lemma walk_message_body_remaining:
  "walk_message_body i b x y sc idx ctx s = (r, b1, ctx1, s1) \<Longrightarrow> remaining b1 = remaining b"
  by (auto simp: walk_message_body_def split: prod.splits)

definition make_package_scope :: "'w pool \<Rightarrow> gremlind_file \<Rightarrow> (gremlind_scoped_name, 'w) pooled" where
  "make_package_scope s f = (case nl_package f of
     None \<Rightarrow> (Inr \<lparr>segments = [], absolute = True\<rparr>, s)
   | Some name \<Rightarrow> gremlind_scoped_name_parse s name)"

function extend_file_walk :: "nat \<Rightarrow> gremlind_scoped_name \<Rightarrow> parser_buffer \<Rightarrow> nat \<Rightarrow>
    gremlind_resolve_context \<Rightarrow> 'w pool \<Rightarrow> (nat, 'w) extending" where
  "extend_file_walk i pkg_scope b idx ctx s =
     attempt (gremlinp_file_next_entry b)
       (\<lambda>e b1. case en_entry e of
          GREMLINP_FILE_ENTRY_MESSAGE m \<Rightarrow>
            (case message_scope ctx i idx of
               None \<Rightarrow> (Inl Overrun, b1, ctx, s)
             | Some scope \<Rightarrow>
                 (case walk_message_body i b1 (mg_body_start m) (mg_body_end m) scope (idx + 1) ctx s of
                    (Inl x, b2, ctx1, s1) \<Rightarrow> (Inl x, b2, ctx1, s1)
                  | (Inr idx1, b2, ctx1, s1) \<Rightarrow> extend_file_walk i pkg_scope b2 idx1 ctx1 s1))
        | GREMLINP_FILE_ENTRY_EXTEND x \<Rightarrow>
            (case apply_extend i b1 x pkg_scope pkg_scope ctx s of
               (Inl x, b2, ctx1, s1) \<Rightarrow> (Inl x, b2, ctx1, s1)
             | (Inr _, b2, ctx1, s1) \<Rightarrow> extend_file_walk i pkg_scope b2 idx ctx1 s1)
        | _ \<Rightarrow> extend_file_walk i pkg_scope b1 idx ctx s)
       (\<lambda>e b1. case ended e b1 idx of (r, b2) \<Rightarrow> (map_sum Build_Error id r, b2, ctx, s))"
  by pat_completeness auto
termination
  by (relation "measure (\<lambda>(_, _, b, _, _, _). remaining b)")
     (auto dest!: file_entry.ok_decreases walk_message_body_remaining [OF sym] apply_extend_remaining [OF sym])

abbreviation (input) sizeof_scoped_name :: nat where "sizeof_scoped_name \<equiv> 24"

definition walk_file :: "nat \<Rightarrow> gremlind_file \<Rightarrow> parser_buffer \<Rightarrow> gremlind_resolve_context \<Rightarrow> 'w pool \<Rightarrow> (unit, 'w) extending" where
  "walk_file i f b ctx s =
     (let saved_offset = pb_offset b; b1 = rewind 0 b in
      case pool_alloc sizeof_scoped_name s of (ok, s1) \<Rightarrow>
      if \<not> ok then (Inl (Build_Error GREMLINP_ERROR_OUT_OF_MEMORY), rewind saved_offset b1, ctx, s1)
      else case make_package_scope s1 f of
        (Inl e, s2) \<Rightarrow> (Inl (Build_Error e), rewind saved_offset b1, ctx, s2)
      | (Inr pkg_scope, s2) \<Rightarrow>
          (case extend_file_walk i pkg_scope b1 0 ctx s2 of
             (r, b2, ctx1, s3) \<Rightarrow> (map_sum id (\<lambda>_. ()) r, rewind saved_offset b2, ctx1, s3)))"

section \<open>All files\<close>

text \<open>The error code of an error; \<open>Overrun\<close> has none.\<close>

primrec error_code :: "build_error \<Rightarrow> gremlinp_parsing_error option" where
  "error_code (Build_Error e) = Some e"
| "error_code Overrun = None"

type_synonym 'w source_pass =
  "build_error option \<times> gremlind_resolve_context \<times> parser_buffer list \<times> 'w pool"

fun extend_files :: "nat list \<Rightarrow> gremlind_resolve_context \<Rightarrow> parser_buffer list \<Rightarrow> 'w pool \<Rightarrow> 'w source_pass" where
  "extend_files [] ctx bufs s = (None, ctx, bufs, s)"
| "extend_files (i # is) ctx bufs s =
     (case file_at ctx i of
        None \<Rightarrow> extend_files is ctx bufs s
      | Some f \<Rightarrow>
          (case walk_file i f (bufs ! i) ctx s of (r, b, ctx1, s1) \<Rightarrow>
             let bufs1 = bufs[i := b] in
             (case r of
                Inl e \<Rightarrow> (Some e, ctx1\<lparr>rc_error := error_code e, rc_failed_source_idx := i\<rparr>, bufs1, s1)
              | Inr _ \<Rightarrow> extend_files is ctx1 bufs1 s1)))"

definition gremlind_propagate_extends :: "gremlind_resolve_context \<Rightarrow> parser_buffer list \<Rightarrow> 'w pool \<Rightarrow> 'w source_pass" where
  "gremlind_propagate_extends ctx bufs s =
     (if unbuilt ctx then
        (Some (Build_Error GREMLINP_ERROR_NULL_POINTER), ctx\<lparr>rc_error := Some GREMLINP_ERROR_NULL_POINTER\<rparr>, bufs, s)
      else extend_files [0..<n_sources ctx] ctx bufs s)"

declare extend_fields_loop.simps [simp del] extend_body_walk.simps [simp del] extend_file_walk.simps [simp del]

end
