(* ===== verification/Build_Correct.thy ===== *)
theory Build_Correct
  imports Build
begin

text \<open>
  What the builder builds.  The entries of a window are the list the iterator
  yields; from them come the values of an enum, the fields of a message with those
  of its oneofs, and, flattened in pre-order, all messages and enums of a file.
  The two passes of \<open>build.c\<close> are shown to fill arrays with exactly these.
\<close>

section \<open>The entries of a window\<close>

primrec walk :: "(parser_buffer \<Rightarrow> 'e gremlinp_entry_result parse_result) \<Rightarrow> nat \<Rightarrow> parser_buffer \<Rightarrow> 'e list" where
  "walk nxt 0 b = []"
| "walk nxt (Suc n) b =
     (case nxt b of (Inl _, _) \<Rightarrow> [] | (Inr r, b1) \<Rightarrow> en_entry r # walk nxt n b1)"

text \<open>Each entry takes a character at least, so that these steps are enough.\<close>

definition entries :: "(parser_buffer \<Rightarrow> 'e gremlinp_entry_result parse_result) \<Rightarrow> parser_buffer \<Rightarrow> 'e list" where
  "entries nxt b = walk nxt (Suc (remaining b)) b"

locale entry_iterator = restoring_parser nxt
  for nxt :: "parser_buffer \<Rightarrow> 'e gremlinp_entry_result parse_result"
begin

lemma walk_fuel: "remaining b < n \<Longrightarrow> walk nxt n b = entries nxt b"
proof (induction n arbitrary: b rule: less_induct)
  case (less n)
  then obtain n' where n: "n = Suc n'" by (cases n) auto
  show ?case
  proof (cases "nxt b" rule: result_cases)
    case (ok r b1)
    then have "remaining b1 < remaining b" by (rule ok_decreases)
    then have "walk nxt n' b1 = entries nxt b1" "walk nxt (remaining b) b1 = entries nxt b1"
      using less n by auto
    then show ?thesis using ok n by (simp add: entries_def)
  qed (simp add: n entries_def)
qed

lemma entries_end: "nxt b = (Inl e, b1) \<Longrightarrow> entries nxt b = []"
  by (simp add: entries_def)

lemma entries_step: "nxt b = (Inr r, b1) \<Longrightarrow> entries nxt b = en_entry r # entries nxt b1"
  using walk_fuel [of b1 "remaining b"] ok_decreases [of b r b1] by (simp add: entries_def)

text \<open>Induction along the entries.\<close>

lemma entries_induct [case_names stop step]:
  assumes "\<And>b e b1. nxt b = (Inl e, b1) \<Longrightarrow> P b"
    and "\<And>b r b1. nxt b = (Inr r, b1) \<Longrightarrow> P b1 \<Longrightarrow> P b"
  shows "P b"
proof (induction b rule: measure_induct_rule [of remaining])
  case (less b)
  show ?case
  proof (cases "nxt b" rule: result_cases)
    case (error e b1)
    then show ?thesis by (rule assms(1))
  next
    case (ok r b1)
    then show ?thesis using less [OF ok_decreases [OF ok]] by (rule assms(2))
  qed
qed

lemma same_text: "nxt b = (r, b1) \<Longrightarrow> pb_buf b1 = pb_buf b \<and> pb_size b1 = pb_size b"
  using yields_advances [OF step [of b]] by (auto simp: advances_def consumes_def)

end

interpretation enum_entries: entry_iterator gremlinp_enum_next_entry by unfold_locales
interpretation oneof_entries: entry_iterator gremlinp_oneof_next_entry by unfold_locales
interpretation message_entries: entry_iterator gremlinp_message_next_entry by unfold_locales
interpretation file_entries: entry_iterator gremlinp_file_next_entry by unfold_locales

lemma ended_text: "ended e b s = (r, b1) \<Longrightarrow> pb_buf b1 = pb_buf b \<and> pb_size b1 = pb_size b \<and> (r = Inr s \<or> r = Inl e)"
  using skip_spaces_advances [of b]
  by (auto simp: ended_def at_eof_def skipped_def Let_def advances_def consumes_def split: if_splits)

lemma enter_text [simp]: "pb_buf (body_scope_enter b s e) = pb_buf b" "pb_size (body_scope_enter b s e) = e"
  by (simp_all add: body_scope_enter_def)

lemma leave_same: "pb_buf b1 = pb_buf b \<Longrightarrow> body_scope_leave b b1 = b"
  by (simp add: body_scope_leave_def)

lemma enter_cong: "pb_buf b1 = pb_buf b \<Longrightarrow> body_scope_enter b1 s e = body_scope_enter b s e"
  by (simp add: body_scope_enter_def)

section \<open>Enums\<close>

definition entry_values :: "parser_buffer \<Rightarrow> gremlinp_enum_entry \<Rightarrow> (string \<times> int) list" where
  "entry_values b e = (case e of GREMLINP_ENUM_ENTRY_FIELD f \<Rightarrow> [enum_value b f] | _ \<Rightarrow> [])"

definition enum_values :: "parser_buffer \<Rightarrow> (string \<times> int) list" where
  "enum_values b = concat (map (entry_values b) (entries gremlinp_enum_next_entry b))"

definition declared_enum :: "parser_buffer \<Rightarrow> gremlinp_enum \<Rightarrow> nat option \<Rightarrow> gremlind_enum" where
  "declared_enum b en parent =
     enum_node b en parent (enum_values (body_scope_enter b (em_body_start en) (em_body_end en)))"

lemma span_text_cong: "pb_buf b1 = pb_buf b \<Longrightarrow> span_text b1 s = span_text b s"
  by (simp add: span_text_def)

lemma entry_values_cong: "pb_buf b1 = pb_buf b \<Longrightarrow> entry_values b1 = entry_values b"
  by (auto simp: entry_values_def enum_value_def span_text_def fun_eq_iff split: gremlinp_enum_entry.split)

lemma enum_values_end: "gremlinp_enum_next_entry b = (Inl e, b1) \<Longrightarrow> enum_values b = []"
  by (simp add: enum_values_def enum_entries.entries_end)

lemma enum_values_step:
  assumes "gremlinp_enum_next_entry b = (Inr r, b1)"
  shows "enum_values b = entry_values b1 (en_entry r) @ enum_values b1"
  using enum_entries.entries_step [OF assms]
    entry_values_cong [OF conjunct1 [OF enum_entries.same_text [OF assms]]]
  by (simp add: enum_values_def)

lemma count_values_loop_correct:
  "count_values_loop b n = (r, b1) \<Longrightarrow>
   pb_buf b1 = pb_buf b \<and> (\<forall>n'. r = Inr n' \<longrightarrow> n' = n + length (enum_values b))"
proof (induction b arbitrary: n r b1 rule: enum_entries.entries_induct)
  case (stop b e b2)
  then have "ended e b2 n = (r, b1)" by (simp add: count_values_loop.simps [of b n])
  then show ?case
    using ended_text [of e b2 n r b1] enum_entries.same_text [OF stop(1)] enum_values_end [OF stop(1)] by auto
next
  case (step b x b2)
  show ?case
    using step.prems step.hyps(1) enum_entries.same_text [OF step.hyps(1)] enum_values_step [OF step.hyps(1)]
      step.IH [of n r b1] step.IH [of "Suc n" r b1]
    by (cases "en_entry x") (auto simp: count_values_loop.simps [of b n] entry_values_def)
qed

lemma fill_values_loop_correct:
  "fill_values_loop cap b vs = (r, b1) \<Longrightarrow> length vs + length (enum_values b) \<le> cap \<Longrightarrow>
   pb_buf b1 = pb_buf b \<and> r \<noteq> Inl Overrun \<and> (\<forall>vs'. r = Inr vs' \<longrightarrow> vs' = vs @ enum_values b)"
proof (induction b arbitrary: vs r b1 rule: enum_entries.entries_induct)
  case (stop b e b2)
  obtain r0 b3 where "ended e b2 vs = (r0, b3)" by (metis surj_pair)
  then show ?case
    using stop.prems stop.hyps ended_text [of e b2 vs r0 b3] enum_entries.same_text [OF stop.hyps] enum_values_end [OF stop.hyps]
    by (auto simp: fill_values_loop.simps [of cap b vs])
next
  case (step b x b2)
  show ?case
    using step.prems step.hyps(1) enum_entries.same_text [OF step.hyps(1)] enum_values_step [OF step.hyps(1)]
      step.IH [of vs r b1] step.IH [of "vs @ [v]" r b1 for v]
    by (cases "en_entry x") (simp_all add: fill_values_loop.simps [of cap b vs] entry_values_def)
qed

lemma fill_enum_correct:
  assumes "fill_enum b en parent fs p = (r, b1, p1)" and "length (nl_enums (fs_file fs)) < fs_enum_cap fs"
  shows "b1 = b \<and> r \<noteq> Inl Overrun \<and> (\<forall>fs'. r = Inr fs' \<longrightarrow> fs' = add_enum (declared_enum b en parent) fs)"
proof -
  let ?w = "body_scope_enter b (em_body_start en) (em_body_end en)"
  obtain c b2 where c: "count_values_loop ?w 0 = (c, b2)" by (metis surj_pair)
  note C = count_values_loop_correct [OF c]
  have l2: "body_scope_leave b b2 = b" using C leave_same by simp
  show ?thesis
  proof (cases c)
    case (Inl e)
    then show ?thesis using assms c l2 by (auto simp: fill_enum_def)
  next
    case (Inr n)
    then have n: "n = length (enum_values ?w)" using C by simp
    show ?thesis
    proof (cases "n = 0")
      case True
      then show ?thesis using assms c l2 Inr n by (auto simp: fill_enum_def declared_enum_def Let_def)
    next
      case False
      obtain ok p2 where a: "pool_alloc (n * sizeof_enum_value) p = (ok, p2)" by (metis surj_pair)
      obtain f b3 where f: "fill_values_loop n ?w [] = (f, b3)" by (metis surj_pair)
      note F = fill_values_loop_correct [OF f]
      have l3: "body_scope_leave b b3 = b" using F n leave_same by simp
      show ?thesis
        using assms c l2 Inr n False a f F l3
        by (cases f) (auto simp: fill_enum_def declared_enum_def Let_def split: if_splits)
    qed
  qed
qed

section \<open>Fields\<close>

text \<open>Two positions in one window.\<close>

definition same_window :: "parser_buffer \<Rightarrow> parser_buffer \<Rightarrow> bool" where
  "same_window b b1 \<longleftrightarrow> pb_buf b1 = pb_buf b \<and> pb_size b1 = pb_size b"

lemma rewind_same: "same_window b b1 \<Longrightarrow> rewind s b1 = rewind s b"
  by (cases b; cases b1) (simp add: same_window_def rewind_def)

lemma enter_same: "same_window b b1 \<Longrightarrow> body_scope_enter b1 = body_scope_enter b"
  by (simp add: same_window_def body_scope_enter_def fun_eq_iff)

lemma field_node_same:
  assumes "same_window b b1"
  shows "field_node b1 = field_node b"
proof -
  have t: "span_text b1 = span_text b" using assms by (simp add: same_window_def span_text_def fun_eq_iff)
  have "extract_default_option b1 = extract_default_option b"
    using rewind_same [OF assms] by (simp add: extract_default_option_def extract_option_def fun_eq_iff)
  then show ?thesis using t by (auto simp: field_node_def written_of_def fun_eq_iff split: gremlinp_field_type_kind.split)
qed

lemma oneof_field_node_same: "same_window b b1 \<Longrightarrow> oneof_field_node b1 = oneof_field_node b"
  using field_node_same by (simp add: oneof_field_node_def fun_eq_iff)

lemma entry_same_window:
  "gremlinp_message_next_entry b = (r, b1) \<Longrightarrow> same_window b b1"
  "gremlinp_oneof_next_entry b = (q, b1) \<Longrightarrow> same_window b b1"
  "gremlinp_file_next_entry b = (f, b1) \<Longrightarrow> same_window b b1"
  using message_entries.same_text oneof_entries.same_text file_entries.same_text
  by (simp_all add: same_window_def)

definition entry_oneof :: "parser_buffer \<Rightarrow> gremlinp_oneof_entry \<Rightarrow> gremlind_field list" where
  "entry_oneof b e = (case e of GREMLINP_ONEOF_ENTRY_FIELD f \<Rightarrow> [oneof_field_node b f] | _ \<Rightarrow> [])"

definition oneof_fields :: "parser_buffer \<Rightarrow> gremlind_field list" where
  "oneof_fields b = concat (map (entry_oneof b) (entries gremlinp_oneof_next_entry b))"

definition entry_fields :: "parser_buffer \<Rightarrow> gremlinp_message_entry \<Rightarrow> gremlind_field list" where
  "entry_fields b e =
     (case e of
        GREMLINP_MSG_ENTRY_FIELD f \<Rightarrow> [field_node b f]
      | GREMLINP_MSG_ENTRY_ONEOF oo \<Rightarrow> oneof_fields (body_scope_enter b (oo_body_start oo) (oo_body_end oo))
      | _ \<Rightarrow> [])"

definition body_fields :: "parser_buffer \<Rightarrow> gremlind_field list" where
  "body_fields b = concat (map (entry_fields b) (entries gremlinp_message_next_entry b))"

lemma oneof_fields_end: "gremlinp_oneof_next_entry b = (Inl e, b1) \<Longrightarrow> oneof_fields b = []"
  by (simp add: oneof_fields_def oneof_entries.entries_end)

lemma oneof_fields_step:
  assumes "gremlinp_oneof_next_entry b = (Inr r, b1)"
  shows "oneof_fields b = entry_oneof b1 (en_entry r) @ oneof_fields b1"
proof -
  have "entry_oneof b1 = entry_oneof b"
    using oneof_field_node_same [OF entry_same_window(2) [OF assms]] by (auto simp: entry_oneof_def fun_eq_iff split: gremlinp_oneof_entry.split)
  then show ?thesis using oneof_entries.entries_step [OF assms] by (simp add: oneof_fields_def)
qed

lemma body_fields_end: "gremlinp_message_next_entry b = (Inl e, b1) \<Longrightarrow> body_fields b = []"
  by (simp add: body_fields_def message_entries.entries_end)

lemma body_fields_step:
  assumes "gremlinp_message_next_entry b = (Inr r, b1)"
  shows "body_fields b = entry_fields b1 (en_entry r) @ body_fields b1"
proof -
  have "entry_fields b1 = entry_fields b"
    using field_node_same [OF entry_same_window(1) [OF assms]] enter_same [OF entry_same_window(1) [OF assms]]
    by (auto simp: entry_fields_def fun_eq_iff split: gremlinp_message_entry.split)
  then show ?thesis using message_entries.entries_step [OF assms] by (simp add: body_fields_def)
qed

lemma count_oneof_loop_correct:
  "count_oneof_loop b n = (r, b1) \<Longrightarrow>
   pb_buf b1 = pb_buf b \<and> (\<forall>n'. r = Inr n' \<longrightarrow> n' = n + length (oneof_fields b))"
proof (induction b arbitrary: n r b1 rule: oneof_entries.entries_induct)
  case (stop b e b2)
  then have "ended e b2 n = (r, b1)" by (simp add: count_oneof_loop.simps [of b n])
  then show ?case
    using ended_text [of e b2 n r b1] oneof_entries.same_text [OF stop(1)] oneof_fields_end [OF stop(1)] by auto
next
  case (step b x b2)
  show ?case
    using step.prems step.hyps(1) oneof_entries.same_text [OF step.hyps(1)] oneof_fields_step [OF step.hyps(1)]
      step.IH [of n r b1] step.IH [of "Suc n" r b1]
    by (cases "en_entry x") (auto simp: count_oneof_loop.simps [of b n] entry_oneof_def)
qed

lemma count_fields_loop_correct:
  "count_fields_loop b n = (r, b1) \<Longrightarrow>
   pb_buf b1 = pb_buf b \<and> (\<forall>n'. r = Inr n' \<longrightarrow> n' = n + length (body_fields b))"
proof (induction b arbitrary: n r b1 rule: message_entries.entries_induct)
  case (stop b e b2)
  then have "ended e b2 n = (r, b1)" by (simp add: count_fields_loop.simps [of b n])
  then show ?case
    using ended_text [of e b2 n r b1] message_entries.same_text [OF stop(1)] body_fields_end [OF stop(1)] by auto
next
  case (step b x b2)
  note t = message_entries.same_text [OF step.hyps(1)] and f = body_fields_step [OF step.hyps(1)]
  have u: "count_fields_loop b n = (case en_entry x of
      GREMLINP_MSG_ENTRY_FIELD _ \<Rightarrow> count_fields_loop b2 (n + 1)
    | GREMLINP_MSG_ENTRY_ONEOF oo \<Rightarrow>
        (case count_oneof_loop (body_scope_enter b2 (oo_body_start oo) (oo_body_end oo)) n of
           (Inl err, b3) \<Rightarrow> (Inl err, body_scope_leave b2 b3)
         | (Inr n1, b3) \<Rightarrow> count_fields_loop (body_scope_leave b2 b3) n1)
    | _ \<Rightarrow> count_fields_loop b2 n)"
    by (simp add: count_fields_loop.simps [of b n] step.hyps(1))
  consider (field) g where "en_entry x = GREMLINP_MSG_ENTRY_FIELD g"
    | (oneof) oo where "en_entry x = GREMLINP_MSG_ENTRY_ONEOF oo"
    | (other) "count_fields_loop b n = count_fields_loop b2 n" "entry_fields b2 (en_entry x) = []"
    unfolding u by (cases "en_entry x") (simp_all add: entry_fields_def)
  then show ?case
  proof cases
    case field
    then show ?thesis using step.prems u t f step.IH [of "n + 1" r b1] by (simp add: entry_fields_def)
  next
    case oneof
    obtain r0 b3 where o: "count_oneof_loop (body_scope_enter b2 (oo_body_start oo) (oo_body_end oo)) n = (r0, b3)"
      by (metis surj_pair)
    note O = count_oneof_loop_correct [OF o]
    have l: "body_scope_leave b2 b3 = b2" using O leave_same by simp
    have bf: "body_fields b = oneof_fields (body_scope_enter b2 (oo_body_start oo) (oo_body_end oo)) @ body_fields b2"
      using f oneof by (simp add: entry_fields_def)
    show ?thesis
    proof (cases r0)
      case (Inl e)
      then show ?thesis using step.prems u oneof o l t by auto
    next
      case (Inr n1)
      then have "count_fields_loop b2 n1 = (r, b1)" using step.prems u oneof o l by simp
      then show ?thesis using step.IH [of n1 r b1] O Inr bf t by auto
    qed
  next
    case other
    then show ?thesis using step.prems t f step.IH [of n r b1] by simp
  qed
qed

section \<open>Filling fields\<close>

definition wants_math :: "gremlind_field \<Rightarrow> bool" where
  "wants_math f = (case nf_default f of Some (GREMLINP_CONST_FLOAT v) \<Rightarrow> isinf v \<or> isnan v | _ \<Rightarrow> False)"

definition wants_string :: "gremlind_field \<Rightarrow> bool" where
  "wants_string f \<longleftrightarrow> nf_default f \<noteq> None \<and> nf_written f \<in> {Written_Named ''string'', Written_Named ''bytes''}"

definition hint :: "gremlind_field list \<Rightarrow> gremlind_file \<Rightarrow> gremlind_file" where
  "hint fds fl = fl\<lparr>nl_needs_math_h := nl_needs_math_h fl \<or> (\<exists>f \<in> set fds. wants_math f),
     nl_needs_string_h := nl_needs_string_h fl \<or> (\<exists>f \<in> set fds. wants_string f)\<rparr>"

lemma hoist_eq: "hoist_codegen_hints f fl = hint [f] fl"
  by (cases fl; cases "nf_default f"; cases "the (nf_default f)"; cases "nf_written f")
     (auto simp: hoist_codegen_hints_def hint_def wants_math_def wants_string_def Let_def)

text \<open>The state with fields \<open>fds\<close> added to message \<open>k\<close>, messages \<open>ms\<close> and enums \<open>es\<close>.\<close>

definition add_body :: "nat \<Rightarrow> gremlind_field list \<Rightarrow> gremlind_message list \<Rightarrow> gremlind_enum list \<Rightarrow> fill_state \<Rightarrow> fill_state" where
  "add_body k fds ms es fs =
     (let fl = fs_file fs; m = nl_messages fl ! k in
      fs\<lparr>fs_file := (hint (fds @ concat (map nm_fields ms)) fl)
        \<lparr>nl_messages := (nl_messages fl)[k := m\<lparr>nm_fields := nm_fields m @ fds\<rparr>] @ ms,
         nl_enums := nl_enums fl @ es\<rparr>\<rparr>)"

lemma add_body_nil: "k < length (nl_messages (fs_file fs)) \<Longrightarrow> add_body k [] [] [] fs = fs"
  by (cases fs) (simp add: add_body_def hint_def Let_def)

lemma add_body_simps [simp]:
  "fs_msg_cap (add_body k fds ms es fs) = fs_msg_cap fs"
  "fs_enum_cap (add_body k fds ms es fs) = fs_enum_cap fs"
  "length (nl_messages (fs_file (add_body k fds ms es fs))) = length (nl_messages (fs_file fs)) + length ms"
  "length (nl_enums (fs_file (add_body k fds ms es fs))) = length (nl_enums (fs_file fs)) + length es"
  by (simp_all add: add_body_def Let_def)

lemma add_body_fields [simp]:
  "k < length (nl_messages (fs_file fs)) \<Longrightarrow>
   nm_fields (nl_messages (fs_file (add_body k fds ms es fs)) ! k) = nm_fields (nl_messages (fs_file fs) ! k) @ fds"
  by (simp add: add_body_def Let_def nth_append)

lemma hint_hint: "hint ys (hint xs fl) = hint (xs @ ys) fl"
  by (simp add: hint_def bex_Un disj_assoc)

lemma hint_set: "set xs = set ys \<Longrightarrow> hint xs fl = hint ys fl"
  by (simp add: hint_def)

lemma hint_updates:
  "hint xs (fl\<lparr>nl_messages := a, nl_enums := c\<rparr>) = (hint xs fl)\<lparr>nl_messages := a, nl_enums := c\<rparr>"
  by (simp add: hint_def)

lemma add_body_add:
  assumes "k < length (nl_messages (fs_file fs))"
  shows "add_body k f2 m2 e2 (add_body k f1 m1 e1 fs) = add_body k (f1 @ f2) (m1 @ m2) (e1 @ e2) fs"
proof -
  have "hint (f2 @ concat (map nm_fields m2)) (hint (f1 @ concat (map nm_fields m1)) (fs_file fs))
      = hint ((f1 @ f2) @ concat (map nm_fields (m1 @ m2))) (fs_file fs)"
    unfolding hint_hint by (rule hint_set) auto
  then show ?thesis
    using assms by (simp add: add_body_def hint_updates Let_def nth_append list_update_append)
qed

lemma put_field_eq:
  "k < length (nl_messages (fs_file fs)) \<Longrightarrow> length (nm_fields (nl_messages (fs_file fs) ! k)) < n_fields \<Longrightarrow>
   put_field k n_fields f fs = Some (add_body k [f] [] [] fs)"
  by (simp add: put_field_def add_body_def Let_def hoist_eq hint_def)

lemma fill_oneof_loop_correct:
  "fill_oneof_loop k cap b fs = (r, b1) \<Longrightarrow> k < length (nl_messages (fs_file fs)) \<Longrightarrow>
   length (nm_fields (nl_messages (fs_file fs) ! k)) + length (oneof_fields b) \<le> cap \<Longrightarrow>
   pb_buf b1 = pb_buf b \<and> r \<noteq> Inl Overrun \<and> (\<forall>fs'. r = Inr fs' \<longrightarrow> fs' = add_body k (oneof_fields b) [] [] fs)"
proof (induction b arbitrary: fs r b1 rule: oneof_entries.entries_induct)
  case (stop b e b2)
  obtain r0 b3 where "ended e b2 fs = (r0, b3)" by (metis surj_pair)
  then show ?case
    using stop.prems stop.hyps ended_text [of e b2 fs r0 b3] oneof_entries.same_text [OF stop.hyps] oneof_fields_end [OF stop.hyps]
    by (auto simp: fill_oneof_loop.simps [of k cap b fs] add_body_nil)
next
  case (step b x b2)
  note u = fill_oneof_loop.simps [of k cap b fs] and t = oneof_entries.same_text [OF step.hyps(1)]
    and f = oneof_fields_step [OF step.hyps(1)]
  show ?case
  proof (cases "en_entry x")
    case (GREMLINP_ONEOF_ENTRY_FIELD g)
    let ?fs1 = "add_body k [oneof_field_node b2 g] [] [] fs"
    have of: "oneof_fields b = oneof_field_node b2 g # oneof_fields b2"
      using f GREMLINP_ONEOF_ENTRY_FIELD by (simp add: entry_oneof_def)
    then have "put_field k cap (oneof_field_node b2 g) fs = Some ?fs1"
      using step.prems by (intro put_field_eq) auto
    then have "fill_oneof_loop k cap b2 ?fs1 = (r, b1)"
      using step.prems(1) step.hyps GREMLINP_ONEOF_ENTRY_FIELD by (simp add: u)
    from step.IH [OF this] show ?thesis
      using step.prems(2,3) of t by (simp add: add_body_add)
  next
    case (GREMLINP_ONEOF_ENTRY_OPTION g)
    then show ?thesis
      using step.prems step.hyps t f step.IH [of fs r b1] by (simp add: u entry_oneof_def)
  qed
qed

section \<open>The declarations of a window, in pre-order\<close>

definition declared_message :: "parser_buffer \<Rightarrow> gremlinp_message \<Rightarrow> nat option \<Rightarrow> gremlind_message" where
  "declared_message b m parent =
     message_node b m parent (body_fields (body_scope_enter b (mg_body_start m) (mg_body_end m)))"

text \<open>
  The messages and enums declared in the body of message \<open>k\<close>, at all levels; the
  first message gets position \<open>i\<close>.
\<close>

function flat_body :: "nat \<Rightarrow> nat \<Rightarrow> parser_buffer \<Rightarrow> gremlind_message list \<times> gremlind_enum list" where
  "flat_body k i b =
     attempt (gremlinp_message_next_entry b)
       (\<lambda>e b1. case en_entry e of
          GREMLINP_MSG_ENTRY_ENUM en \<Rightarrow>
            (case flat_body k i b1 of (ms, es) \<Rightarrow> (ms, declared_enum b1 en (Some k) # es))
        | GREMLINP_MSG_ENTRY_MESSAGE m \<Rightarrow>
            (case flat_body i (i + 1) (body_scope_enter b1 (mg_body_start m) (mg_body_end m)) of
               (ms, es) \<Rightarrow>
                 (case flat_body k (i + 1 + length ms) b1 of
                    (ms', es') \<Rightarrow> (declared_message b1 m (Some k) # ms @ ms', es @ es')))
        | _ \<Rightarrow> flat_body k i b1)
       (\<lambda>e b1. ([], []))"
  by pat_completeness auto
termination
  by (relation "measure (\<lambda>(_, _, b). remaining b)")
     (auto dest: message_entry_window message_entry.ok_decreases)

declare flat_body.simps [simp del]

lemma flat_body_end: "gremlinp_message_next_entry b = (Inl e, b1) \<Longrightarrow> flat_body k i b = ([], [])"
  by (simp add: flat_body.simps [of k i b])

lemma flat_body_enum:
  "gremlinp_message_next_entry b = (Inr x, b1) \<Longrightarrow> en_entry x = GREMLINP_MSG_ENTRY_ENUM en \<Longrightarrow>
   flat_body k i b = (fst (flat_body k i b1), declared_enum b1 en (Some k) # snd (flat_body k i b1))"
  by (simp add: flat_body.simps [of k i b] split: prod.split)

lemma flat_body_message:
  "gremlinp_message_next_entry b = (Inr x, b1) \<Longrightarrow> en_entry x = GREMLINP_MSG_ENTRY_MESSAGE m \<Longrightarrow>
   flat_body i (i + 1) (body_scope_enter b1 (mg_body_start m) (mg_body_end m)) = (ms, es) \<Longrightarrow>
   flat_body k (i + 1 + length ms) b1 = (ms', es') \<Longrightarrow>
   flat_body k i b = (declared_message b1 m (Some k) # ms @ ms', es @ es')"
  by (simp add: flat_body.simps [of k i b])

definition declares :: "gremlinp_message_entry \<Rightarrow> bool" where
  "declares e = (case e of GREMLINP_MSG_ENTRY_ENUM _ \<Rightarrow> True | GREMLINP_MSG_ENTRY_MESSAGE _ \<Rightarrow> True | _ \<Rightarrow> False)"

lemma flat_body_other:
  "gremlinp_message_next_entry b = (Inr x, b1) \<Longrightarrow> \<not> declares (en_entry x) \<Longrightarrow> flat_body k i b = flat_body k i b1"
  by (cases "en_entry x") (simp_all add: flat_body.simps [of k i b] declares_def)

text \<open>Induction along the entries and into nested bodies.\<close>

lemma bodies_induct [case_names stop step]:
  assumes "\<And>b e b1. gremlinp_message_next_entry b = (Inl e, b1) \<Longrightarrow> P b"
    and "\<And>b x b1. gremlinp_message_next_entry b = (Inr x, b1) \<Longrightarrow> P b1 \<Longrightarrow>
      (\<And>m. en_entry x = GREMLINP_MSG_ENTRY_MESSAGE m \<Longrightarrow> P (body_scope_enter b1 (mg_body_start m) (mg_body_end m))) \<Longrightarrow> P b"
  shows "P b"
proof (induction b rule: measure_induct_rule [of remaining])
  case (less b)
  show ?case
  proof (cases "gremlinp_message_next_entry b" rule: result_cases)
    case (error e b1)
    then show ?thesis by (rule assms(1))
  next
    case (ok x b1)
    show ?thesis
      using less message_entry.ok_decreases [OF ok] message_entry_window [OF ok]
      by (intro assms(2) [OF ok]) simp_all
  qed
qed

lemma count_body_loop_correct:
  "count_body_loop b out = (r, b1) \<Longrightarrow>
   pb_buf b1 = pb_buf b \<and> (\<forall>out'. r = Inr out' \<longrightarrow>
     out' = out\<lparr>n_messages := n_messages out + length (fst (flat_body k i b)),
                n_enums := n_enums out + length (snd (flat_body k i b))\<rparr>)"
proof (induction b arbitrary: out r b1 k i rule: bodies_induct)
  case (stop b e b2)
  then have "ended e b2 out = (r, b1)" by (simp add: count_body_loop.simps [of b out])
  then show ?case
    using ended_text [of e b2 out r b1] message_entries.same_text [OF stop(1)] flat_body_end [OF stop(1), of k i] by auto
next
  case (step b x b2)
  note u = count_body_loop.simps [of b out] and t = message_entries.same_text [OF step.hyps(1)]
  show ?case
  proof (cases "declares (en_entry x)")
    case False
    then have "count_body_loop b2 out = (r, b1)"
      using step.prems step.hyps by (cases "en_entry x") (simp_all add: u declares_def)
    then show ?thesis
      using step.IH(1) [of out r b1 k i] t flat_body_other [OF step.hyps(1) False, of k i] by simp
  next
    case True
    then consider (enum) en where "en_entry x = GREMLINP_MSG_ENTRY_ENUM en"
      | (message) m where "en_entry x = GREMLINP_MSG_ENTRY_MESSAGE m"
      by (cases "en_entry x") (auto simp: declares_def)
    then show ?thesis
    proof cases
      case enum
      then have "count_body_loop b2 (out\<lparr>n_enums := n_enums out + 1\<rparr>) = (r, b1)"
        using step.prems step.hyps by (simp add: u)
      then show ?thesis
        using step.IH(1) [of "out\<lparr>n_enums := n_enums out + 1\<rparr>" r b1 k i] t flat_body_enum [OF step.hyps(1) enum, of k i]
        by auto
    next
      case message
      let ?w = "body_scope_enter b2 (mg_body_start m) (mg_body_end m)"
      let ?out = "out\<lparr>n_messages := n_messages out + 1\<rparr>"
      obtain ms es where f1: "flat_body i (i + 1) ?w = (ms, es)" by (metis surj_pair)
      obtain ms' es' where f2: "flat_body k (i + 1 + length ms) b2 = (ms', es')" by (metis surj_pair)
      note f = flat_body_message [OF step.hyps(1) message f1 f2]
      obtain r0 b3 where c: "count_body_loop ?w ?out = (r0, b3)" by (metis surj_pair)
      note C = step.IH(2) [OF message c, of i "i + 1"]
      have l: "body_scope_leave b2 b3 = b2" using C leave_same by simp
      show ?thesis
      proof (cases r0)
        case (Inl e)
        then show ?thesis using step.prems step.hyps message c l t by (auto simp: u)
      next
        case (Inr out1)
        then have "count_body_loop b2 out1 = (r, b1)"
          using step.prems step.hyps message c l by (simp add: u)
        from step.IH(1) [OF this, of k "i + 1 + length ms"] show ?thesis
          using C Inr f1 f2 f t by auto
      qed
    qed
  qed
qed

lemma open_message_correct:
  assumes "open_message b m parent fs p = (r, b1, p1)" and "length (nl_messages (fs_file fs)) < fs_msg_cap fs"
  shows "b1 = b \<and> r \<noteq> Inl Overrun \<and> (\<forall>k n fs1. r = Inr (k, n, fs1) \<longrightarrow>
    k = length (nl_messages (fs_file fs)) \<and>
    n = length (body_fields (body_scope_enter b (mg_body_start m) (mg_body_end m))) \<and>
    fs1 = fs\<lparr>fs_file := (fs_file fs)\<lparr>nl_messages := nl_messages (fs_file fs) @ [message_node b m parent []]\<rparr>\<rparr>)"
proof -
  let ?w = "body_scope_enter b (mg_body_start m) (mg_body_end m)"
  obtain c b2 where c: "count_fields_loop ?w 0 = (c, b2)" by (metis surj_pair)
  note C = count_fields_loop_correct [OF c]
  have l: "body_scope_leave b b2 = b" using C leave_same by simp
  obtain ok p2 where a: "pool_alloc (projr c * sizeof_field) p = (ok, p2)" by (metis surj_pair)
  show ?thesis
    using assms c C l a by (cases c) (auto simp: open_message_def Let_def split: if_splits)
qed

text \<open>A message opened and filled is the declared one.\<close>

lemma open_then_body:
  assumes "fs1 = fs\<lparr>fs_file := (fs_file fs)\<lparr>nl_messages := nl_messages (fs_file fs) @ [message_node b m parent []]\<rparr>\<rparr>"
    and "j < length (nl_messages (fs_file fs))"
  shows "add_body (length (nl_messages (fs_file fs))) fds ms es fs1
    = add_body j [] (message_node b m parent fds # ms) es fs"
  using assms by (simp add: add_body_def Let_def hint_def message_node_def)

text \<open>How many messages and enums a window declares does not depend on their numbering.\<close>

lemma flat_body_lengths:
  "length (fst (flat_body k i b)) = length (fst (flat_body k' i' b)) \<and>
   length (snd (flat_body k i b)) = length (snd (flat_body k' i' b))"
proof (induction b arbitrary: k i k' i' rule: bodies_induct)
  case (stop b e b1)
  then show ?case using flat_body_end by (metis fst_conv snd_conv)
next
  case (step b x b2)
  show ?case
  proof (cases "declares (en_entry x)")
    case False
    then show ?thesis using step.IH(1) [of k i k' i'] flat_body_other [OF step.hyps(1) False] by simp
  next
    case True
    then consider (enum) en where "en_entry x = GREMLINP_MSG_ENTRY_ENUM en"
      | (message) m where "en_entry x = GREMLINP_MSG_ENTRY_MESSAGE m"
      by (cases "en_entry x") (auto simp: declares_def)
    then show ?thesis
    proof cases
      case enum
      then show ?thesis using step.IH(1) [of k i k' i'] flat_body_enum [OF step.hyps(1) enum] by simp
    next
      case message
      let ?w = "body_scope_enter b2 (mg_body_start m) (mg_body_end m)"
      obtain ms es where f: "flat_body i (i + 1) ?w = (ms, es)" by (metis surj_pair)
      obtain ms' es' where g: "flat_body i' (i' + 1) ?w = (ms', es')" by (metis surj_pair)
      have "length ms = length ms'" "length es = length es'"
        using step.IH(2) [OF message, of i "i + 1" i' "i' + 1"] f g by simp_all
      then show ?thesis
        using step.IH(1) [of k "i + 1 + length ms" k' "i' + 1 + length ms'"]
          flat_body_message [OF step.hyps(1) message f, of k] flat_body_message [OF step.hyps(1) message g, of k']
        by (metis (no_types, lifting) fst_conv snd_conv length_append length_Cons surj_pair)
    qed
  qed
qed

lemma fill_body_loop_correct:
  "fill_body_loop k cap b fs p = (r, b1, p1) \<Longrightarrow> k < length (nl_messages (fs_file fs)) \<Longrightarrow>
   length (nm_fields (nl_messages (fs_file fs) ! k)) + length (body_fields b) \<le> cap \<Longrightarrow>
   flat_body k (length (nl_messages (fs_file fs))) b = (ms, es) \<Longrightarrow>
   length (nl_messages (fs_file fs)) + length ms \<le> fs_msg_cap fs \<Longrightarrow>
   length (nl_enums (fs_file fs)) + length es \<le> fs_enum_cap fs \<Longrightarrow>
   pb_buf b1 = pb_buf b \<and> r \<noteq> Inl Overrun \<and> (\<forall>fs'. r = Inr fs' \<longrightarrow> fs' = add_body k (body_fields b) ms es fs)"
proof (induction b arbitrary: k cap fs p r b1 p1 ms es rule: bodies_induct)
  case (stop b e b2)
  obtain r0 b3 where "ended e b2 fs = (r0, b3)" by (metis surj_pair)
  then show ?case
    using stop.prems stop.hyps ended_text [of e b2 fs r0 b3] message_entries.same_text [OF stop.hyps]
      body_fields_end [OF stop.hyps] flat_body_end [OF stop.hyps]
    by (auto simp: fill_body_loop.simps [of k cap b fs p] add_body_nil)
next
  case (step b x b2)
  note u = fill_body_loop.simps [of k cap b fs p] and t = message_entries.same_text [OF step.hyps(1)]
    and f = body_fields_step [OF step.hyps(1)] and nx = step.hyps(1)
  note len = step.prems(2) and capF = step.prems(3) and fl = step.prems(4) and capM = step.prems(5) and capE = step.prems(6)
  show ?case
  proof (cases "en_entry x")
    case (GREMLINP_MSG_ENTRY_FIELD g)
    let ?fs1 = "add_body k [field_node b2 g] [] [] fs"
    have bf: "body_fields b = field_node b2 g # body_fields b2"
      using f GREMLINP_MSG_ENTRY_FIELD by (simp add: entry_fields_def)
    have "put_field k cap (field_node b2 g) fs = Some ?fs1" using len capF bf by (intro put_field_eq) auto
    then have "fill_body_loop k cap b2 ?fs1 p = (r, b1, p1)"
      using step.prems(1) nx GREMLINP_MSG_ENTRY_FIELD by (simp add: u)
    moreover have "flat_body k (length (nl_messages (fs_file fs))) b2 = (ms, es)"
      using fl flat_body_other [OF nx] GREMLINP_MSG_ENTRY_FIELD by (simp add: declares_def)
    ultimately show ?thesis
      using step.IH(1) [of k cap ?fs1 p r b1 p1 ms es] len capF capM capE bf t by (simp add: add_body_add)
  next
    case (GREMLINP_MSG_ENTRY_ONEOF oo)
    let ?w = "body_scope_enter b2 (oo_body_start oo) (oo_body_end oo)"
    have bf: "body_fields b = oneof_fields ?w @ body_fields b2"
      using f GREMLINP_MSG_ENTRY_ONEOF by (simp add: entry_fields_def)
    obtain r0 b3 where o: "fill_oneof_loop k cap ?w fs = (r0, b3)" by (metis surj_pair)
    have O: "pb_buf b3 = pb_buf b2" "r0 \<noteq> Inl Overrun" "\<And>fs'. r0 = Inr fs' \<Longrightarrow> fs' = add_body k (oneof_fields ?w) [] [] fs"
      using fill_oneof_loop_correct [OF o len] capF bf by auto
    have l: "body_scope_leave b2 b3 = b2" using O leave_same by simp
    have fl2: "flat_body k (length (nl_messages (fs_file fs))) b2 = (ms, es)"
      using fl flat_body_other [OF nx] GREMLINP_MSG_ENTRY_ONEOF by (simp add: declares_def)
    show ?thesis
    proof (cases r0)
      case (Inl y)
      then show ?thesis using step.prems(1) nx GREMLINP_MSG_ENTRY_ONEOF o l t O(2) by (auto simp: u)
    next
      case (Inr fs1)
      then have "fill_body_loop k cap b2 fs1 p = (r, b1, p1)"
        using step.prems(1) nx GREMLINP_MSG_ENTRY_ONEOF o l by (simp add: u)
      then show ?thesis
        using step.IH(1) [of k cap fs1 p r b1 p1 ms es] O(3) [OF Inr] len capF capM capE bf t fl2
        by (simp add: add_body_add)
    qed
  next
    case (GREMLINP_MSG_ENTRY_ENUM en)
    have bf: "body_fields b = body_fields b2" using f GREMLINP_MSG_ENTRY_ENUM by (simp add: entry_fields_def)
    obtain es' where es: "es = declared_enum b2 en (Some k) # es'"
      and fl2: "flat_body k (length (nl_messages (fs_file fs))) b2 = (ms, es')"
      using fl flat_body_enum [OF nx GREMLINP_MSG_ENTRY_ENUM] by (metis prod.collapse prod.inject)
    obtain r0 b3 p2 where o: "fill_enum b2 en (Some k) fs p = (r0, b3, p2)" by (metis surj_pair)
    have O: "b3 = b2" "r0 \<noteq> Inl Overrun" "\<And>fs'. r0 = Inr fs' \<Longrightarrow> fs' = add_enum (declared_enum b2 en (Some k)) fs"
      using fill_enum_correct [OF o] capE es by auto
    have ae: "add_enum e fs = add_body k [] [] [e] fs" for e
      using len by (simp add: add_enum_def add_body_def hint_def Let_def)
    show ?thesis
    proof (cases r0)
      case (Inl y)
      then show ?thesis using step.prems(1) nx GREMLINP_MSG_ENTRY_ENUM o t O(1,2) by (auto simp: u)
    next
      case (Inr fs1)
      then have "fill_body_loop k cap b2 fs1 p2 = (r, b1, p1)"
        using step.prems(1) nx GREMLINP_MSG_ENTRY_ENUM o O(1) by (simp add: u)
      then show ?thesis
        using step.IH(1) [of k cap fs1 p2 r b1 p1 ms es'] O(3) [OF Inr] len capF capM capE bf t fl2 es
        by (simp add: ae add_body_add)
    qed
  next
    case (GREMLINP_MSG_ENTRY_MESSAGE m)
    let ?w = "body_scope_enter b2 (mg_body_start m) (mg_body_end m)"
    let ?i = "length (nl_messages (fs_file fs))"
    have bf: "body_fields b = body_fields b2" using f GREMLINP_MSG_ENTRY_MESSAGE by (simp add: entry_fields_def)
    obtain ms1 es1 where f1: "flat_body ?i (?i + 1) ?w = (ms1, es1)" by (metis surj_pair)
    obtain ms2 es2 where f2: "flat_body k (?i + 1 + length ms1) b2 = (ms2, es2)" by (metis surj_pair)
    have mes: "ms = declared_message b2 m (Some k) # ms1 @ ms2" "es = es1 @ es2"
      using flat_body_message [OF nx GREMLINP_MSG_ENTRY_MESSAGE f1 f2] fl by simp_all
    obtain r0 b3 p2 where o: "open_message b2 m (Some k) fs p = (r0, b3, p2)" by (metis surj_pair)
    have O: "b3 = b2" "r0 \<noteq> Inl Overrun" "\<And>k1 n1 fs1. r0 = Inr (k1, n1, fs1) \<Longrightarrow> k1 = ?i \<and>
        n1 = length (body_fields ?w) \<and> fs1 = fs\<lparr>fs_file := (fs_file fs)\<lparr>nl_messages := nl_messages (fs_file fs) @ [message_node b2 m (Some k) []]\<rparr>\<rparr>"
      using open_message_correct [OF o] capM mes by auto
    show ?thesis
    proof (cases r0)
      case (Inl y)
      then show ?thesis using step.prems(1) nx GREMLINP_MSG_ENTRY_MESSAGE o t O(1,2) by (auto simp: u)
    next
      case (Inr y)
      then obtain k1 n1 fs1 where y: "r0 = Inr (k1, n1, fs1)" by (metis surj_pair)
      note F = O(3) [OF y]
      have k1: "k1 = ?i" and n1: "n1 = length (body_fields ?w)" using F by simp_all
      have cs: "fs_msg_cap fs1 = fs_msg_cap fs" "fs_enum_cap fs1 = fs_enum_cap fs"
        "length (nl_messages (fs_file fs1)) = ?i + 1" "nl_enums (fs_file fs1) = nl_enums (fs_file fs)"
        "nm_fields (nl_messages (fs_file fs1) ! k1) = []"
        using F by (auto simp: message_node_def)
      obtain r2 b4 p3 where g: "fill_body_loop k1 n1 ?w fs1 p2 = (r2, b4, p3)" by (metis surj_pair)
      have G: "pb_buf b4 = pb_buf b2" "r2 \<noteq> Inl Overrun"
        "\<And>fs2. r2 = Inr fs2 \<Longrightarrow> fs2 = add_body k1 (body_fields ?w) ms1 es1 fs1"
        using step.IH(2) [OF GREMLINP_MSG_ENTRY_MESSAGE g, of ms1 es1] cs k1 n1 f1 mes capM capE by auto
      have l: "body_scope_leave b2 b4 = b2" using G leave_same by simp
      show ?thesis
      proof (cases r2)
        case (Inl z)
        then show ?thesis using step.prems(1) nx GREMLINP_MSG_ENTRY_MESSAGE o y g t l O(1) G(2) by (auto simp: u)
      next
        case (Inr fs2)
        have "add_body ?i (body_fields ?w) ms1 es1 fs1 = add_body k [] (declared_message b2 m (Some k) # ms1) es1 fs"
          unfolding declared_message_def using F len by (intro open_then_body) auto
        then have fs2: "fs2 = add_body k [] (declared_message b2 m (Some k) # ms1) es1 fs"
          using G(3) [OF Inr] k1 by simp
        have "fill_body_loop k cap b2 fs2 p3 = (r, b1, p1)"
          using step.prems(1) nx GREMLINP_MSG_ENTRY_MESSAGE o y g l O(1) Inr by (simp add: u)
        from step.IH(1) [OF this, of ms2 es2] show ?thesis
          using fs2 len capF capM capE bf t f2 mes by (simp add: add_body_add)
      qed
    qed
  qed (use step.prems nx t f step.IH(1) [of k cap fs p r b1 p1 ms es] flat_body_other [OF nx] in
        \<open>auto simp: u entry_fields_def declares_def\<close>)
qed

end
