(* ===== verification/Build_File.thy ===== *)
theory Build_File
  imports Build_Correct Scoped_Names
begin

text \<open>
  The builder on a whole file: both passes of \<open>gremlind_build_file\<close> against the
  declarations of the file in pre-order, and what follows for the passes that run
  on the tree.
\<close>

section \<open>The file\<close>

function flat_file :: "nat \<Rightarrow> parser_buffer \<Rightarrow> gremlind_message list \<times> gremlind_enum list" where
  "flat_file i b =
     attempt (gremlinp_file_next_entry b)
       (\<lambda>e b1. case en_entry e of
          GREMLINP_FILE_ENTRY_ENUM en \<Rightarrow>
            (case flat_file i b1 of (ms, es) \<Rightarrow> (ms, declared_enum b1 en None # es))
        | GREMLINP_FILE_ENTRY_MESSAGE m \<Rightarrow>
            (case flat_body i (i + 1) (body_scope_enter b1 (mg_body_start m) (mg_body_end m)) of
               (ms, es) \<Rightarrow>
                 (case flat_file (i + 1 + length ms) b1 of
                    (ms', es') \<Rightarrow> (declared_message b1 m None # ms @ ms', es @ es')))
        | _ \<Rightarrow> flat_file i b1)
       (\<lambda>e b1. ([], []))"
  by pat_completeness auto
termination
  by (relation "measure (\<lambda>(_, b). remaining b)") (auto dest: file_entry.ok_decreases)

declare flat_file.simps [simp del]

definition set_header :: "parser_buffer \<Rightarrow> gremlind_file \<Rightarrow> gremlinp_file_entry \<Rightarrow> gremlind_file" where
  "set_header b fl e =
     (case e of
        GREMLINP_FILE_ENTRY_SYNTAX x \<Rightarrow> fl\<lparr>nl_syntax := Some (span_text b (sy_version x))\<rparr>
      | GREMLINP_FILE_ENTRY_EDITION x \<Rightarrow> fl\<lparr>nl_edition := Some (span_text b (ed_edition x))\<rparr>
      | GREMLINP_FILE_ENTRY_PACKAGE x \<Rightarrow> fl\<lparr>nl_package := Some (span_text b (pk_name x))\<rparr>
      | GREMLINP_FILE_ENTRY_IMPORT i \<Rightarrow> fl\<lparr>nl_imports := nl_imports fl @ [import_node b i]\<rparr>
      | _ \<Rightarrow> fl)"

definition is_import :: "gremlinp_file_entry \<Rightarrow> bool" where
  "is_import e = (case e of GREMLINP_FILE_ENTRY_IMPORT _ \<Rightarrow> True | _ \<Rightarrow> False)"

definition file_imports :: "parser_buffer \<Rightarrow> nat" where
  "file_imports b = length (filter is_import (entries gremlinp_file_next_entry b))"

text \<open>The state with the declarations of the entries \<open>hs\<close> added.\<close>

definition add_file :: "parser_buffer \<Rightarrow> gremlinp_file_entry list \<Rightarrow> gremlind_message list \<Rightarrow> gremlind_enum list \<Rightarrow>
    fill_state \<Rightarrow> fill_state" where
  "add_file b hs ms es fs = (let fl = fs_file fs in
     fs\<lparr>fs_file := (hint (concat (map nm_fields ms)) (foldl (set_header b) fl hs))
        \<lparr>nl_messages := nl_messages fl @ ms, nl_enums := nl_enums fl @ es\<rparr>\<rparr>)"

lemma set_header_same: "same_window b b1 \<Longrightarrow> set_header b1 = set_header b"
  by (auto simp: same_window_def set_header_def span_text_def import_node_def fun_eq_iff
      split: gremlinp_file_entry.split)

lemma set_header_keeps [simp]:
  "nl_messages (foldl (set_header b) fl hs) = nl_messages fl"
  "nl_enums (foldl (set_header b) fl hs) = nl_enums fl"
  "length (nl_imports (foldl (set_header b) fl hs)) = length (nl_imports fl) + length (filter is_import hs)"
proof -
  have "nl_messages (set_header b f e) = nl_messages f \<and> nl_enums (set_header b f e) = nl_enums f \<and>
      length (nl_imports (set_header b f e)) = length (nl_imports f) + (if is_import e then 1 else 0)" for f e
    by (cases e) (simp_all add: set_header_def is_import_def)
  then show "nl_messages (foldl (set_header b) fl hs) = nl_messages fl"
    "nl_enums (foldl (set_header b) fl hs) = nl_enums fl"
    "length (nl_imports (foldl (set_header b) fl hs)) = length (nl_imports fl) + length (filter is_import hs)"
    by (induction hs arbitrary: fl) auto
qed

lemma set_header_hint:
  "foldl (set_header b) (hint xs (fl\<lparr>nl_messages := a, nl_enums := c\<rparr>)) hs
    = hint xs ((foldl (set_header b) fl hs)\<lparr>nl_messages := a, nl_enums := c\<rparr>)"
proof (induction hs arbitrary: fl)
  case (Cons h hs)
  have "set_header b (hint xs (fl\<lparr>nl_messages := a, nl_enums := c\<rparr>)) h
      = hint xs ((set_header b fl h)\<lparr>nl_messages := a, nl_enums := c\<rparr>)"
    by (cases h) (simp_all add: set_header_def hint_def)
  then show ?case using Cons by simp
qed simp

lemma add_file_nil: "add_file b [] [] [] fs = fs"
  by (cases fs) (simp add: add_file_def hint_def Let_def)

lemma add_file_add:
  "add_file b hs' ms' es' (add_file b hs ms es fs) = add_file b (hs @ hs') (ms @ ms') (es @ es') fs"
  by (simp add: add_file_def hint_updates [symmetric] set_header_hint Let_def)
     (simp add: hint_updates hint_hint)

lemma add_file_simps [simp]:
  "fs_msg_cap (add_file b hs ms es fs) = fs_msg_cap fs"
  "fs_enum_cap (add_file b hs ms es fs) = fs_enum_cap fs"
  "length (nl_messages (fs_file (add_file b hs ms es fs))) = length (nl_messages (fs_file fs)) + length ms"
  "length (nl_enums (fs_file (add_file b hs ms es fs))) = length (nl_enums (fs_file fs)) + length es"
  "length (nl_imports (fs_file (add_file b hs ms es fs))) = length (nl_imports (fs_file fs)) + length (filter is_import hs)"
  by (simp_all add: add_file_def hint_def Let_def)

lemma flat_file_end: "gremlinp_file_next_entry b = (Inl e, b1) \<Longrightarrow> flat_file i b = ([], [])"
  by (simp add: flat_file.simps [of i b])

lemma flat_file_enum:
  "gremlinp_file_next_entry b = (Inr x, b1) \<Longrightarrow> en_entry x = GREMLINP_FILE_ENTRY_ENUM en \<Longrightarrow>
   flat_file i b = (fst (flat_file i b1), declared_enum b1 en None # snd (flat_file i b1))"
  by (simp add: flat_file.simps [of i b] split: prod.split)

lemma flat_file_message:
  "gremlinp_file_next_entry b = (Inr x, b1) \<Longrightarrow> en_entry x = GREMLINP_FILE_ENTRY_MESSAGE m \<Longrightarrow>
   flat_body i (i + 1) (body_scope_enter b1 (mg_body_start m) (mg_body_end m)) = (ms, es) \<Longrightarrow>
   flat_file (i + 1 + length ms) b1 = (ms', es') \<Longrightarrow>
   flat_file i b = (declared_message b1 m None # ms @ ms', es @ es')"
  by (simp add: flat_file.simps [of i b])

definition file_declares :: "gremlinp_file_entry \<Rightarrow> bool" where
  "file_declares e = (case e of GREMLINP_FILE_ENTRY_ENUM _ \<Rightarrow> True | GREMLINP_FILE_ENTRY_MESSAGE _ \<Rightarrow> True | _ \<Rightarrow> False)"

lemma flat_file_other:
  "gremlinp_file_next_entry b = (Inr x, b1) \<Longrightarrow> \<not> file_declares (en_entry x) \<Longrightarrow> flat_file i b = flat_file i b1"
  by (cases "en_entry x") (simp_all add: flat_file.simps [of i b] file_declares_def)

lemma count_message_body_correct:
  assumes "count_message_body b s e out = (r, b1)"
  shows "b1 = b \<and> (\<forall>out'. r = Inr out' \<longrightarrow>
     out' = out\<lparr>n_messages := n_messages out + length (fst (flat_body k i (body_scope_enter b s e))),
                n_enums := n_enums out + length (snd (flat_body k i (body_scope_enter b s e)))\<rparr>)"
proof -
  obtain r0 b2 where c: "count_body_loop (body_scope_enter b s e) out = (r0, b2)" by (metis surj_pair)
  note C = count_body_loop_correct [OF c, of k i]
  have "body_scope_leave b b2 = b" using C leave_same by simp
  then show ?thesis using assms c C by (simp add: count_message_body_def)
qed

lemma count_entries_loop_correct:
  "count_entries_loop b out = (r, b1) \<Longrightarrow>
   same_window b b1 \<and> (\<forall>out'. r = Inr out' \<longrightarrow>
     out' = out\<lparr>n_messages := n_messages out + length (fst (flat_file i b)),
                n_enums := n_enums out + length (snd (flat_file i b)),
                n_imports := n_imports out + file_imports b\<rparr>)"
proof (induction b arbitrary: out r b1 i rule: file_entries.entries_induct)
  case (stop b e b2)
  then have "ended e b2 out = (r, b1)" by (simp add: count_entries_loop.simps [of b out])
  then show ?case
    using ended_text [of e b2 out r b1] file_entries.same_text [OF stop(1)] flat_file_end [OF stop(1), of i]
      file_entries.entries_end [OF stop(1)]
    by (auto simp: same_window_def file_imports_def)
next
  case (step b x b2)
  note u = count_entries_loop.simps [of b out] and t = file_entries.same_text [OF step.hyps(1)] and nx = step.hyps(1)
  have imp: "file_imports b = (if is_import (en_entry x) then 1 else 0) + file_imports b2"
    using file_entries.entries_step [OF nx] by (simp add: file_imports_def)
  consider (enum) en where "en_entry x = GREMLINP_FILE_ENTRY_ENUM en"
    | (message) m where "en_entry x = GREMLINP_FILE_ENTRY_MESSAGE m"
    | (import) im where "en_entry x = GREMLINP_FILE_ENTRY_IMPORT im"
    | (other) "count_entries_loop b out = count_entries_loop b2 out" "\<not> file_declares (en_entry x)" "\<not> is_import (en_entry x)"
    using nx by (cases "en_entry x") (simp_all add: u file_declares_def is_import_def)
  then show ?case
  proof cases
    case enum
    let ?o = "out\<lparr>n_enums := n_enums out + 1\<rparr>"
    have "count_entries_loop b2 ?o = (r, b1)" using step.prems nx enum by (simp add: u)
    from step.IH [OF this, of i] show ?thesis
      using t imp flat_file_enum [OF nx enum, of i] enum
      by (auto simp: same_window_def is_import_def)
  next
    case message
    let ?w = "body_scope_enter b2 (mg_body_start m) (mg_body_end m)"
    let ?o = "out\<lparr>n_messages := n_messages out + 1\<rparr>"
    obtain ms es where f1: "flat_body i (i + 1) ?w = (ms, es)" by (metis surj_pair)
    obtain ms' es' where f2: "flat_file (i + 1 + length ms) b2 = (ms', es')" by (metis surj_pair)
    note f = flat_file_message [OF nx message f1 f2]
    obtain r0 b3 where c: "count_message_body b2 (mg_body_start m) (mg_body_end m) ?o = (r0, b3)" by (metis surj_pair)
    note C = count_message_body_correct [OF c, of i "i + 1", unfolded f1]
    show ?thesis
    proof (cases r0)
      case (Inl e)
      then show ?thesis using step.prems nx message c C t by (auto simp: u same_window_def)
    next
      case (Inr out1)
      then have "count_entries_loop b2 out1 = (r, b1)"
        using step.prems nx message c C by (simp add: u)
      note I = step.IH [OF this, of "i + 1 + length ms", unfolded f2]
      have "out1 = ?o\<lparr>n_messages := n_messages ?o + length ms, n_enums := n_enums ?o + length es\<rparr>"
        using C Inr by simp
      then show ?thesis
        using I t imp message unfolding f by (simp add: same_window_def is_import_def add.assoc)
    qed
  next
    case import
    let ?o = "out\<lparr>n_imports := n_imports out + 1\<rparr>"
    have "count_entries_loop b2 ?o = (r, b1)" using step.prems nx import by (simp add: u)
    from step.IH [OF this, of i] show ?thesis
      using t imp flat_file_other [OF nx, of i] import
      by (auto simp: same_window_def is_import_def file_declares_def)
  next
    case other
    then have "count_entries_loop b2 out = (r, b1)" using step.prems by simp
    from step.IH [OF this, of i] show ?thesis
      using t imp flat_file_other [OF nx other(2), of i] other(3) by (auto simp: same_window_def)
  qed
qed

lemma fill_message_correct:
  assumes "fill_message b m None fs p = (r, b1, p1)"
    and "flat_body (length (nl_messages (fs_file fs))) (length (nl_messages (fs_file fs)) + 1)
      (body_scope_enter b (mg_body_start m) (mg_body_end m)) = (ms, es)"
    and "length (nl_messages (fs_file fs)) + 1 + length ms \<le> fs_msg_cap fs"
    and "length (nl_enums (fs_file fs)) + length es \<le> fs_enum_cap fs"
  shows "b1 = b \<and> r \<noteq> Inl Overrun \<and>
    (\<forall>fs'. r = Inr fs' \<longrightarrow> fs' = add_file b [] (declared_message b m None # ms) es fs)"
proof -
  let ?w = "body_scope_enter b (mg_body_start m) (mg_body_end m)"
  let ?i = "length (nl_messages (fs_file fs))"
  obtain r0 b2 p2 where o: "open_message b m None fs p = (r0, b2, p2)" by (metis surj_pair)
  have O: "b2 = b" "r0 \<noteq> Inl Overrun" "\<And>k1 n1 fs1. r0 = Inr (k1, n1, fs1) \<Longrightarrow> k1 = ?i \<and>
      n1 = length (body_fields ?w) \<and> fs1 = fs\<lparr>fs_file := (fs_file fs)\<lparr>nl_messages := nl_messages (fs_file fs) @ [message_node b m None []]\<rparr>\<rparr>"
    using open_message_correct [OF o] assms(3) by auto
  show ?thesis
  proof (cases r0)
    case (Inl y)
    then show ?thesis using assms(1) o O(1,2) by (auto simp: fill_message_def)
  next
    case (Inr y)
    then obtain k1 n1 fs1 where y: "r0 = Inr (k1, n1, fs1)" by (metis surj_pair)
    note F = O(3) [OF y]
    obtain r2 b4 p3 where g: "fill_body_loop k1 n1 ?w fs1 p2 = (r2, b4, p3)" by (metis surj_pair)
    have G: "pb_buf b4 = pb_buf b" "r2 \<noteq> Inl Overrun"
      "\<And>fs2. r2 = Inr fs2 \<Longrightarrow> fs2 = add_body ?i (body_fields ?w) ms es fs1"
      using fill_body_loop_correct [OF g, of ms es] F assms(2-4) by (auto simp: message_node_def)
    have "add_body ?i (body_fields ?w) ms es fs1 = add_file b [] (declared_message b m None # ms) es fs"
      using F by (simp add: add_body_def add_file_def hint_def Let_def declared_message_def message_node_def)
    then show ?thesis
      using assms(1) o y g G O(1) leave_same [OF G(1)] by (auto simp: fill_message_def)
  qed
qed

lemma add_file_same:
  assumes "same_window b b1"
  shows "add_file b1 = add_file b"
  unfolding add_file_def set_header_same [OF assms] ..

lemma add_enum_file: "add_enum e fs = add_file b [] [] [e] fs"
  by (simp add: add_enum_def add_file_def hint_def Let_def)

text \<open>An entry that neither declares a type nor is an import.\<close>

lemma fill_file_header:
  assumes "gremlinp_file_next_entry b = (Inr x, b1)" and "\<not> file_declares (en_entry x)" and "\<not> is_import (en_entry x)"
  shows "fill_file n b fs p = fill_file n b1 (add_file b1 [en_entry x] [] [] fs) p"
proof -
  have "set_header b1 fl (en_entry x) = fl \<Longrightarrow> add_file b1 [en_entry x] [] [] fs = fs" if "fl = fs_file fs" for fl
    using that by (cases fs) (simp add: add_file_def hint_def Let_def)
  then show ?thesis
    using assms by (cases "en_entry x")
      (simp_all add: fill_file.simps [of n b fs p] set_header_def on_file_def add_file_def hint_def Let_def
        file_declares_def is_import_def)
qed

lemma fill_file_correct:
  "fill_file n b fs p = (r, b1, p1) \<Longrightarrow>
   length (nl_imports (fs_file fs)) + file_imports b \<le> n \<Longrightarrow>
   flat_file (length (nl_messages (fs_file fs))) b = (ms, es) \<Longrightarrow>
   length (nl_messages (fs_file fs)) + length ms \<le> fs_msg_cap fs \<Longrightarrow>
   length (nl_enums (fs_file fs)) + length es \<le> fs_enum_cap fs \<Longrightarrow>
   same_window b b1 \<and> r \<noteq> Inl Overrun \<and>
   (\<forall>fs'. r = Inr fs' \<longrightarrow> fs' = add_file b (entries gremlinp_file_next_entry b) ms es fs)"
proof (induction b arbitrary: fs p r b1 p1 ms es rule: file_entries.entries_induct)
  case (stop b e b2)
  obtain r0 b3 where "ended e b2 fs = (r0, b3)" by (metis surj_pair)
  then show ?case
    using stop.prems stop.hyps ended_text [of e b2 fs r0 b3] file_entries.same_text [OF stop.hyps]
      file_entries.entries_end [OF stop.hyps] flat_file_end [OF stop.hyps]
    by (auto simp: fill_file.simps [of n b fs p] add_file_nil same_window_def)
next
  case (step b x b2)
  note u = fill_file.simps [of n b fs p] and nx = step.hyps(1)
  note imps = step.prems(2) and fl = step.prems(3) and capM = step.prems(4) and capE = step.prems(5)
  have t: "same_window b b2" using entry_same_window(3) [OF nx] .
  have tt: "same_window b2 c \<Longrightarrow> same_window b c" for c using t by (simp add: same_window_def)
  have en: "entries gremlinp_file_next_entry b = en_entry x # entries gremlinp_file_next_entry b2"
    using file_entries.entries_step [OF nx] .
  have im: "file_imports b = (if is_import (en_entry x) then 1 else 0) + file_imports b2"
    using en by (simp add: file_imports_def)
  have af: "add_file b2 = add_file b" using add_file_same [OF t] .
  consider (enum) ed where "en_entry x = GREMLINP_FILE_ENTRY_ENUM ed"
    | (message) m where "en_entry x = GREMLINP_FILE_ENTRY_MESSAGE m"
    | (import) i where "en_entry x = GREMLINP_FILE_ENTRY_IMPORT i"
    | (other) "\<not> file_declares (en_entry x)" "\<not> is_import (en_entry x)"
    by (cases "en_entry x") (auto simp: file_declares_def is_import_def)
  then show ?case
  proof cases
    case enum
    have sh: "add_file b2 [en_entry x] [] [] fs = fs"
      using enum by (cases fs) (simp add: add_file_def set_header_def hint_def Let_def)
    obtain es' where es: "es = declared_enum b2 ed None # es'"
      and fl2: "flat_file (length (nl_messages (fs_file fs))) b2 = (ms, es')"
      using fl flat_file_enum [OF nx enum] by (metis prod.collapse prod.inject)
    obtain r0 b3 p2 where o: "fill_enum b2 ed None fs p = (r0, b3, p2)" by (metis surj_pair)
    have O: "b3 = b2" "r0 \<noteq> Inl Overrun" "\<And>fs'. r0 = Inr fs' \<Longrightarrow> fs' = add_file b2 [en_entry x] [] [declared_enum b2 ed None] fs"
      using fill_enum_correct [OF o] capE es sh add_file_add [of b2 "[]" "[]" "[declared_enum b2 ed None]" "[en_entry x]" "[]" "[]" fs]
      by (auto simp: add_enum_file [of _ _ b2])
    show ?thesis
    proof (cases r0)
      case (Inl y)
      then show ?thesis using step.prems(1) nx enum o t O(1,2) by (auto simp: u)
    next
      case (Inr fs1)
      then have "fill_file n b2 fs1 p2 = (r, b1, p1)" using step.prems(1) nx enum o O(1) by (simp add: u)
      from step.IH [OF this, of ms es'] show ?thesis
        using O(3) [OF Inr] imps capM capE tt fl2 es en im enum
        by (simp add: add_file_add af is_import_def)
    qed
  next
    case message
    let ?w = "body_scope_enter b2 (mg_body_start m) (mg_body_end m)"
    let ?i = "length (nl_messages (fs_file fs))"
    have sh: "add_file b2 [en_entry x] [] [] fs = fs"
      using message by (cases fs) (simp add: add_file_def set_header_def hint_def Let_def)
    obtain ms1 es1 where f1: "flat_body ?i (?i + 1) ?w = (ms1, es1)" by (metis surj_pair)
    obtain ms2 es2 where f2: "flat_file (?i + 1 + length ms1) b2 = (ms2, es2)" by (metis surj_pair)
    have mes: "ms = declared_message b2 m None # ms1 @ ms2" "es = es1 @ es2"
      using flat_file_message [OF nx message f1 f2] fl by simp_all
    obtain r0 b3 p2 where o: "fill_message b2 m None fs p = (r0, b3, p2)" by (metis surj_pair)
    have O: "b3 = b2" "r0 \<noteq> Inl Overrun"
      "\<And>fs'. r0 = Inr fs' \<Longrightarrow> fs' = add_file b2 [en_entry x] (declared_message b2 m None # ms1) es1 fs"
      using fill_message_correct [OF o f1] capM capE mes sh
        add_file_add [of b2 "[]" "declared_message b2 m None # ms1" es1 "[en_entry x]" "[]" "[]" fs]
      by auto
    show ?thesis
    proof (cases r0)
      case (Inl y)
      then show ?thesis using step.prems(1) nx message o t O(1,2) by (auto simp: u)
    next
      case (Inr fs1)
      then have "fill_file n b2 fs1 p2 = (r, b1, p1)" using step.prems(1) nx message o O(1) by (simp add: u)
      from step.IH [OF this, of ms2 es2] show ?thesis
        using O(3) [OF Inr] imps capM capE tt f2 mes en im message
        by (simp add: add_file_add af is_import_def)
    qed
  next
    case import
    let ?fs1 = "add_file b2 [en_entry x] [] [] fs"
    have "?fs1 = on_file (\<lambda>fl. fl\<lparr>nl_imports := nl_imports fl @ [import_node b2 i]\<rparr>) fs"
      using import by (simp add: add_file_def set_header_def on_file_def hint_def Let_def)
    then have "fill_file n b2 ?fs1 p = (r, b1, p1)"
      using step.prems(1) nx import imps im by (simp add: u is_import_def)
    from step.IH [OF this, of ms es] show ?thesis
      using imps capM capE tt fl flat_file_other [OF nx] en im import
      by (simp add: add_file_add af is_import_def file_declares_def)
  next
    case other
    have "fill_file n b2 (add_file b2 [en_entry x] [] [] fs) p = (r, b1, p1)"
      using step.prems(1) fill_file_header [OF nx other, of n fs p] by (rule trans [OF sym, rotated])
    from step.IH [OF this, of ms es] show ?thesis
      using imps capM capE tt fl flat_file_other [OF nx other(1)] en im other(2)
      by (simp add: add_file_add af)
  qed
qed

section \<open>The builder\<close>

text \<open>The file a text declares.\<close>

definition declared_file :: "parser_buffer \<Rightarrow> gremlind_file" where
  "declared_file b =
     (case flat_file 0 b of (ms, es) \<Rightarrow>
        (hint (concat (map nm_fields ms)) (foldl (set_header b) empty_file (entries gremlinp_file_next_entry b)))
          \<lparr>nl_messages := ms, nl_enums := es\<rparr>)"

lemma pack_field_same: "same_window b b1 \<Longrightarrow> pack_field fl b1 = pack_field fl b"
proof -
  assume w: "same_window b b1"
  have e: "extract_option b1 = extract_option b"
    using rewind_same [OF w] by (simp add: extract_option_def fun_eq_iff)
  have t: "span_text b1 = span_text b" using w by (simp add: same_window_def span_text_def fun_eq_iff)
  have "gremlind_field_packed_option b1 opts = gremlind_field_packed_option b opts" for opts
    unfolding gremlind_field_packed_option_def e t ..
  then show ?thesis by (simp add: pack_field_def fun_eq_iff)
qed

lemma resolve_packing_same: "same_window b b1 \<Longrightarrow> resolve_packing fl b1 = resolve_packing fl b"
  by (simp add: resolve_packing_def pack_field_same [of b b1])

lemma same_window_rewind: "same_window b b1 \<Longrightarrow> rewind (pb_offset b) b1 = b"
  by (cases b; cases b1) (simp add: same_window_def rewind_def)

lemma build_file_result:
  assumes "gremlind_build_file p b = (r, b', p')"
  shows "same_window b b' \<and> (\<forall>e off. r = Inl (e, off) \<longrightarrow> e \<noteq> Overrun)
    \<and> (\<forall>fl. r = Inr fl \<longrightarrow> fl = resolve_packing (declared_file b) b)"
proof -
  obtain c b1 where c: "count_entries b = (c, b1)" by (metis surj_pair)
  obtain ms es where f: "flat_file 0 b = (ms, es)" by (metis surj_pair)
  note C = count_entries_loop_correct [OF c [unfolded count_entries_def], of 0, unfolded f]
  have w: "same_window b b1" using C by blast
  show ?thesis
  proof (cases c)
    case (Inl e)
    then show ?thesis using assms c w by (auto simp: gremlind_build_file_def)
  next
    case (Inr cnt)
    let ?fs = "\<lparr>fs_file = empty_file, fs_msg_cap = n_messages cnt, fs_enum_cap = n_enums cnt\<rparr>"
    have cnt: "n_messages cnt = length ms" "n_enums cnt = length es" "n_imports cnt = file_imports b"
      using C Inr by auto
    obtain k1 p1 where a1: "pool_alloc sizeof_file p = (k1, p1)" by (metis surj_pair)
    obtain k2 p2 where a2: "alloc_items (n_imports cnt) sizeof_import p1 = (k2, p2)" by (metis surj_pair)
    obtain k3 p3 where a3: "alloc_items (n_enums cnt) sizeof_enum p2 = (k3, p3)" by (metis surj_pair)
    obtain k4 p4 where a4: "alloc_items (n_messages cnt) sizeof_message p3 = (k4, p4)" by (metis surj_pair)
    obtain g b3 p5 where g: "fill_file (n_imports cnt) b ?fs p4 = (g, b3, p5)" by (metis surj_pair)
    have "same_window b b3 \<and> g \<noteq> Inl Overrun \<and>
        (\<forall>fs'. g = Inr fs' \<longrightarrow> fs' = add_file b (entries gremlinp_file_next_entry b) ms es ?fs)"
      using fill_file_correct [OF g, of ms es] cnt f by (simp add: empty_file_def)
    moreover have "fs_file (add_file b (entries gremlinp_file_next_entry b) ms es ?fs) = declared_file b"
      by (simp add: declared_file_def f add_file_def empty_file_def Let_def)
    moreover have "same_window b b" by (simp add: same_window_def)
    ultimately show ?thesis
      using assms c Inr a1 a2 a3 a4 g same_window_rewind [OF w] resolve_packing_same [of b b3]
      by (cases k1; cases k2; cases k3; cases k4; cases g) (auto simp: gremlind_build_file_def Let_def)
  qed
qed

text \<open>Parents come before what they contain.\<close>

lemma flat_body_parents:
  "flat_body k i b = (ms, es) \<Longrightarrow> k < i \<Longrightarrow>
   (\<forall>j < length ms. \<exists>q. nm_parent (ms ! j) = Some q \<and> q < i + j) \<and>
   (\<forall>e \<in> set es. \<exists>q. ne_parent e = Some q \<and> q < i + length ms)"
proof (induction b arbitrary: k i ms es rule: bodies_induct)
  case (stop b e b1)
  then show ?case using flat_body_end [OF stop.hyps, of k i] by simp
next
  case (step b x b1)
  note nx = step.hyps(1)
  show ?case
  proof (cases "declares (en_entry x)")
    case False
    then show ?thesis using step.IH(1) [of k i ms es] step.prems flat_body_other [OF nx False, of k i] by simp
  next
    case True
    then consider (enum) en where "en_entry x = GREMLINP_MSG_ENTRY_ENUM en"
      | (message) m where "en_entry x = GREMLINP_MSG_ENTRY_MESSAGE m"
      by (cases "en_entry x") (auto simp: declares_def)
    then show ?thesis
    proof cases
      case enum
      obtain es' where "flat_body k i b1 = (ms, es')" "es = declared_enum b1 en (Some k) # es'"
        using step.prems(1) flat_body_enum [OF nx enum, of k i] by (metis prod.collapse prod.inject)
      then show ?thesis
        using step.IH(1) [of k i ms es'] step.prems(2) by (auto simp: declared_enum_def enum_node_def)
    next
      case message
      let ?w = "body_scope_enter b1 (mg_body_start m) (mg_body_end m)"
      obtain ms1 es1 where f1: "flat_body i (i + 1) ?w = (ms1, es1)" by (metis surj_pair)
      obtain ms2 es2 where f2: "flat_body k (i + 1 + length ms1) b1 = (ms2, es2)" by (metis surj_pair)
      have e: "ms = declared_message b1 m (Some k) # ms1 @ ms2" "es = es1 @ es2"
        using flat_body_message [OF nx message f1 f2] step.prems(1) by simp_all
      have I1: "\<forall>j < length ms1. \<exists>q. nm_parent (ms1 ! j) = Some q \<and> q < i + 1 + j"
        "\<forall>e \<in> set es1. \<exists>q. ne_parent e = Some q \<and> q < i + 1 + length ms1"
        using step.IH(2) [OF message f1] by auto
      have I2: "\<forall>j < length ms2. \<exists>q. nm_parent (ms2 ! j) = Some q \<and> q < i + 1 + length ms1 + j"
        "\<forall>e \<in> set es2. \<exists>q. ne_parent e = Some q \<and> q < i + 1 + length ms1 + length ms2"
        using step.IH(1) [OF f2] step.prems(2) by auto
      have "\<exists>q. nm_parent (ms ! j) = Some q \<and> q < i + j" if "j < length ms" for j
      proof (cases j)
        case 0
        then show ?thesis using e step.prems(2) by (simp add: declared_message_def message_node_def)
      next
        case (Suc j')
        show ?thesis
        proof (cases "j' < length ms1")
          case True
          then show ?thesis using I1(1) e(1) Suc by (auto simp: nth_append)
        next
          case False
          then have "j' - length ms1 < length ms2" using that e(1) Suc by simp
          then obtain q where "nm_parent (ms2 ! (j' - length ms1)) = Some q" "q < i + 1 + length ms1 + (j' - length ms1)"
            using I2(1) by blast
          then show ?thesis using False e(1) Suc by (simp add: nth_append)
        qed
      qed
      moreover have "\<forall>e \<in> set es. \<exists>q. ne_parent e = Some q \<and> q < i + length ms"
        using I1(2) I2(2) unfolding e by fastforce
      ultimately show ?thesis by blast
    qed
  qed
qed

lemma flat_file_parents:
  "flat_file i b = (ms, es) \<Longrightarrow>
   (\<forall>j < length ms. \<forall>q. nm_parent (ms ! j) = Some q \<longrightarrow> q < i + j) \<and>
   (\<forall>e \<in> set es. \<forall>q. ne_parent e = Some q \<longrightarrow> q < i + length ms)"
proof (induction b arbitrary: i ms es rule: file_entries.entries_induct)
  case (stop b e b1)
  then show ?case using flat_file_end [OF stop.hyps, of i] by simp
next
  case (step b x b1)
  note nx = step.hyps(1)
  consider (enum) en where "en_entry x = GREMLINP_FILE_ENTRY_ENUM en"
    | (message) m where "en_entry x = GREMLINP_FILE_ENTRY_MESSAGE m"
    | (other) "\<not> file_declares (en_entry x)"
    by (cases "en_entry x") (auto simp: file_declares_def)
  then show ?case
  proof cases
    case enum
    obtain es' where "flat_file i b1 = (ms, es')" "es = declared_enum b1 en None # es'"
      using step.prems flat_file_enum [OF nx enum, of i] by (metis prod.collapse prod.inject)
    then show ?thesis using step.IH [of i ms es'] by (auto simp: declared_enum_def enum_node_def)
  next
    case message
    let ?w = "body_scope_enter b1 (mg_body_start m) (mg_body_end m)"
    obtain ms1 es1 where f1: "flat_body i (i + 1) ?w = (ms1, es1)" by (metis surj_pair)
    obtain ms2 es2 where f2: "flat_file (i + 1 + length ms1) b1 = (ms2, es2)" by (metis surj_pair)
    have e: "ms = declared_message b1 m None # ms1 @ ms2" "es = es1 @ es2"
      using flat_file_message [OF nx message f1 f2] step.prems by simp_all
    note I1 = flat_body_parents [OF f1 less_add_one] and I2 = step.IH [OF f2]
    have "q < i + j" if "j < length ms" "nm_parent (ms ! j) = Some q" for j q
    proof (cases j)
      case 0
      then show ?thesis using e that by (simp add: declared_message_def message_node_def)
    next
      case (Suc j')
      show ?thesis
      proof (cases "j' < length ms1")
        case True
        then show ?thesis using I1 e(1) Suc that by (auto simp: nth_append)
      next
        case False
        then have "j' - length ms1 < length ms2" "nm_parent (ms2 ! (j' - length ms1)) = Some q"
          using that e(1) Suc by (simp_all add: nth_append)
        then show ?thesis using I2 False Suc by fastforce
      qed
    qed
    moreover have "\<forall>e \<in> set es. \<forall>q. ne_parent e = Some q \<longrightarrow> q < i + length ms"
      using I1 I2 unfolding e by fastforce
    ultimately show ?thesis by blast
  next
    case other
    then show ?thesis using step.IH [of i ms es] step.prems flat_file_other [OF nx other, of i] by simp
  qed
qed

lemma declared_preordered: "preordered (resolve_packing (declared_file b) c)"
proof -
  obtain ms es where f: "flat_file 0 b = (ms, es)" by (metis surj_pair)
  show ?thesis
    using flat_file_parents [OF f]
    by (auto simp: preordered_def resolve_packing_def declared_file_def f)
qed

text \<open>C5. The builder: the second pass never writes behind the arrays the first one
  sized, whatever the text; when it succeeds the tree is the file the text declares,
  every message with its own fields and those of its oneofs, messages and enums of
  all levels in pre-order with their parents, the arrays filled to their last slot,
  the packing of each field that of the file's syntax and the field's options; the
  buffer is only moved, and the tree is what the naming pass expects.\<close>
theorem build_file_correct:
  assumes "gremlind_build_file p b = (r, b', p')"
  shows "pb_buf b' = pb_buf b \<and> pb_size b' = pb_size b
    \<and> (case r of
         Inl (e, off) \<Rightarrow> e \<noteq> Overrun
       | Inr fl \<Rightarrow> fl = resolve_packing (declared_file b) b \<and> preordered fl
           \<and> (\<forall>cnt b1. count_entries b = (Inr cnt, b1) \<longrightarrow>
                length (nl_messages fl) = n_messages cnt \<and> length (nl_enums fl) = n_enums cnt
                \<and> length (nl_imports fl) = n_imports cnt))"
proof -
  note R = build_file_result [OF assms]
  obtain ms es where f: "flat_file 0 b = (ms, es)" by (metis surj_pair)
  have n: "length (nl_messages fl) = n_messages cnt \<and> length (nl_enums fl) = n_enums cnt
      \<and> length (nl_imports fl) = n_imports cnt"
    if "fl = resolve_packing (declared_file b) b" and c: "count_entries b = (Inr cnt, b1)" for fl cnt b1
    using that(1) count_entries_loop_correct [OF c [unfolded count_entries_def], of 0] f
    by (auto simp: resolve_packing_def declared_file_def hint_def file_imports_def empty_file_def)
  show ?thesis
    using R n declared_preordered [of b b] by (cases r) (auto simp: same_window_def)
qed

text \<open>\<open>message A{int32 x=1;}\<close>, built in the example pool.\<close>

definition small_proto :: "nat \<Rightarrow> nat \<Rightarrow> parser_buffer" where
  "small_proto s e = \<lparr>pb_buf = ''message A{int32 x=1;}'', pb_size = e, pb_offset = s\<rparr>"

lemma small_proto_steps:
  "count_entries (small_proto 0 21) = (Inr \<lparr>n_imports = 0, n_enums = 0, n_messages = 1\<rparr>, small_proto 21 21)"
  "gremlinp_file_next_entry (small_proto 0 21) =
     (Inr \<lparr>en_entry = GREMLINP_FILE_ENTRY_MESSAGE
        \<lparr>mg_name = \<lparr>span_start = 8, span_length = 1\<rparr>, mg_body_start = 10, mg_body_end = 20, mg_start = 0, mg_end = 21\<rparr>,
        en_start = 0, en_end = 21\<rparr>, small_proto 21 21)"
  "gremlinp_file_next_entry (small_proto 21 21) = (Inl GREMLINP_ERROR_UNEXPECTED_TOKEN, small_proto 21 21)"
  "count_fields_loop (small_proto 10 20) 0 = (Inr 1, small_proto 20 20)"
  "gremlinp_message_next_entry (small_proto 10 20) =
     (Inr \<lparr>en_entry = GREMLINP_MSG_ENTRY_FIELD
        \<lparr>fd_label = GREMLINP_FIELD_LABEL_NONE,
         fd_type = \<lparr>ft_type = GREMLINP_FIELD_TYPE_NAMED \<lparr>span_start = 10, span_length = 5\<rparr>, ft_start = 10, ft_end = 15\<rparr>,
         fd_name = \<lparr>span_start = 16, span_length = 1\<rparr>, fd_index = 1,
         fd_options = \<lparr>ol_start = 0, ol_end = 0, ol_count = 0\<rparr>, fd_start = 10, fd_end = 20\<rparr>,
        en_start = 10, en_end = 20\<rparr>, small_proto 20 20)"
  "gremlinp_message_next_entry (small_proto 20 20) = (Inl GREMLINP_ERROR_INVALID_CHARACTER, small_proto 20 20)"
  "at_eof (small_proto 21 21) = (True, small_proto 21 21)"
  "at_eof (small_proto 20 20) = (True, small_proto 20 20)"
  "map (span_text (small_proto s e)) [\<lparr>span_start = 8, span_length = 1\<rparr>, \<lparr>span_start = 10, span_length = 5\<rparr>,
     \<lparr>span_start = 16, span_length = 1\<rparr>] = [''A'', ''int32'', ''x'']"
  by code_simp+

lemma small_proto_moves:
  "pb_offset (small_proto s e) = s"
  "rewind 0 (small_proto s e) = small_proto 0 e"
  "body_scope_enter (small_proto s e) a c = small_proto a c"
  "body_scope_leave (small_proto s e) (small_proto a c) = small_proto s e"
  by (simp_all add: small_proto_def body_scope_enter_def body_scope_leave_def rewind_def)

lemma small_proto_built:
  "\<exists>fl. gremlind_build_file (sample_pool 0) (small_proto 0 21) = (Inr fl, small_proto 21 21, sample_pool 616)
     \<and> map nm_name (nl_messages fl) = [''A'']
     \<and> map nf_written (nm_fields (nl_messages fl ! 0)) = [Written_Named ''int32'']"
proof -
  have a: "pool_alloc 216 (sample_pool 0) = (True, sample_pool 216)"
    "pool_alloc 128 (sample_pool 216) = (True, sample_pool 344)"
    "pool_alloc 272 (sample_pool 344) = (True, sample_pool 616)"
    by (simp_all add: sample_pool_alloc align_up_def)
  let ?f = "\<lparr>fd_label = GREMLINP_FIELD_LABEL_NONE,
      fd_type = \<lparr>ft_type = GREMLINP_FIELD_TYPE_NAMED \<lparr>span_start = 10, span_length = 5\<rparr>, ft_start = 10, ft_end = 15\<rparr>,
      fd_name = \<lparr>span_start = 16, span_length = 1\<rparr>, fd_index = 1,
      fd_options = \<lparr>ol_start = 0, ol_end = 0, ol_count = 0\<rparr>, fd_start = 10, fd_end = 20\<rparr>"
  have f: "nf_written (field_node (small_proto 20 20) ?f) = Written_Named ''int32''"
    using small_proto_steps(9) [of 20 20] by (simp add: field_node_def written_of_def)
  show ?thesis
    using small_proto_steps(9) [of 21 21] f
    by (simp add: gremlind_build_file_def alloc_items_def small_proto_steps(1-8) small_proto_moves a
        fill_file.simps fill_message_def open_message_def fill_body_loop.simps put_field_def hoist_eq hint_def
        message_node_def empty_file_def ended_def resolve_packing_def pack_field_def Let_def)
qed

lemma build_file_correct_witness:
  "\<exists>fl. gremlind_build_file (sample_pool 0) (small_proto 0 21) = (Inr fl, small_proto 21 21, sample_pool 616)
     \<and> fl = resolve_packing (declared_file (small_proto 0 21)) (small_proto 0 21)
     \<and> length (nl_messages fl) = 1 \<and> preordered fl"
proof -
  obtain fl where "gremlind_build_file (sample_pool 0) (small_proto 0 21) = (Inr fl, small_proto 21 21, sample_pool 616)"
    using small_proto_built by blast
  then show ?thesis using build_file_correct [of "sample_pool 0" "small_proto 0 21"] small_proto_steps(1) by auto
qed

end
