(* ===== verification/Extend_Correct.thy ===== *)
theory Extend_Correct
  imports Extend Build_File
begin

text \<open>
  What the extension pass does: it finds the \<open>extend\<close> declarations of every file in
  the order of the text, gives each the target that protobuf scoping assigns to its
  name, and appends its fields there; the names of the messages, on which the
  targets depend, do not change on the way, and neither do the buffers.
\<close>

section \<open>The target of a name\<close>

definition message_named :: "gremlind_resolve_context \<Rightarrow> nat list \<Rightarrow> string list \<Rightarrow> nat \<times> nat \<Rightarrow> bool" where
  "message_named ctx visible segs t \<longleftrightarrow> (case t of (j, m) \<Rightarrow> j \<in> set visible \<and>
     m < length (nl_messages (the (file_at ctx j))) \<and>
     segments (nm_scoped_name (nl_messages (the (file_at ctx j)) ! m)) = segs)"

lemma lookup_message_Some: "lookup_message ctx target visible = Some t \<Longrightarrow> message_named ctx visible (segments target) t"
proof (induction visible)
  case (Cons i visible)
  then show ?case
    using find_name_cases [of "map nm_scoped_name (nl_messages (the (file_at ctx i)))" target]
    by (auto simp: message_named_def split: option.splits)
qed simp

lemma lookup_message_None: "lookup_message ctx target visible = None \<Longrightarrow> \<not> message_named ctx visible (segments target) t"
proof (induction visible)
  case (Cons i visible)
  then show ?case
    using find_name_cases [of "map nm_scoped_name (nl_messages (the (file_at ctx i)))" target]
    by (auto simp: message_named_def split: option.splits)
qed (simp add: message_named_def split: prod.split)

interpretation message_search: scope_search "\<lambda>c. lookup_message ctx c visible" "message_named ctx visible"
    GREMLINP_ERROR_EXTEND_SOURCE_NOT_FOUND "\<lambda>ref scope. extend_scope_walk ctx ref scope visible"
  for ctx visible
  by unfold_locales (auto dest: lookup_message_Some lookup_message_None)

lemma resolve_extend_target_cases:
  "case fst (resolve_extend_target ctx s name scope visible) of
     Inr t \<Rightarrow> scoped (message_named ctx visible) (segments scope) name t
   | Inl e \<Rightarrow> e = GREMLINP_ERROR_OUT_OF_MEMORY \<or>
       e = GREMLINP_ERROR_INVALID_OPTION_NAME \<and> [] \<in> set (name_parts name) \<or>
       e = GREMLINP_ERROR_EXTEND_SOURCE_NOT_FOUND \<and>
         (name = [] \<or> (\<forall>t. \<not> scoped (message_named ctx visible) (segments scope) name t))"
proof (cases "name = []")
  case True
  then show ?thesis by (simp add: resolve_extend_target_def)
next
  case False
  then show ?thesis using message_search.search_cases [where name = name and s = s and ctx = ctx and visible = visible and scope = "segments scope"]
    by (auto simp: resolve_extend_target_def split: sum.splits)
qed

section \<open>The fields of an extension\<close>

function extension_nodes :: "parser_buffer \<Rightarrow> gremlind_field list" where
  "extension_nodes b =
     (if pb_offset b \<ge> pb_size b then []
      else case skip_spaces b of (Inl _, _) \<Rightarrow> [] | (Inr _, b1) \<Rightarrow>
        if pb_offset b1 \<ge> pb_size b1 then []
        else if gremlinp_parser_buffer_char b1 = CHR '';'' then extension_nodes (shift 1 b1)
        else attempt (gremlinp_field_parse b1)
          (\<lambda>f b2. extension_node b2 f # extension_nodes b2) (\<lambda>_ _. []))"
  by pat_completeness auto
termination
  by (relation "measure remaining")
     (auto dest!: field.ok_decreases skip_spaces_shrinks [OF sym] intro: shift_decreases)

declare extension_nodes.simps [simp del]

lemma skip_spaces_same: "skip_spaces b = (r, b1) \<Longrightarrow> same_window b b1"
  using skip_spaces_advances [of b] by (auto simp: same_window_def advances_def consumes_def)

lemma field_parse_same: "gremlinp_field_parse b = (r, b1) \<Longrightarrow> same_window b b1"
  using yields_advances [OF field.step [of b]] by (auto simp: same_window_def advances_def consumes_def)

lemma same_window_trans: "same_window a b \<Longrightarrow> same_window b c \<Longrightarrow> same_window a c"
  by (simp add: same_window_def)

lemma same_window_shift: "same_window b (shift n b)"
  by (simp add: same_window_def shift_def)

lemma extend_fields_loop_correct:
  "extend_fields_loop slots b fds n = (r, b1) \<Longrightarrow>
   (\<forall>cap. slots = Some cap \<longrightarrow> length fds + length (extension_nodes b) \<le> cap) \<Longrightarrow>
   same_window b b1 \<and> r \<noteq> Inl Overrun \<and>
   (\<forall>fds' n'. r = Inr (fds', n') \<longrightarrow> n' = n + length (extension_nodes b) \<and>
      fds' = (if slots = None then fds else fds @ extension_nodes b))"
proof (induction b arbitrary: fds n r b1 rule: extension_nodes.induct)
  case (1 b)
  note u = extend_fields_loop.simps [of slots b fds n] and v = extension_nodes.simps [of b]
  obtain sp b2 where sp: "skip_spaces b = (sp, b2)" by (metis surj_pair)
  note w = skip_spaces_same [OF sp]
  consider (all) "pb_offset b \<ge> pb_size b" | (bad) e where "pb_offset b < pb_size b" "sp = Inl e"
    | (spaces) u where "pb_offset b < pb_size b" "sp = Inr u" "pb_offset b2 \<ge> pb_size b2"
    | (item) u where "pb_offset b < pb_size b" "sp = Inr u" "pb_offset b2 < pb_size b2"
    by (cases "pb_offset b < pb_size b"; cases "pb_offset b2 < pb_size b2"; cases sp) (auto simp: not_less)
  then show ?case
  proof cases
    case all
    then show ?thesis using 1 u v by (auto simp: same_window_def)
  next
    case bad
    then show ?thesis using 1 u sp w by auto
  next
    case spaces
    then show ?thesis using 1 u v sp w by auto
  next
    case item
    then have lt: "\<not> pb_size b \<le> pb_offset b" "\<not> pb_size b2 \<le> pb_offset b2" by simp_all
    show ?thesis
    proof (cases "gremlinp_parser_buffer_char b2 = CHR '';''")
      case True
      have "extend_fields_loop slots (shift 1 b2) fds n = (r, b1)" "extension_nodes b = extension_nodes (shift 1 b2)"
        using "1.prems" u v sp item(2) lt True by simp_all
      note this and IH = "1.IH"(1) [OF lt(1) sp [symmetric] item(2) lt(2) True this(1)]
      moreover have "same_window b c" if "same_window (shift 1 b2) c" for c
        using same_window_trans [OF w same_window_trans [OF same_window_shift that]] .
      ultimately show ?thesis using "1.prems"(2) by auto
    next
      case False
      obtain pr b3 where pr: "gremlinp_field_parse b2 = (pr, b3)" by (metis surj_pair)
      note w2 = same_window_trans [OF w field_parse_same [OF pr]]
      show ?thesis
      proof (cases pr)
        case (Inl e)
        then show ?thesis using "1.prems" u sp item(2) lt False pr w2 by auto
      next
        case (Inr f)
        have nodes: "extension_nodes b = extension_node b3 f # extension_nodes b3"
          using v sp item(2) lt False pr Inr by simp
        note IH = "1.IH"(2) [OF lt(1) sp [symmetric] item(2) lt(2) False pr [unfolded Inr]]
        show ?thesis
        proof (cases slots)
          case None
          then have "extend_fields_loop slots b3 fds (n + 1) = (r, b1)"
            using "1.prems"(1) u sp item(2) lt False pr Inr by simp
          from IH [OF this] show ?thesis using None nodes same_window_trans [OF w2] by simp
        next
          case (Some cap)
          then have "extend_fields_loop slots b3 (fds @ [extension_node b3 f]) (n + 1) = (r, b1)"
            using "1.prems" u sp item(2) lt False pr Inr nodes by simp
          from IH [OF this] show ?thesis
            using Some nodes "1.prems"(2) same_window_trans [OF w2] by simp
        qed
      qed
    qed
  qed
qed

lemma walk_extend_body_correct:
  assumes "walk_extend_body b x y slots fds = (r, b1)"
    and "\<forall>cap. slots = Some cap \<longrightarrow> length fds + length (extension_nodes (body_scope_enter b x y)) \<le> cap"
  shows "b1 = b \<and> r \<noteq> Inl Overrun \<and>
   (\<forall>fds' n'. r = Inr (fds', n') \<longrightarrow> n' = length (extension_nodes (body_scope_enter b x y)) \<and>
      fds' = (if slots = None then fds else fds @ extension_nodes (body_scope_enter b x y)))"
proof -
  obtain b2 where l: "extend_fields_loop slots (body_scope_enter b x y) fds 0 = (r, b2)"
      and b1: "b1 = body_scope_leave b b2"
    using assms(1) by (auto simp: walk_extend_body_def split: prod.splits)
  note L = extend_fields_loop_correct [OF l assms(2)]
  then have "b1 = b" using b1 leave_same by (simp add: same_window_def)
  then show ?thesis using L by simp
qed

section \<open>What a declaration adds\<close>

record extension =
  xt_file :: nat
  xt_scope :: gremlind_scoped_name
  xt_base :: string
  xt_fields :: "gremlind_field list"

definition declared_extension :: "nat \<Rightarrow> gremlind_file \<Rightarrow> parser_buffer \<Rightarrow> gremlind_scoped_name \<Rightarrow> gremlinp_extend \<Rightarrow> extension" where
  "declared_extension i f b scope x =
     \<lparr>xt_file = i, xt_scope = scope, xt_base = span_text b (et_base_type x),
      xt_fields = map (tag_extension i f b scope)
        (extension_nodes (body_scope_enter b (et_body_start x) (et_body_end x)))\<rparr>"

text \<open>The target: what the name stands for in the scope and the files of the declaration.\<close>

definition extends_message :: "gremlind_resolve_context \<Rightarrow> extension \<Rightarrow> nat \<times> nat \<Rightarrow> bool" where
  "extends_message ctx x = scoped (message_named ctx (nl_visible (the (file_at ctx (xt_file x)))))
     (segments (xt_scope x)) (xt_base x)"

definition add_fields :: "nat \<times> nat \<Rightarrow> gremlind_field list \<Rightarrow> gremlind_resolve_context \<Rightarrow> gremlind_resolve_context" where
  "add_fields t fds ctx = (if fds = [] then ctx else set_fields t (target_fields ctx t @ fds) ctx)"

text \<open>
  \<open>ctx'\<close> is \<open>ctx\<close> with the fields of the declarations appended, in their order, to their
  targets; these are looked up in the context \<open>C\<close>.
\<close>

inductive extended :: "gremlind_resolve_context \<Rightarrow> extension list \<Rightarrow> gremlind_resolve_context \<Rightarrow>
    gremlind_resolve_context \<Rightarrow> bool" for C where
  extended_none: "extended C [] ctx ctx"
| extended_one: "extends_message C x t \<Longrightarrow> extended C xs (add_fields t (xt_fields x) ctx) ctx' \<Longrightarrow>
    extended C (x # xs) ctx ctx'"

inductive_simps extended_simps: "extended C [] ctx ctx'" "extended C (x # xs) ctx ctx'"

lemma extended_append: "extended C xs ctx ctx1 \<Longrightarrow> extended C ys ctx1 ctx' \<Longrightarrow> extended C (xs @ ys) ctx ctx'"
  by (induction rule: extended.induct) (auto simp: extended_simps)

lemma extended_Cons: "extended C [x] ctx ctx1 \<Longrightarrow> extended C xs ctx1 ctx' \<Longrightarrow> extended C (x # xs) ctx ctx'"
  using extended_append [of C "[x]" ctx ctx1 xs ctx'] by simp

section \<open>What stays the same\<close>

text \<open>A file without the fields of its messages.\<close>

definition strip_file :: "gremlind_file \<Rightarrow> gremlind_file" where
  "strip_file f = f\<lparr>nl_messages := map (\<lambda>m. m\<lparr>nm_fields := []\<rparr>) (nl_messages f)\<rparr>"

lemma strip_fileD:
  assumes "strip_file f' = strip_file f"
  shows "nl_visible f' = nl_visible f \<and> nl_package f' = nl_package f \<and> nl_syntax f' = nl_syntax f \<and>
    nl_edition f' = nl_edition f \<and> nl_enums f' = nl_enums f \<and> nl_imports f' = nl_imports f \<and>
    length (nl_messages f') = length (nl_messages f) \<and>
    map nm_scoped_name (nl_messages f') = map nm_scoped_name (nl_messages f)"
proof -
  have "map nm_scoped_name (nl_messages g) = map nm_scoped_name (nl_messages (strip_file g))"
    "length (nl_messages g) = length (nl_messages (strip_file g))" for g
    by (simp_all add: strip_file_def o_def)
  moreover have "nl_visible g = nl_visible (strip_file g)" "nl_package g = nl_package (strip_file g)"
    "nl_syntax g = nl_syntax (strip_file g)" "nl_edition g = nl_edition (strip_file g)"
    "nl_enums g = nl_enums (strip_file g)" "nl_imports g = nl_imports (strip_file g)" for g
    by (simp_all add: strip_file_def)
  ultimately show ?thesis using assms by metis
qed

definition same_tree :: "gremlind_resolve_context \<Rightarrow> gremlind_resolve_context \<Rightarrow> bool" where
  "same_tree ctx ctx' \<longleftrightarrow> rc_paths ctx' = rc_paths ctx \<and> (rc_files ctx' = None \<longleftrightarrow> rc_files ctx = None) \<and>
     length (the (rc_files ctx')) = length (the (rc_files ctx)) \<and>
     (\<forall>i. map_option strip_file (file_at ctx' i) = map_option strip_file (file_at ctx i))"

lemma same_tree_refl [simp]: "same_tree ctx ctx"
  by (simp add: same_tree_def)

lemma same_tree_trans: "same_tree a b \<Longrightarrow> same_tree b c \<Longrightarrow> same_tree a c"
  by (simp add: same_tree_def)

lemma same_tree_file: "same_tree ctx ctx' \<Longrightarrow> strip_file (the (file_at ctx' i)) = strip_file (the (file_at ctx i))"
proof -
  assume "same_tree ctx ctx'"
  then have "map_option strip_file (file_at ctx' i) = map_option strip_file (file_at ctx i)"
    by (simp add: same_tree_def)
  then show ?thesis by (cases "file_at ctx' i"; cases "file_at ctx i") auto
qed

lemma same_tree_None: "same_tree ctx ctx' \<Longrightarrow> file_at ctx' i = None \<longleftrightarrow> file_at ctx i = None"
  unfolding same_tree_def by (metis option.map_disc_iff)

lemma same_tree_named: "same_tree ctx ctx' \<Longrightarrow> message_named ctx' = message_named ctx"
proof (intro ext)
  fix visible segs and t :: "nat \<times> nat"
  assume same: "same_tree ctx ctx'"
  obtain j m where t: "t = (j, m)" by (cases t)
  let ?ms = "nl_messages (the (file_at ctx j))" and ?ms' = "nl_messages (the (file_at ctx' j))"
  have names: "map nm_scoped_name ?ms' = map nm_scoped_name ?ms"
    using strip_fileD [OF same_tree_file [OF same]] by blast
  note e = map_eq_nth [OF names]
  then have "m < length ?ms' \<and> segments (nm_scoped_name (?ms' ! m)) = segs \<longleftrightarrow>
      m < length ?ms \<and> segments (nm_scoped_name (?ms ! m)) = segs" by auto
  then show "message_named ctx' visible segs t = message_named ctx visible segs t"
    by (simp add: message_named_def t)
qed

lemma same_tree_extends: "same_tree ctx ctx' \<Longrightarrow> extends_message ctx' = extends_message ctx"
  using strip_fileD [OF same_tree_file] by (simp add: extends_message_def fun_eq_iff same_tree_named)

lemma same_tree_tag: "strip_file f' = strip_file f \<Longrightarrow> tag_extension i f' = tag_extension i f"
  using strip_fileD [of f' f] by (simp add: tag_extension_def gremlind_field_packing_def fun_eq_iff)

lemma map_update_same: "h y = h (xs ! m) \<Longrightarrow> map h (xs[m := y]) = map h xs"
  by (metis list_update_id map_update)

lemma strip_set_fields:
  "strip_file (f\<lparr>nl_messages := (nl_messages f)[m := (nl_messages f ! m)\<lparr>nm_fields := fds\<rparr>]\<rparr>) = strip_file f"
  by (simp add: strip_file_def map_update_same)

lemma same_tree_set_fields:
  assumes "file_at ctx (fst t) \<noteq> None" and "rc_files ctx \<noteq> None"
  shows "same_tree ctx (set_fields t fds ctx)"
proof -
  obtain j m f fs where t: "t = (j, m)" "file_at ctx j = Some f" "rc_files ctx = Some fs"
    using assms by (cases t) auto
  have "map_option strip_file (fs[j := Some (f\<lparr>nl_messages := (nl_messages f)[m := (nl_messages f ! m)\<lparr>nm_fields := fds\<rparr>]\<rparr>)] ! i)
      = map_option strip_file (fs ! i)" for i
    using t by (cases "j < length fs"; cases "i = j") (simp_all add: strip_set_fields list_update_beyond not_less)
  then show ?thesis using t by (simp add: same_tree_def set_fields_def set_file_def Let_def)
qed

lemma same_tree_add_fields:
  "file_at ctx (fst t) \<noteq> None \<Longrightarrow> rc_files ctx \<noteq> None \<Longrightarrow> same_tree ctx (add_fields t fds ctx)"
  by (simp add: add_fields_def same_tree_set_fields)

section \<open>Applying a declaration\<close>

text \<open>
  \<open>C\<close> is the context before the pass: every file is built, and the files a file sees
  are among them.
\<close>

definition pass_ready :: "gremlind_resolve_context \<Rightarrow> bool" where
  "pass_ready C \<longleftrightarrow> rc_files C \<noteq> None \<and> length (the (rc_files C)) = n_sources C \<and>
     (\<forall>i < n_sources C. file_at C i \<noteq> None \<and> set (nl_visible (the (file_at C i))) \<subseteq> {..<n_sources C})"

lemma scopedD: "scoped named scope name t \<Longrightarrow> \<exists>segs. named segs t"
  by (auto simp: scoped_def nearest_def split: if_splits)

lemma extends_message_target:
  assumes "pass_ready C" and "extends_message C x t" and "xt_file x < n_sources C"
  shows "file_at C (fst t) \<noteq> None"
proof -
  have "scoped (message_named C (nl_visible (the (file_at C (xt_file x))))) (segments (xt_scope x)) (xt_base x) t"
    using assms(2) by (simp add: extends_message_def)
  from scopedD [OF this] have "fst t \<in> set (nl_visible (the (file_at C (xt_file x))))"
    by (auto simp: message_named_def)
  then have "fst t < n_sources C" using assms(1,3) unfolding pass_ready_def by blast
  then show ?thesis using assms(1) unfolding pass_ready_def by blast
qed

lemma extension_step:
  assumes "pass_ready C" and "same_tree C ctx" and "extends_message C x t" and "xt_file x < n_sources C"
  shows "same_tree C (add_fields t fds ctx)"
proof -
  have "file_at ctx (fst t) \<noteq> None" "rc_files ctx \<noteq> None"
    using extends_message_target [OF assms(1,3,4)] same_tree_None [OF assms(2)] assms(1,2)
    by (auto simp: pass_ready_def same_tree_def)
  then show ?thesis using same_tree_trans [OF assms(2)] same_tree_add_fields by blast
qed

lemma apply_extend_correct:
  assumes "apply_extend i b x scope scope ctx s = (r, b1, ctx1, s1)"
    and "pass_ready C" and "same_tree C ctx" and "i < n_sources C"
  shows "b1 = b \<and> r \<noteq> Inl Overrun \<and> same_tree C ctx1 \<and>
    (r = Inr () \<longrightarrow> extended C [declared_extension i (the (file_at C i)) b scope x] ctx ctx1)"
proof -
  let ?f = "the (file_at C i)" and ?f' = "the (file_at ctx i)"
  let ?w = "body_scope_enter b (et_body_start x) (et_body_end x)"
  let ?d = "declared_extension i ?f b scope x"
  let ?fds = "map (tag_extension i ?f b scope) (extension_nodes ?w)"
  have f: "strip_file ?f' = strip_file ?f" using same_tree_file [OF assms(3)] .
  obtain t0 s2 where t0: "resolve_extend_target ctx s (span_text b (et_base_type x)) scope (nl_visible ?f') = (t0, s2)"
    by (metis surj_pair)
  show ?thesis
  proof (cases t0)
    case (Inl e)
    then show ?thesis using assms(1,3) t0 by (auto simp: apply_extend_def)
  next
    case (Inr t)
    have "scoped (message_named ctx (nl_visible ?f')) (segments scope) (span_text b (et_base_type x)) t"
      using resolve_extend_target_cases [where ctx = ctx and s = s and name = "span_text b (et_base_type x)"
        and scope = scope and visible = "nl_visible ?f'"] t0 Inr by simp
    then have t: "extends_message C ?d t"
      using same_tree_named [OF assms(3)] strip_fileD [OF f] by (simp add: extends_message_def declared_extension_def)
    have fields: "xt_fields ?d = ?fds" by (simp add: declared_extension_def)
    have E: "extended C [?d] ctx (add_fields t ?fds ctx)"
      using t extended.intros fields by metis
    have step: "same_tree C (add_fields t ?fds ctx)"
      using extension_step [OF assms(2,3) t] assms(4) by (simp add: declared_extension_def)
    obtain c b2 where c: "walk_extend_body b (et_body_start x) (et_body_end x) None [] = (c, b2)" by (metis surj_pair)
    note C = walk_extend_body_correct [OF c, simplified]
    note run = assms(1) [unfolded apply_extend_def Let_def t0 Inr c prod.case sum.case]
    show ?thesis
    proof (cases c)
      case (Inl e)
      then show ?thesis using run assms(3) C by auto
    next
      case (Inr cn)
      then have n: "c = Inr ([], length (extension_nodes ?w))" "b2 = b" using C by (cases cn; simp)+
      note run = run [unfolded n sum.case prod.case]
      show ?thesis
      proof (cases "extension_nodes ?w = []")
        case True
        then have "extended C [?d] ctx ctx" using E by (simp add: add_fields_def)
        then show ?thesis using run assms(3) True by auto
      next
        case False
        let ?old = "target_fields ctx t"
        let ?n = "length ?old + length (extension_nodes ?w)"
        obtain ok s3 where a: "pool_alloc (?n * sizeof_field) s2 = (ok, s3)"
          by (metis surj_pair)
        obtain g b3 where g: "walk_extend_body b (et_body_start x) (et_body_end x) (Some ?n) ?old = (g, b3)"
          by (metis surj_pair)
        note G = walk_extend_body_correct [OF g, simplified]
        have "length (extension_nodes ?w) \<noteq> 0" using False by simp
        note run = run [unfolded if_not_P [OF this] a g prod.case]
        consider (memory) "\<not> ok" | (bad) e where "ok" "g = Inl e" | (good) n' where "ok" "g = Inr (?old @ extension_nodes ?w, n')"
          using G by (cases ok; cases g) auto
        then show ?thesis
        proof cases
          case memory
          then show ?thesis using run assms(3) by auto
        next
          case bad
          then show ?thesis using run assms(3) G by auto
        next
          case good
          have "r = Inr ()" "b1 = b" "ctx1 = set_fields t (?old @ map (tag_extension i ?f' b scope) (extension_nodes ?w)) ctx"
            using run [unfolded good(2) sum.case prod.case] good(1) conjunct1 [OF G] by auto
          then have e: "r = Inr ()" "b1 = b" "ctx1 = add_fields t ?fds ctx"
            using False by (simp_all add: add_fields_def same_tree_tag [OF f])
          then show ?thesis using E step by simp
        qed
      qed
    qed
  qed
qed

section \<open>The declarations of a file\<close>

text \<open>
  The extensions declared in a body, in the order of the text; \<open>scope\<close> is the name
  of the message whose body it is, and \<open>idx\<close> the position of the next message.
\<close>

function body_extends :: "nat \<Rightarrow> gremlind_file \<Rightarrow> gremlind_scoped_name \<Rightarrow> nat \<Rightarrow> parser_buffer \<Rightarrow> extension list" where
  "body_extends i f scope idx b =
     attempt (gremlinp_message_next_entry b)
       (\<lambda>e b1. case en_entry e of
          GREMLINP_MSG_ENTRY_EXTEND x \<Rightarrow> declared_extension i f b1 scope x # body_extends i f scope idx b1
        | GREMLINP_MSG_ENTRY_MESSAGE m \<Rightarrow>
            body_extends i f (nm_scoped_name (nl_messages f ! idx)) (idx + 1)
              (body_scope_enter b1 (mg_body_start m) (mg_body_end m)) @
            body_extends i f scope
              (idx + 1 + length (fst (flat_body idx (idx + 1) (body_scope_enter b1 (mg_body_start m) (mg_body_end m))))) b1
        | _ \<Rightarrow> body_extends i f scope idx b1)
       (\<lambda>_ _. [])"
  by pat_completeness auto
termination
  by (relation "measure (\<lambda>(_, _, _, _, b). remaining b)")
     (auto dest: message_entry_window message_entry.ok_decreases)

function file_extends :: "nat \<Rightarrow> gremlind_file \<Rightarrow> gremlind_scoped_name \<Rightarrow> nat \<Rightarrow> parser_buffer \<Rightarrow> extension list" where
  "file_extends i f scope idx b =
     attempt (gremlinp_file_next_entry b)
       (\<lambda>e b1. case en_entry e of
          GREMLINP_FILE_ENTRY_EXTEND x \<Rightarrow> declared_extension i f b1 scope x # file_extends i f scope idx b1
        | GREMLINP_FILE_ENTRY_MESSAGE m \<Rightarrow>
            body_extends i f (nm_scoped_name (nl_messages f ! idx)) (idx + 1)
              (body_scope_enter b1 (mg_body_start m) (mg_body_end m)) @
            file_extends i f scope
              (idx + 1 + length (fst (flat_body idx (idx + 1) (body_scope_enter b1 (mg_body_start m) (mg_body_end m))))) b1
        | _ \<Rightarrow> file_extends i f scope idx b1)
       (\<lambda>_ _. [])"
  by pat_completeness auto
termination
  by (relation "measure (\<lambda>(_, _, _, _, b). remaining b)") (auto dest: file_entry.ok_decreases)

declare body_extends.simps [simp del] file_extends.simps [simp del]

definition package_scope :: "gremlind_file \<Rightarrow> gremlind_scoped_name" where
  "package_scope f = (case nl_package f of
     None \<Rightarrow> \<lparr>segments = [], absolute = True\<rparr>
   | Some name \<Rightarrow> \<lparr>segments = name_parts name, absolute = leading_dot name\<rparr>)"

definition declared_extends :: "nat \<Rightarrow> gremlind_file \<Rightarrow> parser_buffer \<Rightarrow> extension list" where
  "declared_extends i f b = file_extends i f (package_scope f) 0 (rewind 0 b)"

text \<open>How many messages are declared in a window, at all levels.\<close>

definition body_size :: "parser_buffer \<Rightarrow> nat" where
  "body_size b = length (fst (flat_body 0 0 b))"

lemma flat_body_size: "length (fst (flat_body k i b)) = body_size b"
  using flat_body_lengths [of k i b 0 0] by (simp add: body_size_def)

lemma body_size_end: "gremlinp_message_next_entry b = (Inl e, b1) \<Longrightarrow> body_size b = 0"
  by (simp add: body_size_def flat_body_end)

lemma body_size_message:
  assumes "gremlinp_message_next_entry b = (Inr x, b1)" and "en_entry x = GREMLINP_MSG_ENTRY_MESSAGE m"
  shows "body_size b = 1 + body_size (body_scope_enter b1 (mg_body_start m) (mg_body_end m)) + body_size b1"
proof -
  obtain ms es ms' es' where f: "flat_body 0 (0 + 1) (body_scope_enter b1 (mg_body_start m) (mg_body_end m)) = (ms, es)"
      "flat_body 0 (0 + 1 + length ms) b1 = (ms', es')" by (metis surj_pair)
  have "body_size b = 1 + length ms + length ms'"
    using flat_body_message [OF assms f] by (simp add: body_size_def)
  moreover have "length ms = body_size (body_scope_enter b1 (mg_body_start m) (mg_body_end m))" "length ms' = body_size b1"
    using f flat_body_size by (metis fst_conv)+
  ultimately show ?thesis by simp
qed

lemma body_size_other:
  "gremlinp_message_next_entry b = (Inr x, b1) \<Longrightarrow> (\<And>m. en_entry x \<noteq> GREMLINP_MSG_ENTRY_MESSAGE m) \<Longrightarrow> body_size b = body_size b1"
  using flat_body_other [of b x b1 0 0] flat_body_enum [of b x b1 _ 0 0]
  by (cases "en_entry x") (auto simp: body_size_def declares_def)

section \<open>The walk\<close>

lemma message_scope_eq:
  assumes "same_tree C ctx" and "idx < length (nl_messages (the (file_at C i)))"
  shows "message_scope ctx i idx = Some (nm_scoped_name (nl_messages (the (file_at C i)) ! idx))"
proof -
  have "map nm_scoped_name (nl_messages (the (file_at ctx i))) = map nm_scoped_name (nl_messages (the (file_at C i)))"
    using strip_fileD [OF same_tree_file [OF assms(1)]] by blast
  from map_eq_nth [OF this] show ?thesis using assms(2) by (simp add: message_scope_def Let_def)
qed

lemma extend_body_walk_correct:
  "extend_body_walk i scope b idx ctx s = (r, b1, ctx1, s1) \<Longrightarrow>
   pass_ready C \<Longrightarrow> same_tree C ctx \<Longrightarrow> i < n_sources C \<Longrightarrow>
   idx + body_size b \<le> length (nl_messages (the (file_at C i))) \<Longrightarrow>
   same_window b b1 \<and> r \<noteq> Inl Overrun \<and> same_tree C ctx1 \<and>
   (\<forall>idx'. r = Inr idx' \<longrightarrow> idx' = idx + body_size b \<and>
      extended C (body_extends i (the (file_at C i)) scope idx b) ctx ctx1)"
proof (induction b arbitrary: scope idx ctx s r b1 ctx1 s1 rule: bodies_induct)
  case (stop b e b2)
  obtain r0 b3 where "ended e b2 idx = (r0, b3)" by (metis surj_pair)
  then show ?case
    using stop ended_text [of e b2 idx r0 b3] message_entries.same_text [OF stop(1)] body_size_end [OF stop(1)]
    by (auto simp: extend_body_walk.simps [of i scope b] body_extends.simps [of i _ scope idx b] same_window_def extended_simps)
next
  case (step b x b2)
  note nx = step.hyps(1) and ready = step.prems(2) and tree = step.prems(3) and i = step.prems(4)
  note u = extend_body_walk.simps [of i scope b idx ctx s] and v = body_extends.simps [of i "the (file_at C i)" scope idx b]
  note w = entry_same_window(1) [OF nx]
  let ?f = "the (file_at C i)"
  show ?case
  proof (cases "(\<exists>m. en_entry x = GREMLINP_MSG_ENTRY_MESSAGE m) \<or> (\<exists>d. en_entry x = GREMLINP_MSG_ENTRY_EXTEND d)")
    case False
    then have "extend_body_walk i scope b2 idx ctx s = (r, b1, ctx1, s1)"
        "body_extends i ?f scope idx b = body_extends i ?f scope idx b2"
      using step.prems(1) nx by (cases "en_entry x"; simp add: u v)+
    moreover have "body_size b = body_size b2" using body_size_other [OF nx] False by blast
    ultimately show ?thesis
      using step.IH(1) [of scope idx ctx s r b1 ctx1 s1] ready tree i step.prems(5) same_window_trans [OF w] by simp
  next
    case True
    then consider (message) m where "en_entry x = GREMLINP_MSG_ENTRY_MESSAGE m"
      | (extend) d where "en_entry x = GREMLINP_MSG_ENTRY_EXTEND d" by blast
    then show ?thesis
    proof cases
      case extend
      have size: "body_size b = body_size b2" using body_size_other [OF nx] extend by simp
      have decls: "body_extends i ?f scope idx b = declared_extension i ?f b2 scope d # body_extends i ?f scope idx b2"
        using nx extend by (simp add: v)
      obtain r2 b3 ctx2 s2 where a: "apply_extend i b2 d scope scope ctx s = (r2, b3, ctx2, s2)" by (metis surj_pair)
      note A = apply_extend_correct [OF a ready tree i]
      show ?thesis
      proof (cases r2)
        case (Inl e)
        then show ?thesis using step.prems(1) nx extend a A w by (auto simp: u)
      next
        case (Inr y)
        then have "extend_body_walk i scope b2 idx ctx2 s2 = (r, b1, ctx1, s1)"
          using step.prems(1) nx extend a A by (simp add: u)
        from step.IH(1) [OF this ready _ i] A Inr size step.prems(5)
        show ?thesis unfolding decls using same_window_trans [OF w] by (auto intro: extended_Cons)
      qed
    next
      case message
      let ?w = "body_scope_enter b2 (mg_body_start m) (mg_body_end m)"
      let ?inner = "nm_scoped_name (nl_messages ?f ! idx)"
      note size = body_size_message [OF nx message]
      have decls: "body_extends i ?f scope idx b =
          body_extends i ?f ?inner (idx + 1) ?w @ body_extends i ?f scope (idx + 1 + body_size ?w) b2"
        using nx message by (simp add: v flat_body_size)
      have sc: "message_scope ctx i idx = Some ?inner"
        using message_scope_eq [OF tree] step.prems(5) size by simp
      obtain r2 b3 ctx2 s2 where a: "extend_body_walk i ?inner ?w (idx + 1) ctx s = (r2, b3, ctx2, s2)" by (metis surj_pair)
      have fits: "idx + 1 + body_size ?w \<le> length (nl_messages ?f)"
        "idx + 1 + body_size ?w + body_size b2 \<le> length (nl_messages ?f)" using step.prems(5) size by simp_all
      note A = step.IH(2) [OF message a ready tree i fits(1)]
      have l: "body_scope_leave b2 b3 = b2" using A leave_same by (simp add: same_window_def)
      show ?thesis
      proof (cases r2)
        case (Inl e)
        then show ?thesis using step.prems(1) nx message sc a l A w by (auto simp: u)
      next
        case (Inr idx2)
        then have "extend_body_walk i scope b2 (idx + 1 + body_size ?w) ctx2 s2 = (r, b1, ctx1, s1)"
          using step.prems(1) nx message sc a l A by (simp add: u)
        from step.IH(1) [OF this ready _ i fits(2)] A Inr size
        show ?thesis unfolding decls using same_window_trans [OF w] by (auto intro!: extended_append)
      qed
    qed
  qed
qed

end
