(* ===== verification/Extend_File.thy ===== *)
theory Extend_File
  imports Extend_Correct
begin

text \<open>
  The extension pass on a whole file and on all files, against the extensions the
  files declare.
\<close>

section \<open>The walk over a file\<close>

definition file_size :: "parser_buffer \<Rightarrow> nat" where
  "file_size b = length (fst (flat_file 0 b))"

lemma flat_file_size: "length (fst (flat_file i b)) = file_size b"
proof -
  have "length (fst (flat_file i b)) = length (fst (flat_file j b))" for j
  proof (induction b arbitrary: i j rule: file_entries.entries_induct)
    case (stop b e b1)
    then show ?case by (simp add: flat_file_end)
  next
    case (step b x b1)
    show ?case
    proof (cases "\<exists>m. en_entry x = GREMLINP_FILE_ENTRY_MESSAGE m")
      case True
      then obtain m where m: "en_entry x = GREMLINP_FILE_ENTRY_MESSAGE m" by blast
      let ?w = "body_scope_enter b1 (mg_body_start m) (mg_body_end m)"
      have "length (fst (flat_file k b)) = 1 + body_size ?w + length (fst (flat_file (k + 1 + body_size ?w) b1))" for k
      proof -
        obtain ms es where f: "flat_body k (k + 1) ?w = (ms, es)" by (metis surj_pair)
        obtain ms' es' where g: "flat_file (k + 1 + length ms) b1 = (ms', es')" by (metis surj_pair)
        have "length ms = body_size ?w" using flat_body_size [of k "k + 1" ?w] f by simp
        then show ?thesis using flat_file_message [OF step.hyps(1) m f g] g by simp
      qed
      then show ?thesis using step.IH [of "i + 1 + body_size ?w" "j + 1 + body_size ?w"] by simp
    next
      case False
      then have "length (fst (flat_file k b)) = length (fst (flat_file k b1))" for k
        using flat_file_enum [OF step.hyps(1)] flat_file_other [OF step.hyps(1)]
        by (cases "en_entry x") (auto simp: file_declares_def)
      then show ?thesis using step.IH [of i j] by simp
    qed
  qed
  then show ?thesis by (simp add: file_size_def)
qed

lemma file_size_end: "gremlinp_file_next_entry b = (Inl e, b1) \<Longrightarrow> file_size b = 0"
  by (simp add: file_size_def flat_file_end)

lemma file_size_message:
  assumes "gremlinp_file_next_entry b = (Inr x, b1)" and "en_entry x = GREMLINP_FILE_ENTRY_MESSAGE m"
  shows "file_size b = 1 + body_size (body_scope_enter b1 (mg_body_start m) (mg_body_end m)) + file_size b1"
proof -
  obtain ms es ms' es' where f: "flat_body 0 (0 + 1) (body_scope_enter b1 (mg_body_start m) (mg_body_end m)) = (ms, es)"
      "flat_file (0 + 1 + length ms) b1 = (ms', es')" by (metis surj_pair)
  have "file_size b = 1 + length ms + length ms'"
    using flat_file_message [OF assms f] by (simp add: file_size_def)
  moreover have "length ms = body_size (body_scope_enter b1 (mg_body_start m) (mg_body_end m))" "length ms' = file_size b1"
    using f flat_body_size flat_file_size by (metis fst_conv)+
  ultimately show ?thesis by simp
qed

lemma file_size_other:
  "gremlinp_file_next_entry b = (Inr x, b1) \<Longrightarrow> (\<And>m. en_entry x \<noteq> GREMLINP_FILE_ENTRY_MESSAGE m) \<Longrightarrow> file_size b = file_size b1"
  using flat_file_other [of b x b1 0] flat_file_enum [of b x b1 _ 0]
  by (cases "en_entry x") (auto simp: file_size_def file_declares_def)

lemma walk_message_body_correct:
  assumes "walk_message_body i b x y scope idx ctx s = (r, b1, ctx1, s1)"
    and "pass_ready C" and "same_tree C ctx" and "i < n_sources C"
    and "idx + body_size (body_scope_enter b x y) \<le> length (nl_messages (the (file_at C i)))"
  shows "b1 = b \<and> r \<noteq> Inl Overrun \<and> same_tree C ctx1 \<and>
   (\<forall>idx'. r = Inr idx' \<longrightarrow> idx' = idx + body_size (body_scope_enter b x y) \<and>
      extended C (body_extends i (the (file_at C i)) scope idx (body_scope_enter b x y)) ctx ctx1)"
proof -
  obtain b2 where l: "extend_body_walk i scope (body_scope_enter b x y) idx ctx s = (r, b2, ctx1, s1)"
      and b1: "b1 = body_scope_leave b b2"
    using assms(1) by (auto simp: walk_message_body_def split: prod.splits)
  note L = extend_body_walk_correct [OF l assms(2-5)]
  then have "b1 = b" using b1 leave_same by (simp add: same_window_def)
  then show ?thesis using L by simp
qed

lemma extend_file_walk_correct:
  "extend_file_walk i scope b idx ctx s = (r, b1, ctx1, s1) \<Longrightarrow>
   pass_ready C \<Longrightarrow> same_tree C ctx \<Longrightarrow> i < n_sources C \<Longrightarrow>
   idx + file_size b \<le> length (nl_messages (the (file_at C i))) \<Longrightarrow>
   same_window b b1 \<and> r \<noteq> Inl Overrun \<and> same_tree C ctx1 \<and>
   (\<forall>idx'. r = Inr idx' \<longrightarrow> extended C (file_extends i (the (file_at C i)) scope idx b) ctx ctx1)"
proof (induction b arbitrary: idx ctx s r b1 ctx1 s1 rule: file_entries.entries_induct)
  case (stop b e b2)
  obtain r0 b3 where "ended e b2 idx = (r0, b3)" by (metis surj_pair)
  then show ?case
    using stop ended_text [of e b2 idx r0 b3] file_entries.same_text [OF stop(1)]
    by (auto simp: extend_file_walk.simps [of i scope b] file_extends.simps [of i _ scope idx b] same_window_def extended_simps)
next
  case (step b x b2)
  note nx = step.hyps(1) and ready = step.prems(2) and tree = step.prems(3) and i = step.prems(4)
  note u = extend_file_walk.simps [of i scope b idx ctx s] and v = file_extends.simps [of i "the (file_at C i)" scope idx b]
  note w = entry_same_window(3) [OF nx]
  let ?f = "the (file_at C i)"
  show ?case
  proof (cases "(\<exists>m. en_entry x = GREMLINP_FILE_ENTRY_MESSAGE m) \<or> (\<exists>d. en_entry x = GREMLINP_FILE_ENTRY_EXTEND d)")
    case False
    then have "extend_file_walk i scope b2 idx ctx s = (r, b1, ctx1, s1)"
        "file_extends i ?f scope idx b = file_extends i ?f scope idx b2"
      using step.prems(1) nx by (cases "en_entry x"; simp add: u v)+
    moreover have "file_size b = file_size b2" using file_size_other [OF nx] False by blast
    ultimately show ?thesis
      using step.IH [of idx ctx s r b1 ctx1 s1] ready tree i step.prems(5) same_window_trans [OF w] by simp
  next
    case True
    then consider (message) m where "en_entry x = GREMLINP_FILE_ENTRY_MESSAGE m"
      | (extend) d where "en_entry x = GREMLINP_FILE_ENTRY_EXTEND d" by blast
    then show ?thesis
    proof cases
      case extend
      have size: "file_size b = file_size b2" using file_size_other [OF nx] extend by simp
      have decls: "file_extends i ?f scope idx b = declared_extension i ?f b2 scope d # file_extends i ?f scope idx b2"
        using nx extend by (simp add: v)
      obtain r2 b3 ctx2 s2 where a: "apply_extend i b2 d scope scope ctx s = (r2, b3, ctx2, s2)" by (metis surj_pair)
      note A = apply_extend_correct [OF a ready tree i]
      show ?thesis
      proof (cases r2)
        case (Inl e)
        then show ?thesis using step.prems(1) nx extend a A w by (auto simp: u)
      next
        case (Inr y)
        then have "extend_file_walk i scope b2 idx ctx2 s2 = (r, b1, ctx1, s1)"
          using step.prems(1) nx extend a A by (simp add: u)
        from step.IH [OF this ready _ i] A Inr size step.prems(5)
        show ?thesis unfolding decls using same_window_trans [OF w] by (auto intro: extended_Cons)
      qed
    next
      case message
      let ?w = "body_scope_enter b2 (mg_body_start m) (mg_body_end m)"
      let ?inner = "nm_scoped_name (nl_messages ?f ! idx)"
      note size = file_size_message [OF nx message]
      have decls: "file_extends i ?f scope idx b =
          body_extends i ?f ?inner (idx + 1) ?w @ file_extends i ?f scope (idx + 1 + body_size ?w) b2"
        using nx message by (simp add: v flat_body_size)
      have sc: "message_scope ctx i idx = Some ?inner"
        using message_scope_eq [OF tree] step.prems(5) size by simp
      obtain r2 b3 ctx2 s2 where a: "walk_message_body i b2 (mg_body_start m) (mg_body_end m) ?inner (idx + 1) ctx s = (r2, b3, ctx2, s2)"
        by (metis surj_pair)
      have fits: "idx + 1 + body_size ?w \<le> length (nl_messages ?f)"
        "idx + 1 + body_size ?w + file_size b2 \<le> length (nl_messages ?f)" using step.prems(5) size by simp_all
      note A = walk_message_body_correct [OF a ready tree i fits(1)]
      show ?thesis
      proof (cases r2)
        case (Inl e)
        then show ?thesis using step.prems(1) nx message sc a A w by (auto simp: u)
      next
        case (Inr idx2)
        then have "extend_file_walk i scope b2 (idx + 1 + body_size ?w) ctx2 s2 = (r, b1, ctx1, s1)"
          using step.prems(1) nx message sc a A by (simp add: u)
        from step.IH [OF this ready _ i fits(2)] A Inr size
        show ?thesis unfolding decls using same_window_trans [OF w] by (auto intro!: extended_append)
      qed
    qed
  qed
qed

section \<open>All files\<close>

lemma make_package_scope_eq: "make_package_scope s f = (Inr sn, s1) \<Longrightarrow> sn = package_scope f"
  by (auto simp: make_package_scope_def package_scope_def scoped_name_parse_eq with_alloc_def
      split: option.splits if_splits prod.splits)

lemma walk_file_correct:
  assumes "walk_file i f b ctx s = (r, b1, ctx1, s1)"
    and "pass_ready C" and "same_tree C ctx" and "i < n_sources C"
    and "strip_file f = strip_file (the (file_at C i))"
    and "file_size (rewind 0 b) \<le> length (nl_messages (the (file_at C i)))"
  shows "b1 = b \<and> r \<noteq> Inl Overrun \<and> same_tree C ctx1 \<and>
   (r = Inr () \<longrightarrow> extended C (declared_extends i (the (file_at C i)) b) ctx ctx1)"
proof -
  have restored: "rewind (pb_offset b) b2 = b" if "same_window (rewind 0 b) b2" for b2
    using that by (cases b; cases b2) (auto simp: same_window_def rewind_def)
  have self: "same_window (rewind 0 b) (rewind 0 b)" by (simp add: same_window_def)
  have pkg: "package_scope f = package_scope (the (file_at C i))"
    using strip_fileD [OF assms(5)] by (simp add: package_scope_def)
  obtain ok s2 where a: "pool_alloc sizeof_scoped_name s = (ok, s2)" by (metis surj_pair)
  obtain p s3 where p: "make_package_scope s2 f = (p, s3)" by (metis surj_pair)
  note run = assms(1) [unfolded walk_file_def Let_def a prod.case]
  show ?thesis
  proof (cases "ok \<and> (\<exists>sn. p = Inr sn)")
    case False
    then show ?thesis using run p restored [OF self] assms(3) by (cases ok; cases p) auto
  next
    case True
    then have sn: "p = Inr (package_scope f)" using make_package_scope_eq [of s2 f _ s3] p by auto
    obtain q b2 ctx2 s4 where w: "extend_file_walk i (package_scope f) (rewind 0 b) 0 ctx s3 = (q, b2, ctx2, s4)"
      by (metis surj_pair)
    note W = extend_file_walk_correct [OF w assms(2-4)]
    show ?thesis
      using run True p sn w W restored [of b2] assms(6) pkg by (cases q) (auto simp: declared_extends_def)
  qed
qed

lemma extend_files_correct:
  "extend_files is ctx bufs s = (r, ctx1, bufs1, s1) \<Longrightarrow>
   pass_ready C \<Longrightarrow> same_tree C ctx \<Longrightarrow> set is \<subseteq> {..<n_sources C} \<Longrightarrow>
   \<forall>i \<in> set is. file_size (rewind 0 (bufs ! i)) \<le> length (nl_messages (the (file_at C i))) \<Longrightarrow>
   bufs1 = bufs \<and> same_tree C ctx1 \<and> (case r of
       None \<Rightarrow> extended C (concat (map (\<lambda>i. declared_extends i (the (file_at C i)) (bufs ! i)) is)) ctx ctx1
     | Some e \<Rightarrow> e \<noteq> Overrun \<and> rc_error ctx1 = error_code e \<and> rc_failed_source_idx ctx1 \<in> set is)"
proof (induction "is" arbitrary: ctx s)
  case Nil
  then show ?case by (simp add: extended_simps)
next
  case (Cons i "is")
  have i: "i < n_sources C" using Cons.prems(4) by simp
  then have "file_at C i \<noteq> None" using Cons.prems(2) by (simp add: pass_ready_def)
  then obtain f where f: "file_at ctx i = Some f" using same_tree_None [OF Cons.prems(3), of i]
    by (cases "file_at ctx i") auto
  then have strip: "strip_file f = strip_file (the (file_at C i))"
    using same_tree_file [OF Cons.prems(3), of i] by simp
  obtain q b ctx2 s2 where w: "walk_file i f (bufs ! i) ctx s = (q, b, ctx2, s2)" by (metis surj_pair)
  have W: "b = bufs ! i" "q \<noteq> Inl Overrun" "same_tree C ctx2"
    "q = Inr () \<longrightarrow> extended C (declared_extends i (the (file_at C i)) (bufs ! i)) ctx ctx2"
    using walk_file_correct [OF w Cons.prems(2,3) i strip] Cons.prems(5) by auto
  show ?case
  proof (cases q)
    case (Inl e)
    then show ?thesis using Cons.prems(1) f w W by (auto simp: same_tree_def)
  next
    case (Inr y)
    then have "extend_files is ctx2 bufs s2 = (r, ctx1, bufs1, s1)"
      using Cons.prems(1) f w W by simp
    from Cons.IH [OF this Cons.prems(2) W(3)] Cons.prems(4,5) Inr W(4)
    show ?thesis by (auto intro: extended_append split: option.splits)
  qed
qed

lemma propagate_extends_pass:
  assumes "pass_ready C"
    and "\<forall>i < n_sources C. file_size (rewind 0 (bufs ! i)) \<le> length (nl_messages (the (file_at C i)))"
    and "gremlind_propagate_extends C bufs s = (r, C', bufs', s')"
  shows "bufs' = bufs \<and> same_tree C C' \<and> (case r of
       None \<Rightarrow> extended C (concat (map (\<lambda>i. declared_extends i (the (file_at C i)) (bufs ! i)) [0..<n_sources C])) C C'
     | Some e \<Rightarrow> e \<noteq> Overrun \<and> rc_error C' = error_code e \<and> rc_failed_source_idx C' < n_sources C)"
proof -
  have "\<not> unbuilt C" using assms(1) by (auto simp: pass_ready_def unbuilt_def)
  then have "extend_files [0..<n_sources C] C bufs s = (r, C', bufs', s')"
    using assms(3) by (simp add: gremlind_propagate_extends_def)
  from extend_files_correct [OF this assms(1) same_tree_refl] show ?thesis
    using assms(2) by (auto simp: atLeast0LessThan split: option.splits)
qed

text \<open>C6. The pass over the extensions keeps every buffer as it was and changes nothing of
  the tree but the fields of messages.  When it succeeds, it has appended, in the
  order of the files and of their text, the fields of each extension declared at
  the top level or in a message to the message that protobuf scoping assigns to
  its name in the files the declaring file sees, each tagged with its file, its
  scope and the packing its file implies; when it fails, the context holds the
  error and the file.  It never reads a message its file does not have, nor writes
  past the array it sized by counting.\<close>
theorem propagate_extends_correct:
  assumes "pass_ready C"
    and "\<forall>i < n_sources C. file_size (rewind 0 (bufs ! i)) \<le> length (nl_messages (the (file_at C i)))"
    and "gremlind_propagate_extends C bufs s = (r, C', bufs', s')"
  shows "bufs' = bufs \<and> same_tree C C' \<and> (case r of
       None \<Rightarrow> extended C (concat (map (\<lambda>i. declared_extends i (the (file_at C i)) (bufs ! i)) [0..<n_sources C])) C C'
     | Some e \<Rightarrow> e \<noteq> Overrun \<and> rc_error C' = error_code e \<and> rc_failed_source_idx C' < n_sources C)"
  using assms by (rule propagate_extends_pass)

section \<open>An example\<close>

text \<open>\<open>extend A{int32 x=1;}\<close> in a file that has the message \<open>A\<close> without fields.\<close>

definition extend_proto :: "nat \<Rightarrow> nat \<Rightarrow> parser_buffer" where
  "extend_proto s e = \<lparr>pb_buf = ''extend A{int32 x=1;}'', pb_size = e, pb_offset = s\<rparr>"

definition extend_ctx :: "gremlind_field list \<Rightarrow> gremlind_resolve_context" where
  "extend_ctx fds = sample_ctx\<lparr>rc_paths := [''m.proto''],
     rc_files := Some [Some (sample_file\<lparr>nl_package := None, nl_visible := [0], nl_enums := [],
       nl_messages := [(sample_message ''A'' None)\<lparr>nm_scoped_name := \<lparr>segments = [''A''], absolute = True\<rparr>,
         nm_fields := fds\<rparr>]\<rparr>)]\<rparr>"

lemma extend_proto_steps:
  "gremlinp_file_next_entry (extend_proto 0 20) =
     (Inr \<lparr>en_entry = GREMLINP_FILE_ENTRY_EXTEND
        \<lparr>et_base_type = \<lparr>span_start = 7, span_length = 1\<rparr>, et_body_start = 9, et_body_end = 19, et_start = 0, et_end = 20\<rparr>,
        en_start = 0, en_end = 20\<rparr>, extend_proto 20 20)"
  "gremlinp_file_next_entry (extend_proto 20 20) = (Inl GREMLINP_ERROR_UNEXPECTED_TOKEN, extend_proto 20 20)"
  "skip_spaces (extend_proto 9 19) = (Inr (), extend_proto 9 19)"
  "gremlinp_parser_buffer_char (extend_proto 9 19) = CHR ''i''"
  "gremlinp_field_parse (extend_proto 9 19) =
     (Inr \<lparr>fd_label = GREMLINP_FIELD_LABEL_NONE,
        fd_type = \<lparr>ft_type = GREMLINP_FIELD_TYPE_NAMED \<lparr>span_start = 9, span_length = 5\<rparr>, ft_start = 9, ft_end = 14\<rparr>,
        fd_name = \<lparr>span_start = 15, span_length = 1\<rparr>, fd_index = 1,
        fd_options = \<lparr>ol_start = 0, ol_end = 0, ol_count = 0\<rparr>, fd_start = 9, fd_end = 19\<rparr>, extend_proto 19 19)"
  "at_eof (extend_proto 20 20) = (True, extend_proto 20 20)"
  "map (span_text (extend_proto s e)) [\<lparr>span_start = 7, span_length = 1\<rparr>, \<lparr>span_start = 9, span_length = 5\<rparr>,
     \<lparr>span_start = 15, span_length = 1\<rparr>] = [''A'', ''int32'', ''x'']"
  by code_simp+

lemma extend_proto_moves:
  "pb_offset (extend_proto s e) = s" "pb_size (extend_proto s e) = e"
  "rewind 0 (extend_proto s e) = extend_proto 0 e"
  "body_scope_enter (extend_proto s e) a c = extend_proto a c"
  "body_scope_leave (extend_proto s e) (extend_proto a c) = extend_proto s e"
  by (simp_all add: extend_proto_def body_scope_enter_def body_scope_leave_def rewind_def)

definition added_field :: gremlind_field where
  "added_field = \<lparr>nf_name = ''x'', nf_label = GREMLINP_FIELD_LABEL_NONE, nf_index = 1,
     nf_written = Written_Named ''int32'', nf_options = \<lparr>ol_start = 0, ol_end = 0, ol_count = 0\<rparr>,
     nf_type = GREMLIND_TYPE_REF_UNRESOLVED, nf_default = None, nf_packing = GREMLIND_PACKING_EXPANDED,
     nf_origin_file = Some 0, nf_origin_scope = Some \<lparr>segments = [], absolute = True\<rparr>\<rparr>"

lemma extend_proto_nodes:
  "extend_fields_loop slots (extend_proto 9 19) fds n =
     (if slots = None then (Inr (fds, n + 1), extend_proto 19 19)
      else if length fds \<ge> the slots then (Inl Overrun, extend_proto 19 19)
      else (Inr (fds @ [added_field\<lparr>nf_packing := GREMLIND_PACKING_AUTO, nf_origin_file := None, nf_origin_scope := None\<rparr>], n + 1),
            extend_proto 19 19))"
  using extend_proto_steps(7)
  by (simp add: extend_fields_loop.simps [of _ "extend_proto 9 19"] extend_fields_loop.simps [of _ "extend_proto 19 19"]
      extend_proto_steps extend_proto_moves added_field_def extension_node_def field_node_def written_of_def
      extract_default_option_def extract_option_def split: option.split)

lemma extend_proto_run:
  "gremlind_propagate_extends (extend_ctx []) [extend_proto 0 20] (sample_pool 0) =
     (None, extend_ctx [added_field], [extend_proto 0 20], sample_pool 328)"
  using extend_proto_steps(7)
  by (simp add: gremlind_propagate_extends_def unbuilt_def extend_ctx_def sample_ctx_def sample_file_def sample_message_def
      walk_file_def sample_pool_alloc align_up_def make_package_scope_def extend_file_walk.simps extend_proto_steps
      extend_proto_moves apply_extend_def resolve_extend_target_def scoped_name_parse_eq name_parts_def leading_dot_def
      with_alloc_def gremlind_scoped_name_extend_def find_name_def gremlind_scoped_name_eq_def walk_extend_body_def
      extend_proto_nodes target_fields_def set_fields_def set_file_def tag_extension_def added_field_def
      gremlind_field_packing_def gremlind_field_packed_option_def extract_option_def ended_def Let_def upt_rec)

lemma propagate_extends_correct_witness:
  "extended (extend_ctx []) (declared_extends 0 (the (file_at (extend_ctx []) 0)) (extend_proto 0 20))
     (extend_ctx []) (extend_ctx [added_field])"
proof -
  have size: "file_size (extend_proto 0 20) = 0"
    using file_size_other [OF extend_proto_steps(1)] file_size_end [OF extend_proto_steps(2)] by simp
  have "pass_ready (extend_ctx [])"
    by (simp add: pass_ready_def extend_ctx_def sample_ctx_def)
  from propagate_extends_correct [OF this _ extend_proto_run] size show ?thesis
    by (simp add: extend_ctx_def sample_ctx_def extend_proto_moves upt_rec)
qed

end
