(* ===== verification/Type_Names.thy ===== *)
theory Type_Names
  imports Naming
begin

text \<open>
  The C name of a type, \<open>gremlinc_cname_for_type\<close>, and the pass that names every
  enum and message of a file, \<open>gremlinc_assign_c_names\<close>
  (\<open>gremlinc/src/naming.c\<close>).  The names handed out are fresh, so that no two types
  share one however their parts are joined, and none falls among the reserved words
  or the names of the runtime.
\<close>

section \<open>Operations\<close>

definition in_runtime_namespace :: "string \<Rightarrow> bool" where
  "in_runtime_namespace name =
     (if take 7 name \<noteq> ''gremlin'' \<and> take 7 name \<noteq> ''GREMLIN'' then False
      else length name = 7 \<or> name ! 7 = CHR ''_'')"

text \<open>Some underscore is followed by a digit.\<close>

fun has_number_segment :: "string \<Rightarrow> bool" where
  "has_number_segment [] = False"
| "has_number_segment (c # cs) =
     (if c = CHR ''_'' \<and> cs \<noteq> [] \<and> CHR ''0'' \<le> hd cs \<and> hd cs \<le> CHR ''9'' then True
      else has_number_segment cs)"

fun join_segments :: "string list \<Rightarrow> string" where
  "join_segments [] = []"
| "join_segments [x] = x"
| "join_segments (x # y # zs) = x @ ''_'' @ join_segments (y # zs)"

definition must_move :: "string \<Rightarrow> bool" where
  "must_move c \<longleftrightarrow> in_runtime_namespace c \<and> \<not> has_number_segment c"

lemma has_number_segment_append: "has_number_segment ys \<Longrightarrow> has_number_segment (xs @ ys)"
  by (induction xs) auto

lemma numbered_has_number_segment: "has_number_segment (numbered base k)"
proof -
  have "CHR ''0'' \<le> hd (show_nat k) \<and> hd (show_nat k) \<le> CHR ''9''"
    using show_nat_digits [of k] by (cases "show_nat k") (auto simp: is_digit_def)
  then show ?thesis by (auto simp: numbered_def intro!: has_number_segment_append)
qed

lemma smallest_free_cases:
  "smallest_free names base c \<Longrightarrow> c = base \<or> base \<in> set names \<and> has_number_segment c"
  using numbered_has_number_segment by (auto simp: smallest_free_def)

text \<open>What is left of the loop that moves a name out of the runtime's namespace: the second
  name is numbered, so it runs at most twice.\<close>

definition moves_left :: "string \<Rightarrow> string option \<Rightarrow> 'w naming \<Rightarrow> nat" where
  "moves_left raw c st =
     (case c of None \<Rightarrow> 0
      | Some x \<Rightarrow> if \<not> must_move x then 0
          else if mangle_base raw \<in> set (ns_names (fst st)) then 1 else 2)"

lemma moves_left_mangle:
  assumes "must_move x" and "gremlinc_name_scope_mangle st raw = (c', st')"
  shows "moves_left raw c' st' < moves_left raw (Some x) st"
proof (cases c')
  case None
  then show ?thesis using assms(1) by (simp add: moves_left_def)
next
  case (Some y)
  have f: "fst st' = with_name y (fst st)" "smallest_free (ns_names (fst st)) (mangle_base raw) y"
    using mangle_correct [OF assms(2)] Some by simp_all
  have "y \<notin> set (ns_names (fst st))" using f(2) by (simp add: smallest_free_def)
  then show ?thesis
    using smallest_free_cases [OF f(2)] assms(1) Some f(1)
    by (auto simp: moves_left_def must_move_def)
qed

text \<open>The loop that moves a name out of the runtime's namespace.\<close>

function cname_loop :: "string \<Rightarrow> string option \<Rightarrow> 'w naming \<Rightarrow> string option \<times> 'w naming" where
  "cname_loop raw c st =
     (case c of
        None \<Rightarrow> (None, st)
      | Some x \<Rightarrow>
          if must_move x then
            (case gremlinc_name_scope_mangle st raw of (c', st') \<Rightarrow> cname_loop raw c' st')
          else (Some x, st))"
  by pat_completeness auto
termination
  by (relation "measure (\<lambda>(raw, c, st). moves_left raw c st)")
     (auto split: prod.split intro!: moves_left_mangle)

definition gremlinc_cname_for_type :: "'w naming \<Rightarrow> gremlind_scoped_name \<Rightarrow> string option \<times> 'w naming" where
  "gremlinc_cname_for_type st sn =
     (if length (segments sn) = 0 then (None, st)
      else let total = sum_list (map length (segments sn)) +
                 (if length (segments sn) > 1 then length (segments sn) - 1 else 0) in
        case pool_alloc (total + 1) (snd st) of (ok, p1) \<Rightarrow>
          if \<not> ok then (None, (fst st, p1))
          else let raw = join_segments (segments sn) in
            case gremlinc_name_scope_mangle (fst st, p1) raw of (c, st2) \<Rightarrow>
              cname_loop raw c st2)"

fun assign_enums :: "gremlind_enum list \<Rightarrow> 'w naming \<Rightarrow>
    gremlinp_parsing_error option \<times> gremlind_enum list \<times> 'w naming" where
  "assign_enums [] st = (None, [], st)"
| "assign_enums (e # es) st =
     (case gremlinc_cname_for_type st (ne_scoped_name e) of (c, st1) \<Rightarrow>
        let e1 = e\<lparr>ne_c_name := c\<rparr> in
        if c = None then (Some GREMLINP_ERROR_OUT_OF_MEMORY, e1 # es, st1)
        else case assign_enums es st1 of (err, es', st2) \<Rightarrow> (err, e1 # es', st2))"

fun assign_messages :: "gremlind_message list \<Rightarrow> 'w naming \<Rightarrow>
    gremlinp_parsing_error option \<times> gremlind_message list \<times> 'w naming" where
  "assign_messages [] st = (None, [], st)"
| "assign_messages (m # ms) st =
     (case gremlinc_cname_for_type st (nm_scoped_name m) of (c, st1) \<Rightarrow>
        let m1 = m\<lparr>nm_c_name := c\<rparr> in
        if c = None then (Some GREMLINP_ERROR_OUT_OF_MEMORY, m1 # ms, st1)
        else case assign_messages ms st1 of (err, ms', st2) \<Rightarrow> (err, m1 # ms', st2))"

definition gremlinc_assign_c_names :: "'w naming \<Rightarrow> gremlind_file \<Rightarrow>
    gremlinp_parsing_error option \<times> gremlind_file \<times> 'w naming" where
  "gremlinc_assign_c_names st fl =
     (case assign_enums (nl_enums fl) st of (err, es, st1) \<Rightarrow>
        let fl1 = fl\<lparr>nl_enums := es\<rparr> in
        if err \<noteq> None then (err, fl1, st1)
        else case assign_messages (nl_messages fl1) st1 of (err, ms, st2) \<Rightarrow>
          (err, fl1\<lparr>nl_messages := ms\<rparr>, st2))"

declare cname_loop.simps [simp del]

section \<open>The name of one type\<close>

lemma length_join_segments:
  "length (join_segments xs) = sum_list (map length xs) + (length xs - 1)"
  by (induction xs rule: join_segments.induct) auto

text \<open>What a scope becomes when a type of raw name \<open>raw\<close> is named \<open>c\<close>.\<close>

definition named_as :: "string \<Rightarrow> string \<Rightarrow> gremlinc_name_scope \<Rightarrow> gremlinc_name_scope \<Rightarrow> bool" where
  "named_as raw c s s' \<longleftrightarrow> raw \<noteq> [] \<and> c \<notin> set (ns_names s) \<and> \<not> must_move c \<and>
     (s' = with_name c s \<and> smallest_free (ns_names s) (mangle_base raw) c \<or>
      must_move (mangle_base raw) \<and> s' = with_name c (with_name (mangle_base raw) s) \<and>
        smallest_free (mangle_base raw # ns_names s) (mangle_base raw) c)"

lemma cname_for_type_correct:
  assumes "gremlinc_cname_for_type st sn = (Some c, st')"
  shows "named_as (join_segments (segments sn)) c (fst st) (fst st')"
proof -
  let ?raw = "join_segments (segments sn)"
  obtain p1 c1 st1 where m: "gremlinc_name_scope_mangle (fst st, p1) ?raw = (c1, st1)"
    and l: "cname_loop ?raw c1 st1 = (Some c, st')"
    using assms by (auto simp: gremlinc_cname_for_type_def Let_def split: prod.splits if_splits)
  from l obtain x where x: "c1 = Some x" by (cases c1) (auto simp: cname_loop.simps)
  have f: "?raw \<noteq> []" "fst st1 = with_name x (fst st)" "smallest_free (ns_names (fst st)) (mangle_base ?raw) x"
    using mangle_correct [OF m] x by simp_all
  show ?thesis
  proof (cases "must_move x")
    case False
    then have "c = x" "st' = st1" using l x by (simp_all add: cname_loop.simps)
    then show ?thesis using f False by (simp add: named_as_def smallest_free_def)
  next
    case True
    then have xb: "x = mangle_base ?raw" using smallest_free_cases [OF f(3)] by (auto simp: must_move_def)
    obtain c2 st2 where m2: "gremlinc_name_scope_mangle st1 ?raw = (c2, st2)" by (metis surj_pair)
    then have l2: "cname_loop ?raw c2 st2 = (Some c, st')"
      using l x True by (simp add: cname_loop.simps [of ?raw "Some x" st1])
    then obtain y where y: "c2 = Some y" by (cases c2) (auto simp: cname_loop.simps)
    have g: "fst st2 = with_name y (fst st1)" "smallest_free (ns_names (fst st1)) (mangle_base ?raw) y"
      using mangle_correct [OF m2] y by simp_all
    have ym: "\<not> must_move y"
      using smallest_free_cases [OF g(2)] g(2) f(2) xb
      by (auto simp: must_move_def smallest_free_def)
    then have "c = y" "st' = st2" using l2 y by (simp_all add: cname_loop.simps)
    then show ?thesis
      using f g True xb ym by (auto simp: named_as_def smallest_free_def)
  qed
qed

text \<open>The names a file's types were given, enums first.\<close>

definition c_names :: "gremlind_file \<Rightarrow> string option list" where
  "c_names fl = map ne_c_name (nl_enums fl) @ map nm_c_name (nl_messages fl)"

definition scoped_names :: "gremlind_file \<Rightarrow> gremlind_scoped_name list" where
  "scoped_names fl = map ne_scoped_name (nl_enums fl) @ map nm_scoped_name (nl_messages fl)"

definition without_c_names :: "gremlind_file \<Rightarrow> gremlind_file" where
  "without_c_names fl = fl\<lparr>nl_enums := map (\<lambda>e. e\<lparr>ne_c_name := None\<rparr>) (nl_enums fl),
     nl_messages := map (\<lambda>m. m\<lparr>nm_c_name := None\<rparr>) (nl_messages fl)\<rparr>"

text \<open>A chain of namings, one per type, each in the scope the one before left.\<close>

inductive named_in_turn :: "gremlinc_name_scope \<Rightarrow> gremlind_scoped_name list \<Rightarrow> string list \<Rightarrow>
    gremlinc_name_scope \<Rightarrow> bool" where
  named_none: "named_in_turn s [] [] s"
| named_next: "named_as (join_segments (segments sn)) c s s1 \<Longrightarrow> named_in_turn s1 sns cs s2 \<Longrightarrow>
    named_in_turn s (sn # sns) (c # cs) s2"

inductive_cases named_in_turn_ConsE: "named_in_turn s (sn # sns) cs s2"

lemma named_in_turn_append:
  "named_in_turn s xs cs s1 \<Longrightarrow> named_in_turn s1 ys ds s2 \<Longrightarrow> named_in_turn s (xs @ ys) (cs @ ds) s2"
  by (induction rule: named_in_turn.induct) (auto intro: named_in_turn.intros)

lemma named_as_mono: "named_as raw c s s' \<Longrightarrow> insert c (set (ns_names s)) \<subseteq> set (ns_names s')"
  by (auto simp: named_as_def)

lemma named_in_turn_distinct:
  "named_in_turn s sns cs s' \<Longrightarrow>
   distinct cs \<and> set cs \<inter> set (ns_names s) = {} \<and> set cs \<union> set (ns_names s) \<subseteq> set (ns_names s')"
proof (induction rule: named_in_turn.induct)
  case (named_next sn c s s1 sns cs s2)
  then show ?case using named_as_mono [OF named_next.hyps(1)] by (auto simp: named_as_def)
qed simp

lemma assign_enums_correct:
  "assign_enums es st = (err, es', st') \<Longrightarrow>
   (err = None \<longrightarrow> (\<exists>cs. map ne_c_name es' = map Some cs \<and>
      named_in_turn (fst st) (map ne_scoped_name es) cs (fst st')))
   \<and> map (\<lambda>e. e\<lparr>ne_c_name := None\<rparr>) es' = map (\<lambda>e. e\<lparr>ne_c_name := None\<rparr>) es
   \<and> (err \<noteq> None \<longrightarrow> err = Some GREMLINP_ERROR_OUT_OF_MEMORY)"
proof (induction es arbitrary: st es' st')
  case Nil
  then show ?case by (auto intro: named_none)
next
  case (Cons e es)
  obtain c st1 where c: "gremlinc_cname_for_type st (ne_scoped_name e) = (c, st1)" by (metis surj_pair)
  show ?case
  proof (cases c)
    case None
    then show ?thesis using Cons.prems c by auto
  next
    case (Some x)
    obtain er es2 st2 where r: "assign_enums es st1 = (er, es2, st2)" by (metis surj_pair)
    have e: "err = er" "es' = e\<lparr>ne_c_name := Some x\<rparr> # es2" "st' = st2"
      using Cons.prems c Some r by auto
    show ?thesis
      using Cons.IH [OF r [folded e(1)]] cname_for_type_correct [OF c [unfolded Some]] e
      by (auto simp: Cons_eq_map_conv intro!: named_next)
  qed
qed

lemma assign_messages_correct:
  "assign_messages ms st = (err, ms', st') \<Longrightarrow>
   (err = None \<longrightarrow> (\<exists>cs. map nm_c_name ms' = map Some cs \<and>
      named_in_turn (fst st) (map nm_scoped_name ms) cs (fst st')))
   \<and> map (\<lambda>m. m\<lparr>nm_c_name := None\<rparr>) ms' = map (\<lambda>m. m\<lparr>nm_c_name := None\<rparr>) ms
   \<and> (err \<noteq> None \<longrightarrow> err = Some GREMLINP_ERROR_OUT_OF_MEMORY)"
proof (induction ms arbitrary: st ms' st')
  case Nil
  then show ?case by (auto intro: named_none)
next
  case (Cons m ms)
  obtain c st1 where c: "gremlinc_cname_for_type st (nm_scoped_name m) = (c, st1)" by (metis surj_pair)
  show ?case
  proof (cases c)
    case None
    then show ?thesis using Cons.prems c by auto
  next
    case (Some x)
    obtain er ms2 st2 where r: "assign_messages ms st1 = (er, ms2, st2)" by (metis surj_pair)
    have e: "err = er" "ms' = m\<lparr>nm_c_name := Some x\<rparr> # ms2" "st' = st2"
      using Cons.prems c Some r by auto
    show ?thesis
      using Cons.IH [OF r [folded e(1)]] cname_for_type_correct [OF c [unfolded Some]] e
      by (auto simp: Cons_eq_map_conv intro!: named_next)
  qed
qed

section \<open>Names are identifiers\<close>

lemma valid_chars: "valid_identifier x \<Longrightarrow> list_all is_identifier_char x"
  by (cases x) (auto simp: valid_identifier_def is_ident_start_char)

lemma valid_append: "valid_identifier x \<Longrightarrow> list_all is_identifier_char y \<Longrightarrow> valid_identifier (x @ y)"
  by (simp add: valid_identifier_def)

lemma underscore_ident: "is_identifier_char (CHR ''_'')"
  by (simp add: is_identifier_char_def)

lemma join_valid:
  "xs \<noteq> [] \<Longrightarrow> \<forall>x \<in> set xs. valid_identifier x \<Longrightarrow> valid_identifier (join_segments xs)"
  by (induction xs rule: join_segments.induct) (auto intro: valid_append simp: valid_chars underscore_ident)

lemma valid_no_nul: "valid_identifier x \<Longrightarrow> nul \<notin> set x"
  using valid_chars by (force simp: list_all_iff)

lemma valid_mangle_base: "valid_identifier x \<Longrightarrow> valid_identifier (mangle_base x)"
  using valid_no_nul [of x] by (simp add: mangle_base_eq valid_append underscore_ident)

lemma valid_numbered: "valid_identifier x \<Longrightarrow> valid_identifier (numbered x k)"
  using show_nat_digits [of k] unfolding numbered_def
  by (auto intro!: valid_append simp: list_all_iff underscore_ident digit_is_ident_char)

lemma named_as_good:
  assumes "named_as raw c s s'" and "valid_identifier raw"
  shows "valid_identifier c \<and> \<not> gremlinc_is_c_keyword c \<and> \<not> must_move c"
proof -
  have "c = mangle_base raw \<or> (\<exists>k. c = numbered (mangle_base raw) k)" and "\<not> must_move c"
    using assms(1) by (auto simp: named_as_def smallest_free_def)
  then show ?thesis
    using valid_mangle_base valid_numbered mangle_base_not_keyword numbered_not_keyword
      valid_no_nul assms(2) by blast
qed

lemma named_in_turn_good:
  "named_in_turn s sns cs s' \<Longrightarrow>
   \<forall>sn \<in> set sns. segments sn \<noteq> [] \<and> (\<forall>x \<in> set (segments sn). valid_identifier x) \<Longrightarrow>
   \<forall>c \<in> set cs. valid_identifier c \<and> \<not> gremlinc_is_c_keyword c \<and> \<not> must_move c"
proof (induction rule: named_in_turn.induct)
  case (named_next sn c s s1 sns cs s2)
  then show ?case using named_as_good join_valid by auto
qed simp

lemma reserve_loop_names:
  "reserve_loop names st = (None, st') \<Longrightarrow>
   set (ns_names (fst st')) = set names \<union> set (ns_names (fst st))"
proof (induction names arbitrary: st)
  case (Cons n names)
  obtain err st1 where r: "scope_register st n = (err, st1)" by (metis surj_pair)
  then have "err = None" "reserve_loop names st1 = (None, st')" using Cons.prems by (auto split: if_splits)
  then show ?case using Cons.IH [of st1] scope_register_None [of st n st1] r by auto
qed simp

section \<open>Properties\<close>

text \<open>C39. The mangler: a name it returns was not taken and is taken afterwards, is
  the raw text, with an underscore if that is a reserved word, or the first of the
  numbered names that is free, and is never a reserved word; when it returns \<open>NULL\<close>
  the scope is as before.\<close>
theorem mangle_names_freshly:
  assumes "gremlinc_name_scope_mangle (s, p) raw = (res, (s', p'))" and "nul \<notin> set raw"
  shows "case res of
      None \<Rightarrow> s' = s
    | Some c \<Rightarrow> \<not> gremlinc_name_scope_has s c \<and> gremlinc_name_scope_has s' c
        \<and> s' = s\<lparr>ns_names := c # ns_names s, ns_count := ns_count s + 1\<rparr>
        \<and> \<not> gremlinc_is_c_keyword c
        \<and> (let base = (if gremlinc_is_c_keyword raw then raw @ ''_'' else raw) in
            if \<not> gremlinc_name_scope_has s base then c = base
            else \<exists>k. 1 \<le> k \<and> k < 1000000 \<and> c = base @ ''_'' @ show_nat k \<and>
              (\<forall>j. 1 \<le> j \<and> j < k \<longrightarrow> gremlinc_name_scope_has s (base @ ''_'' @ show_nat j)))"
proof (cases res)
  case None
  then show ?thesis using mangle_correct [OF assms(1)] by simp
next
  case (Some c)
  then have f: "s' = with_name c s" "smallest_free (ns_names s) (mangle_base raw) c"
    using mangle_correct [OF assms(1)] by simp_all
  moreover have "\<not> gremlinc_is_c_keyword c"
    using f(2) mangle_base_not_keyword [OF assms(2)] numbered_not_keyword
    by (auto simp: smallest_free_def)
  ultimately show ?thesis
    using Some by (auto simp: smallest_free_def mangle_base_eq [OF assms(2)] with_name_def numbered_def Let_def
        split: if_splits)
qed

lemma mangle_names_freshly_witness:
  "\<exists>c s' p'. gremlinc_name_scope_mangle (\<lparr>ns_names = [''int__1'', ''int_''], ns_count = 2\<rparr>, sample_pool 0) ''int''
     = (Some c, (s', p')) \<and> c = ''int__2'' \<and> \<not> gremlinc_is_c_keyword c"
proof -
  let ?s = "\<lparr>ns_names = [''int__1'', ''int_''], ns_count = 2\<rparr>"
  obtain c s' p' where m: "gremlinc_name_scope_mangle (?s, sample_pool 0) ''int'' = (Some c, (s', p'))"
    using mangle_total [of "''int''" "(?s, sample_pool 0)"] sample_pool_room [of 100 0] by auto
  have kw: "gremlinc_is_c_keyword ''int''" by code_simp
  have n: "show_nat 1 = ''1''" "show_nat 2 = ''2''" "show_nat 3 = ''3''" by code_simp+
  note f = mangle_names_freshly [OF m]
  obtain k where k: "1 \<le> k" "c = ''int__'' @ show_nat k"
      "\<forall>j. 1 \<le> j \<and> j < k \<longrightarrow> gremlinc_name_scope_has ?s (''int__'' @ show_nat j)"
    using f kw by (auto simp: Let_def)
  have "gremlinc_name_scope_has ?s c = False" "\<not> gremlinc_is_c_keyword c" using f by (auto simp: Let_def)
  moreover have "k < 3" using k(3) [rule_format, of 2] n by (cases "2 < k") auto
  ultimately have "k = 2" using k(1,2) n by (cases "k = 1") auto
  then have "c = ''int__2''" using k(2) n by simp
  then show ?thesis using m \<open>\<not> gremlinc_is_c_keyword c\<close> by blast
qed

text \<open>C40. The mangler does find a name: with fewer than a million names taken and
  room in the arena for the candidates it tries, it never returns \<open>NULL\<close>.\<close>
theorem mangle_always_names:
  assumes "raw \<noteq> []" and "nul \<notin> set raw" and "length (ns_names s) < 1000000"
    and "has_room ((length (ns_names s) + 3) * (length raw + 17)) p"
  shows "\<exists>c st'. gremlinc_name_scope_mangle (s, p) raw = (Some c, st')"
  using mangle_total [of raw "(s, p)"] assms by simp

lemma mangle_always_names_witness:
  "\<exists>c st'. gremlinc_name_scope_mangle (\<lparr>ns_names = [''A'', ''A_1'', ''A_2''], ns_count = 3\<rparr>, sample_pool 0) ''A''
     = (Some c, st')"
  using mangle_always_names [of "''A''" "\<lparr>ns_names = [''A'', ''A_1'', ''A_2''], ns_count = 3\<rparr>" "sample_pool 0"]
    sample_pool_room [of 108 0] by simp

text \<open>C15. The naming pass gives every enum and message of the file a name, in turn
  and from the mangler; the names are pairwise distinct, none was taken before, and
  when the parts of the scoped names are identifiers they are identifiers that are
  no reserved words and, unless numbered, not in the runtime's namespace.  Nothing
  else of the file changes, and the pass fails only by running out of names or
  memory.\<close>
theorem assign_c_names_correct:
  assumes "gremlinc_assign_c_names (s, p) fl = (err, fl', (s', p'))"
  shows "without_c_names fl' = without_c_names fl
    \<and> (err \<noteq> None \<longrightarrow> err = Some GREMLINP_ERROR_OUT_OF_MEMORY)
    \<and> (err = None \<longrightarrow> (\<exists>cs. c_names fl' = map Some cs
        \<and> named_in_turn s (scoped_names fl) cs s'
        \<and> distinct cs \<and> set cs \<inter> set (ns_names s) = {} \<and> set cs \<union> set (ns_names s) \<subseteq> set (ns_names s')
        \<and> ((\<forall>sn \<in> set (scoped_names fl). segments sn \<noteq> [] \<and> (\<forall>x \<in> set (segments sn). valid_identifier x))
            \<longrightarrow> (\<forall>c \<in> set cs. valid_identifier c \<and> \<not> gremlinc_is_c_keyword c
                  \<and> (in_runtime_namespace c \<longrightarrow> has_number_segment c)))))"
proof -
  obtain er es s1 p1 where a: "assign_enums (nl_enums fl) (s, p) = (er, es, (s1, p1))" by (metis surj_pair)
  note A = assign_enums_correct [OF a]
  show ?thesis
  proof (cases er)
    case (Some x)
    then have "err = Some x" "fl' = fl\<lparr>nl_enums := es\<rparr>"
      using assms a by (auto simp: gremlinc_assign_c_names_def Let_def)
    then show ?thesis using A Some by (simp add: without_c_names_def)
  next
    case None
    obtain er2 ms s2 p2 where b: "assign_messages (nl_messages fl) (s1, p1) = (er2, ms, (s2, p2))" by (metis surj_pair)
    note B = assign_messages_correct [OF b]
    have e: "err = er2" "fl' = fl\<lparr>nl_enums := es, nl_messages := ms\<rparr>" "s' = s2"
      using assms a b None by (auto simp: gremlinc_assign_c_names_def Let_def)
    have un: "without_c_names fl' = without_c_names fl" using A B e by (simp add: without_c_names_def)
    show ?thesis
    proof (cases err)
      case (Some x)
      then show ?thesis using un B e by simp
    next
      case err: None
      obtain cs where cs: "map ne_c_name es = map Some cs" "named_in_turn s (map ne_scoped_name (nl_enums fl)) cs s1"
        using A None by auto
      obtain ds where ds: "map nm_c_name ms = map Some ds" "named_in_turn s1 (map nm_scoped_name (nl_messages fl)) ds s2"
        using B err e by auto
      have ch: "named_in_turn s (scoped_names fl) (cs @ ds) s'"
        using named_in_turn_append [OF cs(2) ds(2)] e by (simp add: scoped_names_def)
      have "c_names fl' = map Some (cs @ ds)" using cs ds e by (simp add: c_names_def)
      then show ?thesis
        using un err ch named_in_turn_distinct [OF ch] named_in_turn_good [OF ch]
        by (auto simp: must_move_def simp del: map_append intro!: exI [of _ "cs @ ds"])
    qed
  qed
qed

text \<open>
  Two different types whose parts join to the same text, an enum with the name of a
  keyword and a message in the runtime's namespace.
\<close>

definition sample_enum_named :: "string list \<Rightarrow> gremlind_enum" where
  "sample_enum_named xs = \<lparr>ne_parsed = no_enum, ne_name = last xs, ne_values = [], ne_parent = None,
     ne_scoped_name = \<lparr>segments = xs, absolute = True\<rparr>, ne_c_name = None\<rparr>"

definition sample_message_named :: "string list \<Rightarrow> gremlind_message" where
  "sample_message_named xs = \<lparr>nm_parsed = no_message, nm_name = last xs, nm_fields = [], nm_parent = None,
     nm_scoped_name = \<lparr>segments = xs, absolute = True\<rparr>, nm_c_name = None, nm_c_reader_ok = None,
     nm_c_predeclared = False\<rparr>"

definition sample_types :: gremlind_file where
  "sample_types = \<lparr>nl_syntax = None, nl_edition = None, nl_package = None, nl_imports = [],
     nl_enums = [sample_enum_named [''int'']],
     nl_messages = map sample_message_named [[''A_B'', ''C''], [''A'', ''B_C''], [''gremlin'', ''x'']],
     nl_visible = [], nl_needs_math_h = False, nl_needs_string_h = False\<rparr>"

lemma sample_types_named:
  "(case gremlinc_assign_c_names (gremlinc_name_scope_init, sample_pool 0) sample_types of
     (err, fl, st) \<Rightarrow> err = None \<and> c_names fl = map Some [''int_'', ''A_B_C'', ''A_B_C_1'', ''gremlin_x_1''])"
proof -
  have kw: "gremlinc_is_c_keyword ''int''" "\<not> gremlinc_is_c_keyword ''A_B_C''" "\<not> gremlinc_is_c_keyword ''gremlin_x''"
    by code_simp+
  have ns: "\<not> must_move ''int_''" "\<not> must_move ''A_B_C''" "\<not> must_move ''A_B_C_1''"
    "must_move ''gremlin_x''" "\<not> must_move ''gremlin_x_1''"
    by code_simp+
  have n: "show_nat (Suc 0) = ''1''" by code_simp
  show ?thesis
    by (simp add: gremlinc_assign_c_names_def sample_types_def sample_enum_named_def sample_message_named_def
        gremlinc_cname_for_type_def gremlinc_name_scope_mangle_def arena_dup_with_suffix_def scope_register_def
        gremlinc_name_scope_init_def sample_pool_alloc align_up_def Let_def kw ns n c_str_id cname_loop.simps
        mangle_loop.simps c_names_def)
qed

lemma assign_c_names_correct_witness:
  "\<exists>fl s p cs. gremlinc_assign_c_names (gremlinc_name_scope_init, sample_pool 0) sample_types = (None, fl, (s, p))
     \<and> c_names fl = map Some [''int_'', ''A_B_C'', ''A_B_C_1'', ''gremlin_x_1'']
     \<and> without_c_names fl = without_c_names sample_types
     \<and> c_names fl = map Some cs \<and> distinct cs"
proof -
  obtain fl s p where a: "gremlinc_assign_c_names (gremlinc_name_scope_init, sample_pool 0) sample_types = (None, fl, (s, p))"
      "c_names fl = map Some [''int_'', ''A_B_C'', ''A_B_C_1'', ''gremlin_x_1'']"
    using sample_types_named by (auto split: prod.splits)
  then show ?thesis using assign_c_names_correct [OF a(1)] by blast
qed

end
