(* ===== verification/Front_End.thy ===== *)
theory Front_End
  imports Extend_File Type_Names
begin

text \<open>
  The passes in the order the generator runs them: \<open>gremlind_resolve_context_init\<close> and
  \<open>gremlind_build_all\<close> of \<open>descriptors/src/resolve.c\<close>, and the first half of
  \<open>run_pipeline\<close> of \<open>gremlinc-gen/src/main.c\<close>, from the sources to a tree with names,
  types and C names.  What each pass shows of its own step is put together here.
\<close>

section \<open>Building every source\<close>

definition gremlind_resolve_context_init :: "string list \<Rightarrow> gremlind_resolve_context" where
  "gremlind_resolve_context_init paths =
     \<lparr>rc_paths = paths, rc_files = None, rc_error = None, rc_failed_source_idx = 0, rc_error_offset = 0,
      rc_failed_import = None, rc_failed_field = None\<rparr>"

fun build_sources :: "nat list \<Rightarrow> gremlind_resolve_context \<Rightarrow> parser_buffer list \<Rightarrow> 'w pool \<Rightarrow> 'w source_pass" where
  "build_sources [] ctx bufs s = (None, ctx, bufs, s)"
| "build_sources (i # is) ctx bufs s =
     (case gremlind_build_file s (bufs ! i) of (r, b, s1) \<Rightarrow>
        let bufs1 = bufs[i := b] in
        (case r of
           Inl (e, error_offset) \<Rightarrow>
             (Some e, ctx\<lparr>rc_error := error_code e, rc_failed_source_idx := i, rc_error_offset := error_offset\<rparr>, bufs1, s1)
         | Inr f \<Rightarrow> build_sources is (set_file i f ctx) bufs1 s1))"

text \<open>
  The entries of the new array are \<open>None\<close> until they are set; in C they are not
  initialised, and none is read before.
\<close>

definition gremlind_build_all :: "gremlind_resolve_context \<Rightarrow> parser_buffer list \<Rightarrow> 'w pool \<Rightarrow> 'w source_pass" where
  "gremlind_build_all ctx bufs s =
     (let n = n_sources ctx in
      if n > 0 then
        (case pool_alloc (n * sizeof_pointer) s of (ok, s1) \<Rightarrow>
           if \<not> ok then (Some (Build_Error GREMLINP_ERROR_OUT_OF_MEMORY),
             ctx\<lparr>rc_error := Some GREMLINP_ERROR_OUT_OF_MEMORY\<rparr>, bufs, s1)
           else build_sources [0..<n] (ctx\<lparr>rc_files := Some (replicate n None)\<rparr>) bufs s1)
      else build_sources [0..<n] ctx bufs s)"

section \<open>The pipeline\<close>

text \<open>A pass on the tree alone, with the buffers beside it.\<close>

definition tree_pass :: "('w pool \<Rightarrow> 'w pass) \<Rightarrow> parser_buffer list \<Rightarrow> 'w pool \<Rightarrow> 'w source_pass" where
  "tree_pass run bufs s = (case run s of (err, ctx, s1) \<Rightarrow> (map_option Build_Error err, ctx, bufs, s1))"

text \<open>\<open>if ((err = ...)) goto fail;\<close>\<close>

definition then_pass :: "'w source_pass \<Rightarrow>
    (gremlind_resolve_context \<Rightarrow> parser_buffer list \<Rightarrow> 'w pool \<Rightarrow> 'w source_pass) \<Rightarrow> 'w source_pass" where
  "then_pass r k = (case r of (err, ctx, bufs, s) \<Rightarrow>
     if err \<noteq> None then (err, ctx, bufs, s) else k ctx bufs s)"

fun name_files :: "nat list \<Rightarrow> gremlind_resolve_context \<Rightarrow> 'w pool \<Rightarrow> 'w pass" where
  "name_files [] ctx s = (None, ctx, s)"
| "name_files (i # is) ctx s =
     (case gremlind_compute_scoped_names s (the (file_at ctx i)) of
        (Inl e, s1) \<Rightarrow> (Some e, ctx, s1)
      | (Inr f, s1) \<Rightarrow> name_files is (set_file i f ctx) s1)"

text \<open>From the paths and the buffers to a tree with resolved types.\<close>

definition front_end :: "string list \<Rightarrow> parser_buffer list \<Rightarrow> 'w pool \<Rightarrow> 'w source_pass" where
  "front_end paths bufs s =
     then_pass (gremlind_build_all (gremlind_resolve_context_init paths) bufs s) (\<lambda>ctx bufs s.
     then_pass (tree_pass (gremlind_link_imports ctx) bufs s) (\<lambda>ctx bufs s.
     then_pass (tree_pass (gremlind_check_no_cycles ctx) bufs s) (\<lambda>ctx bufs s.
     then_pass (tree_pass (name_files [0..<n_sources ctx] ctx) bufs s) (\<lambda>ctx bufs s.
     then_pass (tree_pass (gremlind_compute_visibility ctx) bufs s) (\<lambda>ctx bufs s.
     then_pass (gremlind_propagate_extends ctx bufs s) (\<lambda>ctx bufs s.
     tree_pass (gremlind_resolve_type_refs ctx) bufs s))))))"

text \<open>The C names of the types of all files, in one scope.\<close>

fun name_types :: "nat list \<Rightarrow> gremlind_resolve_context \<Rightarrow> 'w naming \<Rightarrow>
    gremlinp_parsing_error option \<times> gremlind_resolve_context \<times> 'w naming" where
  "name_types [] ctx st = (None, ctx, st)"
| "name_types (i # is) ctx st =
     (case gremlinc_assign_c_names st (the (file_at ctx i)) of (err, f, st1) \<Rightarrow>
        let ctx1 = set_file i f ctx in
        if err \<noteq> None then (err, ctx1, st1) else name_types is ctx1 st1)"

definition name_all_types :: "gremlind_resolve_context \<Rightarrow> 'w pool \<Rightarrow>
    gremlinp_parsing_error option \<times> gremlind_resolve_context \<times> 'w naming" where
  "name_all_types ctx s =
     (case gremlinc_name_scope_reserve_logic (gremlinc_name_scope_init, s) of (err, st) \<Rightarrow>
        if err \<noteq> None then (err, ctx, st) else name_types [0..<n_sources ctx] ctx st)"

lemma then_passE:
  assumes "then_pass r k = (None, ctx', bufs', s')"
  obtains ctx bufs s where "r = (None, ctx, bufs, s)" and "k ctx bufs s = (None, ctx', bufs', s')"
  using assms by (cases r) (auto simp: then_pass_def split: if_splits)

lemma tree_passE:
  assumes "tree_pass run bufs s = (None, ctx', bufs', s')"
  obtains "run s = (None, ctx', s')" and "bufs' = bufs"
  using assms by (auto simp: tree_pass_def split: prod.splits)

section \<open>What a pass keeps\<close>

definition keeps :: "(gremlind_file \<Rightarrow> 'a) \<Rightarrow> gremlind_resolve_context \<Rightarrow> gremlind_resolve_context \<Rightarrow> bool" where
  "keeps g ctx ctx' \<longleftrightarrow> rc_paths ctx' = rc_paths ctx \<and>
     (\<forall>i. map_option g (file_at ctx' i) = map_option g (file_at ctx i))"

lemma keeps_trans: "keeps g a b \<Longrightarrow> keeps g b c \<Longrightarrow> keeps g a c"
  by (simp add: keeps_def)

lemma updated_keeps: "updated upd A ctx ctx' \<Longrightarrow> (\<And>i f. g (upd i f) = g f) \<Longrightarrow> keeps g ctx ctx'"
  unfolding keeps_def
proof (intro conjI allI)
  fix i
  assume u: "updated upd A ctx ctx'" and g: "\<And>i f. g (upd i f) = g f"
  have "file_at ctx' i = (if i \<in> A then map_option (upd i) (file_at ctx i) else file_at ctx i)"
    using u unfolding updated_def by blast
  then show "map_option g (file_at ctx' i) = map_option g (file_at ctx i)"
    using g by (cases "file_at ctx i") simp_all
qed (simp add: updated_def)

lemma keeps_comp:
  assumes "keeps g ctx ctx'" and h: "\<And>f f'. g f' = g f \<Longrightarrow> h f' = h f"
  shows "keeps h ctx ctx'"
proof -
  have "map_option h (file_at ctx' i) = map_option h (file_at ctx i)" for i
  proof -
    have g: "map_option g (file_at ctx' i) = map_option g (file_at ctx i)"
      using assms(1) unfolding keeps_def by blast
    show ?thesis
    proof (cases "file_at ctx' i")
      case None
      then show ?thesis using g by simp
    next
      case (Some f')
      then obtain f where f: "file_at ctx i = Some f" "g f' = g f" using g by (cases "file_at ctx i") auto
      show ?thesis unfolding Some f(1) using h [OF f(2)] by simp
    qed
  qed
  then show ?thesis using assms(1) by (simp add: keeps_def)
qed

lemma same_tree_keeps: "same_tree ctx ctx' \<Longrightarrow> keeps strip_file ctx ctx'"
  by (simp add: same_tree_def keeps_def)

lemma keeps_None: "keeps g ctx ctx' \<Longrightarrow> file_at ctx' i = None \<longleftrightarrow> file_at ctx i = None"
  unfolding keeps_def by (metis option.map_disc_iff)

lemma keeps_file: "keeps g ctx ctx' \<Longrightarrow> file_at ctx i = Some f \<Longrightarrow> \<exists>f'. file_at ctx' i = Some f' \<and> g f' = g f"
  unfolding keeps_def by (metis map_option_eq_Some)

lemma keeps_succs:
  assumes "keeps nl_imports ctx ctx'"
  shows "import_succs ctx' = import_succs ctx" and "public_succs ctx' = public_succs ctx"
    and "imports_rel ctx' = imports_rel ctx"
proof -
  have n: "n_sources ctx' = n_sources ctx" using assms by (simp add: keeps_def)
  have t: "import_target ctx' imp = import_target ctx imp" for imp
    using keeps_None [OF assms] n by (simp add: import_target_def file_index_eq split: option.split)
  have c: "(case file_at ctx' v of None \<Rightarrow> [] | Some f \<Rightarrow> h (nl_imports f)) =
      (case file_at ctx v of None \<Rightarrow> [] | Some f \<Rightarrow> h (nl_imports f))"
    for v and h :: "gremlind_import list \<Rightarrow> nat option list"
  proof -
    have "map_option nl_imports (file_at ctx' v) = map_option nl_imports (file_at ctx v)"
      using assms by (simp add: keeps_def)
    then show ?thesis by (cases "file_at ctx' v"; cases "file_at ctx v") auto
  qed
  show i: "import_succs ctx' = import_succs ctx" and "public_succs ctx' = public_succs ctx"
    unfolding import_succs_def public_succs_def t by (rule ext, rule c)+
  show "imports_rel ctx' = imports_rel ctx"
    using edges_imports [of ctx'] edges_imports [of ctx] i n by simp
qed

section \<open>The passes one by one\<close>

text \<open>The file the builder makes of a text.\<close>

definition built_file :: "parser_buffer \<Rightarrow> gremlind_file" where
  "built_file b = resolve_packing (declared_file b) b"

lemma built_file_size: "length (nl_messages (built_file b)) = file_size b"
  by (simp add: built_file_def resolve_packing_def declared_file_def file_size_def split: prod.split)

lemma built_file_preordered: "preordered (built_file b)"
  unfolding built_file_def by (rule declared_preordered)

lemma same_windows_trans:
  "list_all2 same_window a b \<Longrightarrow> list_all2 same_window b c \<Longrightarrow> list_all2 same_window a c"
  by (simp add: list_all2_conv_all_nth same_window_def)

lemma build_sources_correct:
  "build_sources is ctx bufs s = (r, ctx', bufs', s') \<Longrightarrow> built ctx \<Longrightarrow> distinct is \<Longrightarrow>
   set is \<subseteq> {..<n_sources ctx} \<Longrightarrow> length bufs = n_sources ctx \<Longrightarrow>
   list_all2 same_window bufs bufs' \<and> r \<noteq> Some Overrun \<and>
   (r = None \<longrightarrow> built ctx' \<and> rc_paths ctx' = rc_paths ctx \<and>
      (\<forall>j. file_at ctx' j = (if j \<in> set is then Some (built_file (bufs ! j)) else file_at ctx j)))"
proof (induction "is" arbitrary: ctx bufs s)
  case Nil
  then show ?case by (simp add: list_all2_conv_all_nth same_window_def)
next
  case (Cons i "is")
  obtain q b s1 where g: "gremlind_build_file s (bufs ! i) = (q, b, s1)" by (metis surj_pair)
  note G = build_file_result [OF g]
  have i: "i < n_sources ctx" and l: "length bufs = n_sources ctx" using Cons.prems by simp_all
  have w: "list_all2 same_window bufs (bufs[i := b])"
    using G i l by (auto simp: list_all2_conv_all_nth nth_list_update same_window_def)
  show ?case
  proof (cases q)
    case (Inl x)
    then show ?thesis using Cons.prems(1) g G w by (cases x) auto
  next
    case (Inr f)
    let ?ctx = "set_file i f ctx"
    have c: "built ?ctx" "rc_paths ?ctx = rc_paths ctx"
      using Cons.prems(2) by (simp_all add: built_def set_file_def)
    have at: "file_at ?ctx j = (if j = i then Some (built_file (bufs ! i)) else file_at ctx j)" for j
      using Cons.prems(2) i G Inr by (auto simp: built_def set_file_def built_file_def nth_list_update)
    have "build_sources is ?ctx (bufs[i := b]) s1 = (r, ctx', bufs', s')"
      using Cons.prems(1) g Inr by (simp add: Let_def)
    from Cons.IH [OF this c(1)] Cons.prems(3,4) l c(2)
    have R: "list_all2 same_window (bufs[i := b]) bufs' \<and> r \<noteq> Some Overrun \<and>
       (r = None \<longrightarrow> built ctx' \<and> rc_paths ctx' = rc_paths ctx \<and>
          (\<forall>j. file_at ctx' j = (if j \<in> set is then Some (built_file (bufs[i := b] ! j)) else file_at ?ctx j)))"
      by simp
    have "list_all2 same_window bufs bufs'" using same_windows_trans [OF w conjunct1 [OF R]] .
    moreover have "file_at ctx' j = (if j \<in> set (i # is) then Some (built_file (bufs ! j)) else file_at ctx j)"
      if "r = None" for j
    proof (cases "j \<in> set is")
      case True
      then have "j \<noteq> i" using Cons.prems(3) by auto
      then show ?thesis using R that True by simp
    next
      case False
      then show ?thesis using R that at [of j] by simp
    qed
    ultimately show ?thesis using R by blast
  qed
qed

lemma build_all_correct:
  assumes "gremlind_build_all (gremlind_resolve_context_init paths) bufs s = (r, ctx, bufs', s')"
    and "paths \<noteq> []" and "length bufs = length paths"
  shows "list_all2 same_window bufs bufs' \<and> r \<noteq> Some Overrun \<and>
    (r = None \<longrightarrow> all_built ctx \<and> rc_paths ctx = paths \<and>
       (\<forall>i < length paths. file_at ctx i = Some (built_file (bufs ! i))))"
proof -
  let ?ctx = "(gremlind_resolve_context_init paths)\<lparr>rc_files := Some (replicate (length paths) None)\<rparr>"
  obtain ok s1 where a: "pool_alloc (length paths * sizeof_pointer) s = (ok, s1)" by (metis surj_pair)
  have p: "rc_paths (gremlind_resolve_context_init paths) = paths" by (simp add: gremlind_resolve_context_init_def)
  show ?thesis
  proof (cases ok)
    case False
    then show ?thesis using assms a p
      by (auto simp: gremlind_build_all_def Let_def same_window_def intro!: list_all2_refl)
  next
    case True
    then have "build_sources [0..<length paths] ?ctx bufs s1 = (r, ctx, bufs', s')"
      using assms(1,2) a p by (simp add: gremlind_build_all_def Let_def)
    from build_sources_correct [OF this] assms(3) p show ?thesis
      by (auto simp: built_def all_built_def atLeast0LessThan)
  qed
qed

lemma compute_scoped_names_Inr:
  assumes "gremlind_compute_scoped_names s fl = (Inr fl', s')" and "preordered fl"
  shows "fl' = named_file fl"
proof -
  have "[] \<notin> set (package_parts fl)"
  proof
    assume bad: "[] \<in> set (package_parts fl)"
    then obtain name where n: "nl_package fl = Some name" "name \<noteq> []" "[] \<in> set (name_parts name)"
      by (cases "nl_package fl") (auto simp: package_parts_def split: if_splits)
    then show False using assms(1)
      by (auto simp: gremlind_compute_scoped_names_def scoped_name_parse_eq with_alloc_def split: prod.splits if_splits)
  qed
  from compute_scoped_names_delivers [OF assms(2) this, of s] assms(1) show ?thesis by simp
qed

lemma name_files_correct:
  "name_files is ctx s = (None, ctx', s') \<Longrightarrow> built ctx \<Longrightarrow> distinct is \<Longrightarrow> set is \<subseteq> {..<n_sources ctx} \<Longrightarrow>
   \<forall>i \<in> set is. \<exists>f. file_at ctx i = Some f \<and> preordered f \<Longrightarrow> updated (\<lambda>_. named_file) (set is) ctx ctx'"
proof (induction "is" arbitrary: ctx s)
  case Nil
  then show ?case by (simp add: updated_empty)
next
  case (Cons i "is")
  obtain f where f: "file_at ctx i = Some f" "preordered f" using Cons.prems(5) by auto
  obtain f' s1 where g: "gremlind_compute_scoped_names s f = (Inr f', s1)"
      and r: "name_files is (set_file i f' ctx) s1 = (None, ctx', s')"
    using Cons.prems(1) f(1) by (auto split: prod.splits sum.splits)
  have f': "f' = named_file f" using compute_scoped_names_Inr [OF g f(2)] .
  have u: "updated (\<lambda>_. named_file) {i} ctx (set_file i f' ctx)"
    unfolding f' by (rule updated_set_file) (use Cons.prems f in auto)
  have "updated (\<lambda>_. named_file) (set is) (set_file i f' ctx) ctx'"
    using Cons.IH [OF r updated_built [OF u Cons.prems(2)]] Cons.prems(3-5) u by (auto simp: updated_def)
  from updated_trans [OF u this] Cons.prems(3) show ?case by simp
qed

lemma resolve_files_paths: "resolve_files is ctx s = (r, ctx', s') \<Longrightarrow> rc_paths ctx' = rc_paths ctx"
  by (induction "is" arbitrary: ctx s) (auto simp: Let_def failed_def set_file_def split: option.splits prod.splits)

text \<open>The fields a message has stay where they are.\<close>

lemma add_fields_extends:
  assumes "file_at ctx i = Some f" and "m < length (nl_messages f)"
  shows "\<exists>f' ys. file_at (add_fields t fds ctx) i = Some f' \<and> length (nl_messages f') = length (nl_messages f) \<and>
     nm_fields (nl_messages f' ! m) = nm_fields (nl_messages f ! m) @ ys"
proof -
  obtain j k where t: "t = (j, k)" by (cases t)
  show ?thesis
  proof (cases "fds = [] \<or> i \<noteq> j \<or> \<not> j < length (the (rc_files ctx))")
    case True
    then have "file_at (add_fields t fds ctx) i = file_at ctx i"
      by (auto simp: add_fields_def t set_fields_def set_file_def Let_def list_update_beyond not_less)
    then show ?thesis using assms by simp
  next
    case False
    then have "file_at (add_fields t fds ctx) i =
        Some (f\<lparr>nl_messages := (nl_messages f)[k := (nl_messages f ! k)\<lparr>nm_fields := nm_fields (nl_messages f ! k) @ fds\<rparr>]\<rparr>)"
      using assms(1) by (simp add: add_fields_def t set_fields_def set_file_def target_fields_def Let_def)
    then show ?thesis using assms(2) by (cases "k = m") auto
  qed
qed

lemma extended_extends:
  "extended C xs ctx ctx' \<Longrightarrow> file_at ctx i = Some f \<Longrightarrow> m < length (nl_messages f) \<Longrightarrow>
   \<exists>f' ys. file_at ctx' i = Some f' \<and> nm_fields (nl_messages f' ! m) = nm_fields (nl_messages f ! m) @ ys"
proof (induction arbitrary: f rule: extended.induct)
  case (extended_none ctx)
  then show ?case by simp
next
  case (extended_one x t xs ctx ctx')
  obtain f1 ys where f1: "file_at (add_fields t (xt_fields x) ctx) i = Some f1" "m < length (nl_messages f1)"
      "nm_fields (nl_messages f1 ! m) = nm_fields (nl_messages f ! m) @ ys"
    using add_fields_extends [OF extended_one.prems] extended_one.prems(2) by metis
  then show ?case using extended_one.IH [OF f1(1,2)] by auto
qed

section \<open>The passes together\<close>

text \<open>
  The tree before the extensions: file \<open>i\<close> is the one the builder makes, with its
  imports linked, its types named and what it sees.
\<close>

definition seen_file :: "gremlind_resolve_context \<Rightarrow> nat \<Rightarrow> gremlind_file \<Rightarrow> gremlind_file \<Rightarrow> bool" where
  "seen_file ctx i d f \<longleftrightarrow>
     nl_messages f = nl_messages (named_file d) \<and>
     map ni_path (nl_imports f) = map ni_path (nl_imports d) \<and>
     (\<forall>imp \<in> set (nl_imports f). \<exists>j < n_sources ctx. ni_resolved imp = Some j \<and> rc_paths ctx ! j = ni_path imp) \<and>
     set (nl_visible f) = insert i ((public_rel ctx)\<^sup>* `` direct_imports ctx i)"

lemma linked_tree:
  assumes "all_built ctx" and "gremlind_link_imports ctx s = (None, ctx', s')"
  shows "updated (link_all ctx) {..<n_sources ctx} ctx ctx' \<and>
    (\<forall>i < n_sources ctx. \<forall>f. file_at ctx i = Some f \<longrightarrow> list_all (found ctx) (nl_imports f))"
proof -
  have b: "built ctx" using assms(1) by (simp add: all_built_def)
  then have "link_files [0..<n_sources ctx] ctx s = (None, ctx', s')"
    using assms(2) built_not_unbuilt by (simp add: gremlind_link_imports_def)
  then show ?thesis using link_files_updates [OF b, of "[0..<n_sources ctx]" s] by (simp add: atLeast0LessThan)
qed

lemma seen_tree:
  assumes "built ctx" and "gremlind_compute_visibility ctx s = (None, ctx', s')"
  shows "updated (see ctx) {..<n_sources ctx} ctx ctx'"
proof -
  have "visibility_loop [0..<n_sources ctx] ctx s = (None, ctx', s')"
    using assms built_not_unbuilt by (simp add: gremlind_compute_visibility_def)
  then show ?thesis using visibility_loop_updates [OF assms(1), of "[0..<n_sources ctx]" s] by (simp add: atLeast0LessThan)
qed

lemma rels_cong:
  assumes "keeps nl_imports ctx ctx'"
  shows "public_rel ctx' = public_rel ctx" and "direct_imports ctx' = direct_imports ctx"
  using keeps_succs [OF assms] by (simp_all add: public_rel_def direct_imports_def fun_eq_iff)

lemma visible_less: "t \<in> (public_rel ctx)\<^sup>* `` direct_imports ctx i \<Longrightarrow> t < n_sources ctx"
proof -
  assume "t \<in> (public_rel ctx)\<^sup>* `` direct_imports ctx i"
  then obtain u where u: "u \<in> direct_imports ctx i" "(u, t) \<in> (public_rel ctx)\<^sup>*" by blast
  have "u < n_sources ctx"
    using u(1) import_target_less by (auto simp: direct_imports_def import_succs_def split: option.splits)
  with u(2) show ?thesis
    by (induction rule: rtrancl_induct) (auto simp: public_rel_def dest: public_succs_less)
qed

lemma ready_tree:
  assumes B: "gremlind_build_all (gremlind_resolve_context_init paths) bufs s = (None, c0, bufs0, s0)"
    and L: "gremlind_link_imports c0 s0 = (None, c1, s1)"
    and K: "gremlind_check_no_cycles c1 s1 = (None, c2, s2)"
    and N: "name_files [0..<n_sources c2] c2 s2 = (None, c3, s3)"
    and V: "gremlind_compute_visibility c3 s3 = (None, c4, s4)"
    and paths: "paths \<noteq> []" "length bufs = length paths"
  shows "rc_paths c4 = paths" and "built c4" and "acyclic (imports_rel c4)"
    and "i < length paths \<Longrightarrow> \<exists>f. file_at c4 i = Some f \<and> seen_file c4 i (built_file (bufs ! i)) f"
proof -
  let ?n = "length paths"
  have c0: "all_built c0" "built c0" "rc_paths c0 = paths" "\<And>i. i < ?n \<Longrightarrow> file_at c0 i = Some (built_file (bufs ! i))"
    using build_all_correct [OF B paths] by (auto simp: all_built_def)
  have u1: "updated (link_all c0) {..<?n} c0 c1"
    and fd: "\<And>i imp. i < ?n \<Longrightarrow> imp \<in> set (nl_imports (built_file (bufs ! i))) \<Longrightarrow> found c0 imp"
    using linked_tree [OF c0(1) L] c0(3,4) by (auto simp: list_all_iff)
  have c1: "built c1" "rc_paths c1 = paths" using u1 c0 by (auto simp: updated_def built_def)
  have c2: "c2 = c1" "acyclic (imports_rel c1)"
    using check_no_cycles_decides [OF built_not_unbuilt [OF c1(1)], of s1] K by simp_all
  have at1: "file_at c1 i = Some (link_all c0 i (built_file (bufs ! i)))" if "i < ?n" for i
    using u1 c0(4) that by (simp add: updated_def)
  have "preordered (link_all c0 i (built_file (bufs ! i)))" for i
    using built_file_preordered [of "bufs ! i"] by (simp add: preordered_def)
  then have u3: "updated (\<lambda>_. named_file) {..<?n} c1 c3"
    using name_files_correct [OF N] c1 c2 at1 by (simp add: atLeast0LessThan)
  then have c3: "built c3" "rc_paths c3 = paths" using c1 by (auto simp: updated_def built_def)
  have u4: "updated (see c3) {..<?n} c3 c4" using seen_tree [OF c3(1) V] c3(2) by simp
  then show b4: "built c4" and p4: "rc_paths c4 = paths" using c3 by (auto simp: updated_def built_def)
  have k3: "keeps nl_imports c1 c3" using u3 by (rule updated_keeps) (simp add: named_file_def)
  have k4: "keeps nl_imports c3 c4" using u4 by (rule updated_keeps) simp
  show "acyclic (imports_rel c4)" using c2(2) keeps_succs(3) [OF k3] keeps_succs(3) [OF k4] by simp
  show "\<exists>f. file_at c4 i = Some f \<and> seen_file c4 i (built_file (bufs ! i)) f" if i: "i < length paths"
  proof -
    let ?d = "built_file (bufs ! i)" and ?vs = "visible_files c3 i"
    let ?f = "(named_file (link_all c0 i ?d))\<lparr>nl_visible := ?vs\<rparr>"
    have at: "file_at c4 i = Some ?f" using u3 u4 at1 i by (simp add: updated_def)
    have vs: "set ?vs = insert i ((public_rel c4)\<^sup>* `` direct_imports c4 i)"
      using visible_files_eq [of c3 i] rels_cong [OF k4] by simp
    have imps: "\<exists>j < n_sources c4. ni_resolved imp = Some j \<and> rc_paths c4 ! j = ni_path imp"
      if linked: "imp \<in> set (map (link c0) (nl_imports ?d))" for imp
    proof -
      obtain imp0 where imp0: "imp0 \<in> set (nl_imports ?d)" "imp = link c0 imp0" using linked by auto
      then have "found c0 imp0" using fd [OF i] by blast
      then show ?thesis using lookup_cases [OF c0(1), of "ni_path imp0"] c0(3) p4 imp0(2)
        by (auto simp: found_def link_def)
    qed
    have "nl_messages ?f = nl_messages (named_file ?d)" "nl_imports ?f = map (link c0) (nl_imports ?d)"
      by (simp_all add: named_file_def package_parts_def)
    then have "seen_file c4 i ?d ?f"
      using imps vs by (simp add: seen_file_def link_def)
    then show ?thesis using at by blast
  qed
qed

text \<open>File \<open>i\<close> at the end of the front end, \<open>d\<close> being what the builder made of its text.\<close>

definition finished_file :: "gremlind_resolve_context \<Rightarrow> nat \<Rightarrow> gremlind_file \<Rightarrow> gremlind_file \<Rightarrow> bool" where
  "finished_file ctx i d f \<longleftrightarrow>
     map nm_name (nl_messages f) = map nm_name (nl_messages d) \<and>
     map (segments \<circ> nm_scoped_name) (nl_messages f) =
       map (\<lambda>m. package_parts d @ message_path (nl_messages d) m) [0..<length (nl_messages d)] \<and>
     (\<forall>m < length (nl_messages d). \<exists>ys. map nf_name (nm_fields (nl_messages f ! m)) =
        map nf_name (nm_fields (nl_messages d ! m)) @ ys) \<and>
     map ni_path (nl_imports f) = map ni_path (nl_imports d) \<and>
     (\<forall>imp \<in> set (nl_imports f). \<exists>j < n_sources ctx. ni_resolved imp = Some j \<and> rc_paths ctx ! j = ni_path imp) \<and>
     set (nl_visible f) = insert i ((public_rel ctx)\<^sup>* `` direct_imports ctx i) \<and>
     (\<forall>msg \<in> set (nl_messages f). \<forall>fd \<in> set (nm_fields msg). field_resolved ctx f msg fd (nf_type fd))"

lemma file_resolved_fields:
  assumes "file_resolved ctx f f'"
  shows "nl_imports f' = nl_imports f \<and> nl_visible f' = nl_visible f \<and>
    length (nl_messages f') = length (nl_messages f) \<and>
    (\<forall>m < length (nl_messages f). nm_name (nl_messages f' ! m) = nm_name (nl_messages f ! m) \<and>
      nm_scoped_name (nl_messages f' ! m) = nm_scoped_name (nl_messages f ! m) \<and>
      map nf_name (nm_fields (nl_messages f' ! m)) = map nf_name (nm_fields (nl_messages f ! m))) \<and>
    (\<forall>msg \<in> set (nl_messages f'). \<forall>fd \<in> set (nm_fields msg). field_resolved ctx f' msg fd (nf_type fd))"
proof -
  obtain msgs where f': "f' = f\<lparr>nl_messages := msgs\<rparr>" and all: "list_all2 (fields_resolved ctx f) (nl_messages f) msgs"
    using assms by (auto simp: file_resolved_def)
  have one: "nm_name m' = nm_name m \<and> nm_scoped_name m' = nm_scoped_name m \<and>
      map nf_name (nm_fields m') = map nf_name (nm_fields m) \<and>
      (\<forall>fd \<in> set (nm_fields m'). field_resolved ctx f' m' fd (nf_type fd))" if r: "fields_resolved ctx f m m'" for m m'
  proof -
    obtain ts where ts: "length ts = length (nm_fields m)"
        "m' = m\<lparr>nm_fields := map2 (\<lambda>fd t. fd\<lparr>nf_type := t\<rparr>) (nm_fields m) ts\<rparr>"
        "list_all2 (field_resolved ctx f m) (nm_fields m) ts"
      using r by (auto simp: fields_resolved_def)
    have "map nf_name (nm_fields m') = map nf_name (nm_fields m)"
      using ts(1,2) by (simp add: list_eq_iff_nth_eq)
    moreover have "field_resolved ctx f' m' fd (nf_type fd)" if "fd \<in> set (nm_fields m')" for fd
    proof -
      obtain j where j: "j < length ts" "fd = (nm_fields m ! j)\<lparr>nf_type := ts ! j\<rparr>"
        using \<open>fd \<in> set (nm_fields m')\<close> ts(1,2) by (auto simp: in_set_conv_nth)
      have "field_resolved ctx f m (nm_fields m ! j) (ts ! j)" using ts(1,3) j(1) by (simp add: list_all2_conv_all_nth)
      then show ?thesis
        by (simp add: j(2) ts(2) f' field_resolved_def field_scope_def field_visible_def Let_def cong: option.case_cong)
    qed
    ultimately show ?thesis using ts(2) by simp
  qed
  have nth: "\<forall>m < length (nl_messages f). fields_resolved ctx f (nl_messages f ! m) (msgs ! m)"
    and len: "length msgs = length (nl_messages f)"
    using all by (auto simp: list_all2_conv_all_nth)
  have names: "\<forall>m < length (nl_messages f). nm_name (msgs ! m) = nm_name (nl_messages f ! m) \<and>
      nm_scoped_name (msgs ! m) = nm_scoped_name (nl_messages f ! m) \<and>
      map nf_name (nm_fields (msgs ! m)) = map nf_name (nm_fields (nl_messages f ! m))"
    using nth one by blast
  have "\<exists>m. fields_resolved ctx f m msg" if "msg \<in> set msgs" for msg
    using nth len that by (auto simp: in_set_conv_nth)
  then have "\<forall>msg \<in> set msgs. \<forall>fd \<in> set (nm_fields msg). field_resolved ctx f' msg fd (nf_type fd)"
    using one by blast
  then show ?thesis using names len by (simp add: f')
qed

lemma then_pass_cases:
  assumes "then_pass r k = (err, ctx', bufs', s')"
  shows "(\<exists>e. err = Some e \<and> r = (Some e, ctx', bufs', s')) \<or>
    (\<exists>ctx bufs s. r = (None, ctx, bufs, s) \<and> k ctx bufs s = (err, ctx', bufs', s'))"
  using assms by (cases r) (auto simp: then_pass_def split: if_splits)

lemma tree_pass_cases: "tree_pass run bufs s = (err, ctx', bufs', s') \<Longrightarrow> err \<noteq> Some Overrun"
  by (auto simp: tree_pass_def split: prod.splits)

lemma front_end_imports:
  assumes "rc_paths c4 = paths" and ext: "same_tree c4 c5"
    and types: "\<And>j. if j < length paths then rel_option (file_resolved c5) (file_at c5 j) (file_at c6 j)
        else file_at c6 j = file_at c5 j" "rc_paths c6 = paths"
  shows "keeps nl_imports c4 c6"
proof -
  have "keeps nl_imports c5 c6"
    unfolding keeps_def
  proof (intro conjI allI)
    show "rc_paths c6 = rc_paths c5" using assms(1) ext types(2) by (simp add: same_tree_def)
    fix j
    show "map_option nl_imports (file_at c6 j) = map_option nl_imports (file_at c5 j)"
      using types(1) [of j] file_resolved_fields
      by (cases "j < length paths"; cases "file_at c5 j"; cases "file_at c6 j") auto
  qed
  moreover have "keeps nl_imports c4 c5"
    by (rule keeps_comp [OF same_tree_keeps [OF ext]]) (use strip_fileD in blast)
  ultimately show ?thesis using keeps_trans by blast
qed

lemma front_end_file:
  assumes four: "built c4" "rc_paths c4 = paths" "seen_file c4 i (built_file b) f4" "file_at c4 i = Some f4"
    and ext: "same_tree c4 c5" "extended c4 xs c4 c5"
    and types: "\<And>j. if j < length paths then rel_option (file_resolved c5) (file_at c5 j) (file_at c6 j)
        else file_at c6 j = file_at c5 j" "rc_paths c6 = paths"
    and i: "i < length paths"
  shows "\<exists>f. file_at c6 i = Some f \<and> finished_file c6 i (built_file b) f"
proof -
  let ?d = "built_file b"
  obtain f5 where f5: "file_at c5 i = Some f5" "strip_file f5 = strip_file f4"
    using keeps_file [OF same_tree_keeps [OF ext(1)] four(4)] by blast
  obtain f6 where f6: "file_at c6 i = Some f6" and r: "file_resolved c5 f5 f6"
    using types(1) [of i] f5(1) i by (auto simp: option_rel_Some1)
  note s = strip_fileD [OF f5(2)] and R = file_resolved_fields [OF r]
  have names5: "map nm_name (nl_messages f5) = map nm_name (nl_messages f4)"
  proof -
    have "map nm_name (nl_messages g) = map nm_name (nl_messages (strip_file g))" for g
      by (simp add: strip_file_def o_def)
    then show ?thesis using f5(2) by metis
  qed
  have m4: "nl_messages f4 = map (named_message (package_parts ?d) (nl_messages ?d)) [0..<length (nl_messages ?d)]"
    using four(3) by (simp add: seen_file_def named_file_def)
  have len: "length (nl_messages f6) = length (nl_messages ?d)" "length (nl_messages f5) = length (nl_messages ?d)"
    using R s m4 by simp_all
  have nm: "nm_name (nl_messages f6 ! m) = nm_name (nl_messages ?d ! m)"
      "nm_scoped_name (nl_messages f6 ! m) = \<lparr>segments = package_parts ?d @ message_path (nl_messages ?d) m, absolute = True\<rparr>"
    if "m < length (nl_messages ?d)" for m
  proof -
    have "nm_name (nl_messages f5 ! m) = nm_name (nl_messages f4 ! m)"
      "nm_scoped_name (nl_messages f5 ! m) = nm_scoped_name (nl_messages f4 ! m)"
      using map_eq_nth [OF names5] map_eq_nth [of nm_scoped_name "nl_messages f5" "nl_messages f4"] s that m4 by auto
    then show "nm_name (nl_messages f6 ! m) = nm_name (nl_messages ?d ! m)"
      "nm_scoped_name (nl_messages f6 ! m) = \<lparr>segments = package_parts ?d @ message_path (nl_messages ?d) m, absolute = True\<rparr>"
      using R that len m4 by (simp_all add: named_message_def)
  qed
  have fields: "\<exists>ys. map nf_name (nm_fields (nl_messages f6 ! m)) = map nf_name (nm_fields (nl_messages ?d ! m)) @ ys"
    if m: "m < length (nl_messages ?d)" for m
  proof -
    obtain f' ys where "file_at c5 i = Some f'" "nm_fields (nl_messages f' ! m) = nm_fields (nl_messages f4 ! m) @ ys"
      using extended_extends [OF ext(2) four(4), of m] m m4 by auto
    then show ?thesis using f5(1) R m len m4 by (simp add: named_message_def)
  qed
  have resolved: "field_resolved c6 = field_resolved c5"
  proof -
    have "same_names c5 c6"
      unfolding same_names_def
    proof
      fix j
      show "map nm_scoped_name (nl_messages (the (file_at c6 j))) = map nm_scoped_name (nl_messages (the (file_at c5 j))) \<and>
         nl_enums (the (file_at c6 j)) = nl_enums (the (file_at c5 j)) \<and>
         nl_visible (the (file_at c6 j)) = nl_visible (the (file_at c5 j))"
        using types(1) [of j] file_resolved_names
        by (cases "j < length paths"; cases "file_at c5 j"; cases "file_at c6 j") auto
    qed
    then show ?thesis by (rule same_names_field_resolved)
  qed
  have n: "n_sources c6 = n_sources c4" "rc_paths c6 = rc_paths c4" using four(2) types(2) by simp_all
  have k6: "keeps nl_imports c4 c6" using front_end_imports [OF four(2) ext(1) types] .
  have imps: "nl_imports f6 = nl_imports f4" "nl_visible f6 = nl_visible f4" using R s by simp_all
  have "finished_file c6 i ?d f6"
    unfolding finished_file_def
  proof (intro conjI)
    show "map nm_name (nl_messages f6) = map nm_name (nl_messages ?d)"
      using nm len by (simp add: list_eq_iff_nth_eq)
    show "map (segments \<circ> nm_scoped_name) (nl_messages f6) =
       map (\<lambda>m. package_parts ?d @ message_path (nl_messages ?d) m) [0..<length (nl_messages ?d)]"
      by (rule nth_equalityI) (use nm len in simp_all)
    show "set (nl_visible f6) = insert i ((public_rel c6)\<^sup>* `` direct_imports c6 i)"
      using four(3) imps rels_cong [OF k6] by (simp add: seen_file_def)
    show "\<forall>imp \<in> set (nl_imports f6). \<exists>j < n_sources c6. ni_resolved imp = Some j \<and> rc_paths c6 ! j = ni_path imp"
      "map ni_path (nl_imports f6) = map ni_path (nl_imports ?d)"
      using four(3) imps n by (simp_all add: seen_file_def)
  qed (use fields R resolved in auto)
  then show ?thesis using f6 by blast
qed

text \<open>What holds after the passes; the theorem below says what it means.\<close>

lemma front_end_finished:
  assumes "front_end paths bufs s = (err, ctx, bufs', s')" and "paths \<noteq> []" and "length bufs = length paths"
    and "\<forall>b \<in> set bufs. pb_offset b = 0"
  shows "err \<noteq> Some Overrun \<and> (err = None \<longrightarrow> rc_paths ctx = paths \<and> acyclic (imports_rel ctx) \<and>
    (\<forall>i < length paths. \<exists>f. file_at ctx i = Some f \<and> finished_file ctx i (built_file (bufs ! i)) f))"
proof -
  let ?goal = ?thesis
  obtain e0 c0 bufs0 s0 where B: "gremlind_build_all (gremlind_resolve_context_init paths) bufs s = (e0, c0, bufs0, s0)"
    by (metis surj_pair)
  note W = build_all_correct [OF B assms(2,3)]
  show ?goal
  proof (cases e0)
    case (Some e)
    then show ?thesis using assms(1) B W by (auto simp: front_end_def then_pass_def)
  next
    case None
    note B = B [unfolded None]
    obtain e1 c1 s1 where L: "gremlind_link_imports c0 s0 = (e1, c1, s1)" by (metis surj_pair)
    obtain e2 c2 s2 where K: "gremlind_check_no_cycles c1 s1 = (e2, c2, s2)" by (metis surj_pair)
    obtain e3 c3 s3 where N: "name_files [0..<n_sources c2] c2 s2 = (e3, c3, s3)" by (metis surj_pair)
    obtain e4 c4 s4 where V: "gremlind_compute_visibility c3 s3 = (e4, c4, s4)" by (metis surj_pair)
    obtain e5 c5 bufs5 s5 where X: "gremlind_propagate_extends c4 bufs0 s4 = (e5, c5, bufs5, s5)" by (metis surj_pair)
    obtain e6 c6 s6 where T: "gremlind_resolve_type_refs c5 s5 = (e6, c6, s6)" by (metis surj_pair)
    note run = assms(1) [unfolded front_end_def B then_pass_def tree_pass_def L prod.case]
    show ?thesis
    proof (cases "e1 = None \<and> e2 = None \<and> e3 = None \<and> e4 = None")
      case False
      then have "\<exists>x. err = Some (Build_Error x)"
        using run K N V by (cases e1; cases e2; cases e3; cases e4) auto
      then show ?thesis by auto
    next
      case True
      then have nn: "e1 = None" "e2 = None" "e3 = None" "e4 = None" by simp_all
      note R = ready_tree [OF B L [unfolded nn] K [unfolded nn] N [unfolded nn] V [unfolded nn] assms(2,3)]
      have ready: "pass_ready c4"
        unfolding pass_ready_def
      proof (intro conjI allI impI)
        fix i assume i: "i < n_sources c4"
        then obtain f where f: "file_at c4 i = Some f" "seen_file c4 i (built_file (bufs ! i)) f" using R(1,4) by auto
        then show "file_at c4 i \<noteq> None" by simp
        show "set (nl_visible (the (file_at c4 i))) \<subseteq> {..<n_sources c4}"
          using f i visible_less [of _ c4 i] by (auto simp: seen_file_def)
      qed (use R(2) in \<open>simp_all add: built_def\<close>)
      have size: "file_size (rewind 0 (bufs0 ! i)) \<le> length (nl_messages (the (file_at c4 i)))" if i: "i < n_sources c4" for i
      proof -
        have i': "i < length paths" using i R(1) by simp
        then have "same_window (bufs ! i) (bufs0 ! i)" using W assms(3) by (simp add: list_all2_conv_all_nth)
        moreover have "pb_offset (bufs ! i) = 0" using i' assms(3,4) by simp
        ultimately have "rewind 0 (bufs0 ! i) = bufs ! i" using same_window_rewind by metis
        then show ?thesis using R(4) [OF i'] built_file_size [of "bufs ! i"]
          by (auto simp: seen_file_def named_file_def)
      qed
      have P: "same_tree c4 c5" "e5 \<noteq> Some Overrun" "e5 = None \<longrightarrow> (\<exists>xs. extended c4 xs c4 c5)"
        using propagate_extends_pass [OF ready _ X] size by (auto split: option.splits)
      note run = run [unfolded K N V X T nn prod.case, simplified]
      show ?thesis
      proof (cases "e5 = None \<and> e6 = None")
        case False
        then have "err \<noteq> None \<and> err \<noteq> Some Overrun" using run P(2) T by (cases e5; cases e6) auto
        then show ?thesis by auto
      next
        case True
        then have ok: "e5 = None" "e6 = None" "err = None" "ctx = c6" using run T by auto
        obtain xs where xs: "extended c4 xs c4 c5" using P(3) ok by blast
        have p5: "rc_paths c5 = paths" "built c5" using P(1) R(1,2) by (auto simp: same_tree_def built_def)
        have res: "resolve_files [0..<length paths] c5 s5 = (None, c6, s6)"
          using T ok p5 built_not_unbuilt [OF p5(2)] by (simp add: gremlind_resolve_type_refs_def)
        have p6: "rc_paths c6 = paths" using resolve_files_paths [OF res] p5 by simp
        have types: "if j < length paths then rel_option (file_resolved c5) (file_at c5 j) (file_at c6 j)
            else file_at c6 j = file_at c5 j" for j
          using resolve_files_None [OF p5(2) _ _ res] p5(1) by (simp add: atLeast0LessThan)
        have finished: "\<exists>f. file_at c6 i = Some f \<and> finished_file c6 i (built_file (bufs ! i)) f" if i: "i < length paths" for i
          using front_end_file [OF R(2,1) _ _ P(1) xs types p6 i] R(4) [OF i] by blast
        have "imports_rel c6 = imports_rel c4"
          using front_end_imports [OF R(1) P(1) types p6] keeps_succs by blast
        then show ?thesis using R(3) p6 finished ok by simp
      qed
    qed
  qed
qed


section \<open>An example\<close>

text \<open>\<open>message A{int32 x=1;}\<close> as the only source, at three stages.\<close>

definition small_file :: "string list \<Rightarrow> nat list \<Rightarrow> gremlind_type_ref \<Rightarrow> gremlind_file" where
  "small_file segs visible t = \<lparr>nl_syntax = None, nl_edition = None, nl_package = None, nl_imports = [], nl_enums = [],
     nl_messages = [\<lparr>nm_parsed = \<lparr>mg_name = \<lparr>span_start = 8, span_length = 1\<rparr>, mg_body_start = 10, mg_body_end = 20,
          mg_start = 0, mg_end = 21\<rparr>,
        nm_name = ''A'',
        nm_fields = [\<lparr>nf_name = ''x'', nf_label = GREMLINP_FIELD_LABEL_NONE, nf_index = 1,
          nf_written = Written_Named ''int32'', nf_options = \<lparr>ol_start = 0, ol_end = 0, ol_count = 0\<rparr>, nf_type = t,
          nf_default = None, nf_packing = GREMLIND_PACKING_EXPANDED, nf_origin_file = None, nf_origin_scope = None\<rparr>],
        nm_parent = None, nm_scoped_name = \<lparr>segments = segs, absolute = segs \<noteq> []\<rparr>, nm_c_name = None,
        nm_c_reader_ok = None, nm_c_predeclared = False\<rparr>],
     nl_visible = visible, nl_needs_math_h = False, nl_needs_string_h = False\<rparr>"

definition small_ctx :: "gremlind_file \<Rightarrow> gremlind_resolve_context" where
  "small_ctx f = (gremlind_resolve_context_init [''m.proto''])\<lparr>rc_files := Some [Some f]\<rparr>"

lemma small_build:
  "gremlind_build_file (sample_pool 8) (small_proto 0 21) =
     (Inr (small_file [] [] GREMLIND_TYPE_REF_UNRESOLVED), small_proto 21 21, sample_pool 624)"
proof -
  have a: "pool_alloc 216 (sample_pool 8) = (True, sample_pool 224)"
    "pool_alloc 128 (sample_pool 224) = (True, sample_pool 352)"
    "pool_alloc 272 (sample_pool 352) = (True, sample_pool 624)"
    by (simp_all add: sample_pool_alloc align_up_def)
  show ?thesis
    using small_proto_steps(9) [of 21 21] small_proto_steps(9) [of 20 20]
    by (simp add: gremlind_build_file_def alloc_items_def small_proto_steps(1-8) small_proto_moves a
        fill_file.simps fill_message_def open_message_def fill_body_loop.simps put_field_def hoist_eq hint_def
        message_node_def field_node_def written_of_def extract_default_option_def extract_option_def
        gremlind_field_packed_option_def gremlind_field_packing_def wants_math_def wants_string_def unnamed_def
        empty_file_def ended_def resolve_packing_def pack_field_def small_file_def Let_def)
qed

lemmas small_defs = small_ctx_def small_file_def gremlind_resolve_context_init_def unbuilt_def sample_pool_alloc
  align_up_def upt_rec

lemma small_build_all:
  "gremlind_build_all (gremlind_resolve_context_init [''m.proto'']) [small_proto 0 21] (sample_pool 0) =
     (None, small_ctx (small_file [] [] GREMLIND_TYPE_REF_UNRESOLVED), [small_proto 21 21], sample_pool 624)"
  using small_build
  by (simp add: gremlind_build_all_def small_ctx_def gremlind_resolve_context_init_def sample_pool_alloc align_up_def
      upt_rec set_file_def)

lemma small_link:
  "gremlind_link_imports (small_ctx (small_file [] [] t)) (sample_pool 624) =
     (None, small_ctx (small_file [] [] t), sample_pool 624)"
  by (simp add: gremlind_link_imports_def small_defs set_file_def)

lemma small_cycles:
  "gremlind_check_no_cycles (small_ctx (small_file [] [] t)) (sample_pool 624) =
     (None, small_ctx (small_file [] [] t), sample_pool 648)"
  by (simp add: gremlind_check_no_cycles_def small_defs alloc_both_def dfs_def dfs_loop.simps import_succs_def)

lemma small_names:
  "name_files [0] (small_ctx (small_file [] [] t)) (sample_pool 648) =
     (None, small_ctx (small_file [''A''] [] t), sample_pool 664)"
  by (simp add: small_defs gremlind_compute_scoped_names_def name_messages_loop.simps name_enums_loop.simps
      gremlind_scoped_name_extend_def with_alloc_def set_file_def)

lemma small_visibility:
  "gremlind_compute_visibility (small_ctx (small_file [''A''] [] t)) (sample_pool 664) =
     (None, small_ctx (small_file [''A''] [0] t), sample_pool 680)"
  by (simp add: gremlind_compute_visibility_def small_defs visible_files_def visible_loop.simps import_succs_def
      public_succs_def set_file_def)

lemma small_extends:
  "gremlind_propagate_extends (small_ctx (small_file [''A''] [0] t)) [small_proto 21 21] (sample_pool 680) =
     (None, small_ctx (small_file [''A''] [0] t), [small_proto 21 21], sample_pool 704)"
  by (simp add: gremlind_propagate_extends_def small_defs walk_file_def make_package_scope_def extend_file_walk.simps
      small_proto_steps(2-8) small_proto_moves message_scope_def walk_message_body_def extend_body_walk.simps ended_def)

lemma small_types:
  "gremlind_resolve_type_refs (small_ctx (small_file [''A''] [0] GREMLIND_TYPE_REF_UNRESOLVED)) (sample_pool 704) =
     (None, small_ctx (small_file [''A''] [0] (GREMLIND_TYPE_REF_BUILTIN ''int32'')), sample_pool 704)"
  by (simp add: gremlind_resolve_type_refs_def small_defs resolve_field_type_def resolve_named_type_def
      is_builtin_span_def RESOLVE_BUILTIN_TYPES_def set_file_def)

lemma small_front_end:
  "front_end [''m.proto''] [small_proto 0 21] (sample_pool 0) =
     (None, small_ctx (small_file [''A''] [0] (GREMLIND_TYPE_REF_BUILTIN ''int32'')), [small_proto 21 21], sample_pool 704)"
proof -
  have p: "rc_paths (small_ctx f) = [''m.proto'']" for f by (simp add: small_ctx_def gremlind_resolve_context_init_def)
  show ?thesis
    by (simp add: front_end_def then_pass_def tree_pass_def small_build_all small_link small_cycles p upt_rec
        small_names small_visibility small_extends small_types del: name_files.simps)
qed


end
