(* ===== verification/Field_Kinds.thy ===== *)
theory Field_Kinds
  imports Front_End
begin

text \<open>
  What kind of code a field gets: the table of scalar types
  (\<open>gremlinc/src/emit_common.c\<close>) and the tests on labels and resolved types by which
  \<open>emit_message.c\<close> picks the family of emitters.  Every field that the front end
  leaves in the tree falls in exactly one family, and the table has an entry
  wherever the code reads one.
\<close>

section \<open>The scalar table\<close>

datatype scalar_kind =
    SCALAR_INT32 | SCALAR_INT64 | SCALAR_UINT32 | SCALAR_UINT64
  | SCALAR_SINT32 | SCALAR_SINT64
  | SCALAR_FIXED32 | SCALAR_FIXED64 | SCALAR_SFIXED32 | SCALAR_SFIXED64
  | SCALAR_DOUBLE | SCALAR_FLOAT | SCALAR_BOOL

record scalar_info =
  si_proto_name :: string
  si_c_type :: string
  si_wire_type :: u32
  si_wire_type_tok :: string
  si_kind :: scalar_kind

abbreviation (input) WT_VARINT :: u32 where "WT_VARINT \<equiv> 0"
abbreviation (input) WT_FIXED64 :: u32 where "WT_FIXED64 \<equiv> 1"
abbreviation (input) WT_FIXED32 :: u32 where "WT_FIXED32 \<equiv> 5"

definition scalar_row :: "string \<Rightarrow> string \<Rightarrow> u32 \<Rightarrow> string \<Rightarrow> scalar_kind \<Rightarrow> scalar_info" where
  "scalar_row name c_type wire_type tok kind = \<lparr>si_proto_name = name, si_c_type = c_type,
     si_wire_type = wire_type, si_wire_type_tok = tok, si_kind = kind\<rparr>"

definition SCALARS :: "scalar_info list" where
  "SCALARS = [
     scalar_row ''int32'' ''int32_t'' WT_VARINT ''GREMLIN_WIRE_VARINT'' SCALAR_INT32,
     scalar_row ''int64'' ''int64_t'' WT_VARINT ''GREMLIN_WIRE_VARINT'' SCALAR_INT64,
     scalar_row ''uint32'' ''uint32_t'' WT_VARINT ''GREMLIN_WIRE_VARINT'' SCALAR_UINT32,
     scalar_row ''uint64'' ''uint64_t'' WT_VARINT ''GREMLIN_WIRE_VARINT'' SCALAR_UINT64,
     scalar_row ''sint32'' ''int32_t'' WT_VARINT ''GREMLIN_WIRE_VARINT'' SCALAR_SINT32,
     scalar_row ''sint64'' ''int64_t'' WT_VARINT ''GREMLIN_WIRE_VARINT'' SCALAR_SINT64,
     scalar_row ''fixed32'' ''uint32_t'' WT_FIXED32 ''GREMLIN_WIRE_FIXED32'' SCALAR_FIXED32,
     scalar_row ''fixed64'' ''uint64_t'' WT_FIXED64 ''GREMLIN_WIRE_FIXED64'' SCALAR_FIXED64,
     scalar_row ''sfixed32'' ''int32_t'' WT_FIXED32 ''GREMLIN_WIRE_FIXED32'' SCALAR_SFIXED32,
     scalar_row ''sfixed64'' ''int64_t'' WT_FIXED64 ''GREMLIN_WIRE_FIXED64'' SCALAR_SFIXED64,
     scalar_row ''double'' ''double'' WT_FIXED64 ''GREMLIN_WIRE_FIXED64'' SCALAR_DOUBLE,
     scalar_row ''float'' ''float'' WT_FIXED32 ''GREMLIN_WIRE_FIXED32'' SCALAR_FLOAT,
     scalar_row ''bool'' ''bool'' WT_VARINT ''GREMLIN_WIRE_VARINT'' SCALAR_BOOL]"

definition gremlinc_scalar_lookup :: "string \<Rightarrow> scalar_info option" where
  "gremlinc_scalar_lookup span =
     find (\<lambda>si. length (si_proto_name si) = length span \<and> si_proto_name si = span) SCALARS"

definition gremlinc_builtin_is_bytes :: "string \<Rightarrow> bool" where
  "gremlinc_builtin_is_bytes span \<longleftrightarrow>
     length span = 6 \<and> span = ''string'' \<or> length span = 5 \<and> span = ''bytes''"

definition gremlinc_kind_uses_varint32 :: "scalar_kind \<Rightarrow> bool" where
  "gremlinc_kind_uses_varint32 k \<longleftrightarrow> k = SCALAR_UINT32 \<or> k = SCALAR_SINT32 \<or> k = SCALAR_BOOL"

fun gremlinc_kind_alignment :: "scalar_kind \<Rightarrow> nat" where
  "gremlinc_kind_alignment SCALAR_INT64 = 8"
| "gremlinc_kind_alignment SCALAR_UINT64 = 8"
| "gremlinc_kind_alignment SCALAR_SINT64 = 8"
| "gremlinc_kind_alignment SCALAR_FIXED64 = 8"
| "gremlinc_kind_alignment SCALAR_SFIXED64 = 8"
| "gremlinc_kind_alignment SCALAR_DOUBLE = 8"
| "gremlinc_kind_alignment SCALAR_INT32 = 4"
| "gremlinc_kind_alignment SCALAR_UINT32 = 4"
| "gremlinc_kind_alignment SCALAR_SINT32 = 4"
| "gremlinc_kind_alignment SCALAR_FIXED32 = 4"
| "gremlinc_kind_alignment SCALAR_SFIXED32 = 4"
| "gremlinc_kind_alignment SCALAR_FLOAT = 4"
| "gremlinc_kind_alignment SCALAR_BOOL = 1"

fun gremlinc_default_check_rhs :: "scalar_kind \<Rightarrow> string" where
  "gremlinc_default_check_rhs SCALAR_DOUBLE = ''0.0''"
| "gremlinc_default_check_rhs SCALAR_FLOAT = ''0.0f''"
| "gremlinc_default_check_rhs SCALAR_BOOL = ''false''"
| "gremlinc_default_check_rhs _ = ''0''"

section \<open>Families of fields\<close>

text \<open>A builtin reference with a text of which the test holds.\<close>

definition builtin_that :: "(string \<Rightarrow> bool) \<Rightarrow> gremlind_field \<Rightarrow> bool" where
  "builtin_that P f = (case nf_type f of GREMLIND_TYPE_REF_BUILTIN t \<Rightarrow> P t | _ \<Rightarrow> False)"

definition field_is_message :: "gremlind_field \<Rightarrow> bool" where
  "field_is_message f = (case nf_type f of GREMLIND_TYPE_REF_MESSAGE _ _ \<Rightarrow> True | _ \<Rightarrow> False)"

definition field_is_enum :: "gremlind_field \<Rightarrow> bool" where
  "field_is_enum f = (case nf_type f of GREMLIND_TYPE_REF_ENUM _ _ \<Rightarrow> True | _ \<Rightarrow> False)"

definition field_is_repeated_bytes :: "gremlind_field \<Rightarrow> bool" where
  "field_is_repeated_bytes f =
     (if nf_label f \<noteq> GREMLINP_FIELD_LABEL_REPEATED then False
      else builtin_that gremlinc_builtin_is_bytes f)"

definition field_is_repeated_msg :: "gremlind_field \<Rightarrow> bool" where
  "field_is_repeated_msg f \<longleftrightarrow> nf_label f = GREMLINP_FIELD_LABEL_REPEATED \<and> field_is_message f"

definition field_is_bytes :: "gremlind_field \<Rightarrow> bool" where
  "field_is_bytes f \<longleftrightarrow> nf_label f \<noteq> GREMLINP_FIELD_LABEL_REPEATED \<and> builtin_that gremlinc_builtin_is_bytes f"

definition field_is_map :: "gremlind_field \<Rightarrow> bool" where
  "field_is_map f = (case nf_type f of GREMLIND_TYPE_REF_MAP _ _ \<Rightarrow> True | _ \<Rightarrow> False)"

definition field_is_repeated_scalar :: "gremlind_field \<Rightarrow> bool" where
  "field_is_repeated_scalar f =
     (if nf_label f \<noteq> GREMLINP_FIELD_LABEL_REPEATED then False
      else if field_is_enum f then True
      else builtin_that (\<lambda>t. \<not> gremlinc_builtin_is_bytes t \<and> gremlinc_scalar_lookup t \<noteq> None) f)"

definition field_has_count :: "gremlind_field \<Rightarrow> bool" where
  "field_has_count f \<longleftrightarrow> field_is_repeated_bytes f \<or> field_is_repeated_msg f \<or> field_is_map f \<or>
     field_is_repeated_scalar f"

definition field_has_span :: "gremlind_field \<Rightarrow> bool" where
  "field_has_span f \<longleftrightarrow> \<not> field_has_count f \<and> (field_is_bytes f \<or> field_is_message f)"

text \<open>The entry \<open>sinfos[i]\<close> of a field, \<open>None\<close> for \<open>NULL\<close>.\<close>

definition field_scalar_info :: "gremlind_field \<Rightarrow> scalar_info option" where
  "field_scalar_info f =
     (case nf_type f of
        GREMLIND_TYPE_REF_BUILTIN t \<Rightarrow>
          if \<not> gremlinc_builtin_is_bytes t then gremlinc_scalar_lookup t else None
      | _ \<Rightarrow> None)"

text \<open>The order of the tests in the dispatchers.\<close>

datatype family =
    Map_Family | Repeated_Bytes_Family | Repeated_Msg_Family | Repeated_Scalar_Family
  | Msg_Ref_Family | Enum_Ref_Family | Bytes_Family | Scalar_Family

definition dispatch :: "gremlind_field \<Rightarrow> family" where
  "dispatch f =
     (if field_is_map f then Map_Family
      else if field_is_repeated_bytes f then Repeated_Bytes_Family
      else if field_is_repeated_msg f then Repeated_Msg_Family
      else if field_is_repeated_scalar f then Repeated_Scalar_Family
      else if field_is_message f then Msg_Ref_Family
      else if field_is_enum f then Enum_Ref_Family
      else if field_is_bytes f then Bytes_Family
      else Scalar_Family)"

section \<open>Resolved fields\<close>

lemma lookup_iff: "gremlinc_scalar_lookup t \<noteq> None \<longleftrightarrow> t \<in> set (map si_proto_name SCALARS)"
  by (auto simp: gremlinc_scalar_lookup_def find_None_iff)

lemma lookup_Some: "gremlinc_scalar_lookup t = Some si \<Longrightarrow> si \<in> set SCALARS \<and> si_proto_name si = t"
  by (auto simp: gremlinc_scalar_lookup_def find_Some_iff)

text \<open>The builtin types of the resolver are the scalars of the table and the two others.\<close>

lemma builtin_types: "set RESOLVE_BUILTIN_TYPES = set (map si_proto_name SCALARS) \<union> {''string'', ''bytes''}"
  by (simp add: RESOLVE_BUILTIN_TYPES_def SCALARS_def scalar_row_def insert_commute)

lemma builtin_span_cases: "is_builtin_span t \<longleftrightarrow> gremlinc_builtin_is_bytes t \<or> gremlinc_scalar_lookup t \<noteq> None"
proof -
  have "is_builtin_span t \<longleftrightarrow> t \<in> set RESOLVE_BUILTIN_TYPES" by (auto simp: is_builtin_span_def list_ex_iff)
  also have "\<dots> \<longleftrightarrow> t \<in> set (map si_proto_name SCALARS) \<or> t = ''string'' \<or> t = ''bytes''"
    by (simp only: builtin_types) blast
  finally show ?thesis unfolding lookup_iff by (auto simp: gremlinc_builtin_is_bytes_def)
qed

text \<open>What an element of a field may be; a target is in a file that the field sees.\<close>

definition element_type :: "gremlind_resolve_context \<Rightarrow> nat list \<Rightarrow> gremlind_type_ref \<Rightarrow> bool" where
  "element_type ctx visible t =
     (case t of
        GREMLIND_TYPE_REF_BUILTIN n \<Rightarrow> gremlinc_builtin_is_bytes n \<or> gremlinc_scalar_lookup n \<noteq> None
      | GREMLIND_TYPE_REF_MESSAGE j m \<Rightarrow> j \<in> set visible \<and> m < length (nl_messages (the (file_at ctx j)))
      | GREMLIND_TYPE_REF_ENUM j e \<Rightarrow> j \<in> set visible \<and> e < length (nl_enums (the (file_at ctx j)))
      | _ \<Rightarrow> False)"

lemma designates_element: "designates ctx visible segs t \<Longrightarrow> element_type ctx visible t"
  by (auto simp: designates_def element_type_def Let_def)

lemma refers_element: "refers ctx visible scope name t \<Longrightarrow> element_type ctx visible t"
proof -
  assume r: "refers ctx visible scope name t"
  show ?thesis
  proof (cases "is_builtin_span name")
    case True
    then show ?thesis using r builtin_span_cases [of name] by (simp add: refers_def element_type_def)
  next
    case False
    then have "scoped (designates ctx visible) scope name t" using r by (simp add: refers_def)
    then show ?thesis by (auto simp: scoped_def nearest_def intro: designates_element split: if_splits)
  qed
qed

lemma resolved_element:
  assumes "field_resolved ctx f msg fd t"
  shows "(case t of
      GREMLIND_TYPE_REF_MAP tk tv \<Rightarrow> element_type ctx (field_visible ctx f fd) tk \<and> element_type ctx (field_visible ctx f fd) tv
    | _ \<Rightarrow> element_type ctx (field_visible ctx f fd) t)"
proof (cases "nf_written fd")
  case (Written_Named name)
  then have "element_type ctx (field_visible ctx f fd) t"
    using assms by (auto simp: field_resolved_def Let_def dest: refers_element)
  then show ?thesis by (cases t) (simp_all add: element_type_def)
next
  case (Written_Map key val)
  then obtain tk tv where "t = GREMLIND_TYPE_REF_MAP tk tv" "refers ctx (field_visible ctx f fd) (segments (field_scope msg fd)) key tk"
    "refers ctx (field_visible ctx f fd) (segments (field_scope msg fd)) val tv"
    using assms by (auto simp: field_resolved_def Let_def)
  then show ?thesis using refers_element by simp
qed

lemmas family_defs = dispatch_def field_is_map_def field_is_repeated_bytes_def field_is_repeated_msg_def
  field_is_repeated_scalar_def field_is_message_def field_is_enum_def field_is_bytes_def builtin_that_def

text \<open>The groups of families that the emitters of messages test for.\<close>

lemma field_has_count_iff:
  "field_has_count f \<longleftrightarrow>
     dispatch f \<in> {Map_Family, Repeated_Bytes_Family, Repeated_Msg_Family, Repeated_Scalar_Family}"
  unfolding field_has_count_def dispatch_def by simp

lemma field_has_span_iff: "field_has_span f \<longleftrightarrow> dispatch f \<in> {Msg_Ref_Family, Bytes_Family}"
  unfolding field_has_span_def field_has_count_iff by (auto simp: family_defs split: gremlind_type_ref.splits)

text \<open>What the dispatch finds, by the kind of type and the label.\<close>

lemma dispatch_cases:
  assumes "(case nf_type fd of GREMLIND_TYPE_REF_MAP tk tv \<Rightarrow> True | t \<Rightarrow> element_type ctx visible t)"
  shows "case nf_type fd of
      GREMLIND_TYPE_REF_MAP _ _ \<Rightarrow> dispatch fd = Map_Family
    | GREMLIND_TYPE_REF_MESSAGE _ _ \<Rightarrow>
        dispatch fd = (if nf_label fd = GREMLINP_FIELD_LABEL_REPEATED then Repeated_Msg_Family else Msg_Ref_Family)
    | GREMLIND_TYPE_REF_ENUM _ _ \<Rightarrow>
        dispatch fd = (if nf_label fd = GREMLINP_FIELD_LABEL_REPEATED then Repeated_Scalar_Family else Enum_Ref_Family)
    | GREMLIND_TYPE_REF_BUILTIN n \<Rightarrow>
        (if gremlinc_builtin_is_bytes n
         then dispatch fd = (if nf_label fd = GREMLINP_FIELD_LABEL_REPEATED then Repeated_Bytes_Family else Bytes_Family)
         else dispatch fd = (if nf_label fd = GREMLINP_FIELD_LABEL_REPEATED then Repeated_Scalar_Family else Scalar_Family)
           \<and> (\<exists>si \<in> set SCALARS. field_scalar_info fd = Some si \<and> si_proto_name si = n))
    | GREMLIND_TYPE_REF_UNRESOLVED \<Rightarrow> False"
proof (cases "nf_type fd")
  case (GREMLIND_TYPE_REF_BUILTIN n)
  show ?thesis
  proof (cases "gremlinc_builtin_is_bytes n")
    case True
    then show ?thesis using GREMLIND_TYPE_REF_BUILTIN by (simp add: family_defs)
  next
    case False
    then obtain si where si: "gremlinc_scalar_lookup n = Some si"
      using assms GREMLIND_TYPE_REF_BUILTIN by (auto simp: element_type_def)
    then show ?thesis using lookup_Some [OF si] False GREMLIND_TYPE_REF_BUILTIN
      by (simp add: family_defs field_scalar_info_def)
  qed
qed (use assms in \<open>simp_all add: family_defs element_type_def\<close>)

text \<open>C11. The choice of emitters for a field of a tree that the front end made: the
  type and the label alone decide the family, no field is left unresolved, and the
  row of the scalar table that the emitters of scalars read, singular or repeated,
  is there and has the name of the type; a target is a message or an enum of a file
  that the field sees, and so for the key and the value of a map.\<close>
theorem dispatch_total:
  assumes "front_end paths bufs s = (None, ctx, bufs', s')" and "paths \<noteq> []" and "length bufs = length paths"
    and "\<forall>b \<in> set bufs. pb_offset b = 0"
    and "i < length paths" and "file_at ctx i = Some f" and "msg \<in> set (nl_messages f)" and "fd \<in> set (nm_fields msg)"
  shows "(case nf_type fd of
      GREMLIND_TYPE_REF_MAP tk tv \<Rightarrow> dispatch fd = Map_Family \<and>
        element_type ctx (field_visible ctx f fd) tk \<and> element_type ctx (field_visible ctx f fd) tv
    | GREMLIND_TYPE_REF_MESSAGE j m \<Rightarrow>
        dispatch fd = (if nf_label fd = GREMLINP_FIELD_LABEL_REPEATED then Repeated_Msg_Family else Msg_Ref_Family)
        \<and> j \<in> set (field_visible ctx f fd) \<and> m < length (nl_messages (the (file_at ctx j)))
    | GREMLIND_TYPE_REF_ENUM j e \<Rightarrow>
        dispatch fd = (if nf_label fd = GREMLINP_FIELD_LABEL_REPEATED then Repeated_Scalar_Family else Enum_Ref_Family)
        \<and> j \<in> set (field_visible ctx f fd) \<and> e < length (nl_enums (the (file_at ctx j)))
    | GREMLIND_TYPE_REF_BUILTIN n \<Rightarrow>
        (if gremlinc_builtin_is_bytes n
         then dispatch fd = (if nf_label fd = GREMLINP_FIELD_LABEL_REPEATED then Repeated_Bytes_Family else Bytes_Family)
         else dispatch fd = (if nf_label fd = GREMLINP_FIELD_LABEL_REPEATED then Repeated_Scalar_Family else Scalar_Family)
           \<and> (\<exists>si \<in> set SCALARS. field_scalar_info fd = Some si \<and> si_proto_name si = n))
    | GREMLIND_TYPE_REF_UNRESOLVED \<Rightarrow> False)"
proof -
  have "finished_file ctx i (built_file (bufs ! i)) f"
    using front_end_finished [OF assms(1-4)] assms(5,6) by auto
  then have "field_resolved ctx f msg fd (nf_type fd)" using assms(7,8) by (simp add: finished_file_def)
  note e = resolved_element [OF this]
  then have "(case nf_type fd of GREMLIND_TYPE_REF_MAP tk tv \<Rightarrow> True
      | t \<Rightarrow> element_type ctx (field_visible ctx f fd) t)" by (cases "nf_type fd") simp_all
  note d = dispatch_cases [OF this]
  show ?thesis using d e by (cases "nf_type fd") (simp_all add: element_type_def)
qed

lemma dispatch_total_witness:
  "dispatch \<lparr>nf_name = ''x'', nf_label = GREMLINP_FIELD_LABEL_NONE, nf_index = 1,
      nf_written = Written_Named ''int32'', nf_options = \<lparr>ol_start = 0, ol_end = 0, ol_count = 0\<rparr>,
      nf_type = GREMLIND_TYPE_REF_BUILTIN ''int32'',
      nf_default = None, nf_packing = GREMLIND_PACKING_EXPANDED, nf_origin_file = None, nf_origin_scope = None\<rparr> = Scalar_Family"
proof -
  let ?t = "GREMLIND_TYPE_REF_BUILTIN ''int32''"
  let ?f = "small_file [''A''] [0] ?t"
  have at: "file_at (small_ctx ?f) 0 = Some ?f" by (simp add: small_ctx_def)
  have one: "\<forall>b \<in> set [small_proto 0 21]. pb_offset b = 0" using small_proto_moves(1) [of 0 21] by simp
  show ?thesis
    using dispatch_total [OF small_front_end _ _ one, of 0 ?f "nl_messages ?f ! 0" "nm_fields (nl_messages ?f ! 0) ! 0"] at
    by (simp add: small_file_def gremlinc_builtin_is_bytes_def)
qed

end
