(* ===== verification/Emit_Fields.thy ===== *)
theory Emit_Fields
  imports Emit_Text Libc_Printf Field_Kinds Runtime_Varint
begin

text \<open>
  The code printed for a singular field: \<open>emit_scalar.c\<close>, \<open>emit_bytes.c\<close> and
  \<open>emit_enum_ref.c\<close> of \<open>gremlinc/src\<close>.  Of each field the generator prints what its
  size adds, the writer and the arm of the reader, and its default as a C constant.
  A function that only prints is the list of its pieces.  The constant of a default
  points into the buffer \<open>b\<close> of the file that declares the field, and \<open>gnu\<close> says which
  version of \<open>gremlin_varint_size\<close> the generator itself is compiled with.
\<close>

section \<open>Tags\<close>

text \<open>\<open>((uint32_t)f->parsed.index << 3) | wire_type\<close>\<close>

unbundle bit_operations_syntax

definition packed_tag :: "gremlind_field \<Rightarrow> u32 \<Rightarrow> u32" where
  "packed_tag f wire_type = (push_bit 3 (word_of_int (nf_index f)) OR wire_type)"

text \<open>\<open>(unsigned)gremlin_varint_size(packed)\<close>\<close>

definition tag_bytes :: "bool \<Rightarrow> gremlind_field \<Rightarrow> u32 \<Rightarrow> nat" where
  "tag_bytes gnu f wire_type = gremlin_varint_size gnu (ucast (packed_tag f wire_type))"

section \<open>Scalars\<close>

definition scalar_size_value :: "scalar_kind \<Rightarrow> string \<Rightarrow> piece list" where
  "scalar_size_value k fname =
     (case k of
        SCALAR_INT32 \<Rightarrow>
          [W (tx ''$n$t$t   + gremlin_varint_size((uint64_t)(int64_t)m->''), W fname, W '')'']
      | SCALAR_INT64 \<Rightarrow>
          [W (tx ''$n$t$t   + gremlin_varint_size((uint64_t)m->''), W fname, W '')'']
      | SCALAR_UINT32 \<Rightarrow>
          [W '' + gremlin_varint32_size(m->'', W fname, W '')'']
      | SCALAR_UINT64 \<Rightarrow>
          [W (tx ''$n$t$t   + gremlin_varint_size(m->''), W fname, W '')'']
      | SCALAR_SINT32 \<Rightarrow>
          [W '' + gremlin_varint32_size(gremlin_zigzag32(m->'', W fname, W ''))'']
      | SCALAR_SINT64 \<Rightarrow>
          [W (tx ''$n$t$t   + gremlin_varint_size(gremlin_zigzag64(m->''), W fname, W ''))'']
      | SCALAR_FIXED32 \<Rightarrow>
          [W '' + 4'']
      | SCALAR_SFIXED32 \<Rightarrow>
          [W '' + 4'']
      | SCALAR_FLOAT \<Rightarrow>
          [W '' + 4'']
      | SCALAR_FIXED64 \<Rightarrow>
          [W '' + 8'']
      | SCALAR_SFIXED64 \<Rightarrow>
          [W '' + 8'']
      | SCALAR_DOUBLE \<Rightarrow>
          [W '' + 8'']
      | SCALAR_BOOL \<Rightarrow>
          [W '' + 1''])"

definition gremlinc_scalar_emit_size_field ::
    "bool \<Rightarrow> gremlind_field \<Rightarrow> scalar_info \<Rightarrow> string \<Rightarrow> string \<Rightarrow> piece list" where
  "gremlinc_scalar_emit_size_field gnu f si fname default_lit =
     [W (tx ''$tif (m->''), W fname, W '' != '', W default_lit, W (tx '') {$n''),
      W (tx ''$t$ts += ''), WI (int (tag_bytes gnu f (si_wire_type si)))]
     @ scalar_size_value (si_kind si) fname
     @ [W (tx '';$n$t}$n'')]"

definition scalar_encode_value :: "scalar_kind \<Rightarrow> string \<Rightarrow> piece list" where
  "scalar_encode_value k fname =
     (case k of
        SCALAR_INT32 \<Rightarrow>
          [W (tx ''$t$t_off = gremlin_varint_encode_at(_buf, _off, (uint64_t)(int64_t)m->''), W fname, W (tx '');$n'')]
      | SCALAR_INT64 \<Rightarrow>
          [W (tx ''$t$t_off = gremlin_varint_encode_at(_buf, _off, (uint64_t)m->''), W fname, W (tx '');$n'')]
      | SCALAR_UINT32 \<Rightarrow>
          [W (tx ''$t$t_off = gremlin_varint32_encode_at(_buf, _off, m->''), W fname, W (tx '');$n'')]
      | SCALAR_UINT64 \<Rightarrow>
          [W (tx ''$t$t_off = gremlin_varint_encode_at(_buf, _off, m->''), W fname, W (tx '');$n'')]
      | SCALAR_SINT32 \<Rightarrow>
          [W (tx ''$t$t_off = gremlin_varint32_encode_at(_buf, _off, gremlin_zigzag32(m->''), W fname, W (tx ''));$n'')]
      | SCALAR_SINT64 \<Rightarrow>
          [W (tx ''$t$t_off = gremlin_varint_encode_at(_buf, _off, gremlin_zigzag64(m->''), W fname, W (tx ''));$n'')]
      | SCALAR_FIXED32 \<Rightarrow>
          [W (tx ''$t$t_off = gremlin_fixed32_encode_at(_buf, _off, m->''), W fname, W (tx '');$n'')]
      | SCALAR_FIXED64 \<Rightarrow>
          [W (tx ''$t$t_off = gremlin_fixed64_encode_at(_buf, _off, m->''), W fname, W (tx '');$n'')]
      | SCALAR_SFIXED32 \<Rightarrow>
          [W (tx ''$t$t_off = gremlin_fixed32_encode_at(_buf, _off, (uint32_t)m->''), W fname, W (tx '');$n'')]
      | SCALAR_SFIXED64 \<Rightarrow>
          [W (tx ''$t$t_off = gremlin_fixed64_encode_at(_buf, _off, (uint64_t)m->''), W fname, W (tx '');$n'')]
      | SCALAR_DOUBLE \<Rightarrow>
          [W (tx ''$t$t_off = gremlin_fixed64_encode_at(_buf, _off, gremlin_f64_bits(m->''), W fname, W (tx ''));$n'')]
      | SCALAR_FLOAT \<Rightarrow>
          [W (tx ''$t$t_off = gremlin_fixed32_encode_at(_buf, _off, gremlin_f32_bits(m->''), W fname, W (tx ''));$n'')]
      | SCALAR_BOOL \<Rightarrow>
          [W (tx ''$t$t_off = gremlin_varint32_encode_at(_buf, _off, m->''), W fname, W (tx '' ? 1u : 0u);$n'')])"

definition gremlinc_scalar_emit_encode_field ::
    "gremlind_field \<Rightarrow> scalar_info \<Rightarrow> string \<Rightarrow> string \<Rightarrow> piece list" where
  "gremlinc_scalar_emit_encode_field f si fname default_lit =
     [W (tx ''$tif (m->''), W fname, W '' != '', W default_lit, W (tx '') {$n''),
      W (tx ''$t$t_off = gremlin_varint32_encode_at(_buf, _off, ''), WI (uint (packed_tag f (si_wire_type si))),
      W (tx ''u);$n'')]
     @ scalar_encode_value (si_kind si) fname
     @ [W (tx ''$t}$n'')]"

definition is_varint :: "scalar_kind \<Rightarrow> bool" where
  "is_varint k \<longleftrightarrow> k = SCALAR_INT32 \<or> k = SCALAR_INT64 \<or> k = SCALAR_UINT32 \<or> k = SCALAR_UINT64 \<or>
     k = SCALAR_SINT32 \<or> k = SCALAR_SINT64 \<or> k = SCALAR_BOOL"

definition is_fixed32 :: "scalar_kind \<Rightarrow> bool" where
  "is_fixed32 k \<longleftrightarrow> k = SCALAR_FIXED32 \<or> k = SCALAR_SFIXED32 \<or> k = SCALAR_FLOAT"

definition scalar_reader_varint32 :: "scalar_kind \<Rightarrow> string \<Rightarrow> piece list" where
  "scalar_reader_varint32 k fname =
     [W (tx ''$t$t$tstruct gremlin_varint32_decode_result d =$n$t$t$t$tgremlin_varint32_decode(src + offset, len - offset);$n$t$t$tif (d.error != GREMLIN_OK) return d.error;$n$t$t$toffset += d.consumed;$n'')]
     @ (case k of
          SCALAR_UINT32 \<Rightarrow> [W (tx ''$t$t$tr->''), W fname, W (tx '' = d.value;$n'')]
        | SCALAR_SINT32 \<Rightarrow> [W (tx ''$t$t$tr->''), W fname, W (tx '' = gremlin_unzigzag32(d.value);$n'')]
        | SCALAR_BOOL \<Rightarrow> [W (tx ''$t$t$tr->''), W fname, W (tx '' = (d.value != 0);$n'')]
        | _ \<Rightarrow> [])"

definition scalar_reader_varint :: "scalar_kind \<Rightarrow> string \<Rightarrow> piece list" where
  "scalar_reader_varint k fname =
     [W (tx ''$t$t$tstruct gremlin_varint_decode_result d =$n$t$t$t$tgremlin_varint_decode(src + offset, len - offset);$n$t$t$tif (d.error != GREMLIN_OK) return d.error;$n$t$t$toffset += d.consumed;$n'')]
     @ (case k of
          SCALAR_INT32 \<Rightarrow> [W (tx ''$t$t$tr->''), W fname, W (tx '' = (int32_t)(uint32_t)d.value;$n'')]
        | SCALAR_INT64 \<Rightarrow> [W (tx ''$t$t$tr->''), W fname, W (tx '' = (int64_t)d.value;$n'')]
        | SCALAR_UINT64 \<Rightarrow> [W (tx ''$t$t$tr->''), W fname, W (tx '' = d.value;$n'')]
        | SCALAR_SINT64 \<Rightarrow> [W (tx ''$t$t$tr->''), W fname, W (tx '' = gremlin_unzigzag64(d.value);$n'')]
        | _ \<Rightarrow> [])"

definition scalar_reader_fixed32 :: "scalar_kind \<Rightarrow> string \<Rightarrow> piece list" where
  "scalar_reader_fixed32 k fname =
     [W (tx ''$t$t$tstruct gremlin_fixed32_decode_result d =$n$t$t$t$tgremlin_fixed32_decode(src + offset, len - offset);$n$t$t$tif (d.error != GREMLIN_OK) return d.error;$n$t$t$toffset += 4;$n'')]
     @ (case k of
          SCALAR_FIXED32 \<Rightarrow> [W (tx ''$t$t$tr->''), W fname, W (tx '' = d.value;$n'')]
        | SCALAR_SFIXED32 \<Rightarrow> [W (tx ''$t$t$tr->''), W fname, W (tx '' = (int32_t)d.value;$n'')]
        | SCALAR_FLOAT \<Rightarrow> [W (tx ''$t$t$tr->''), W fname, W (tx '' = gremlin_f32_from_bits(d.value);$n'')]
        | _ \<Rightarrow> [])"

definition scalar_reader_fixed64 :: "scalar_kind \<Rightarrow> string \<Rightarrow> piece list" where
  "scalar_reader_fixed64 k fname =
     [W (tx ''$t$t$tstruct gremlin_fixed64_decode_result d =$n$t$t$t$tgremlin_fixed64_decode(src + offset, len - offset);$n$t$t$tif (d.error != GREMLIN_OK) return d.error;$n$t$t$toffset += 8;$n'')]
     @ (case k of
          SCALAR_FIXED64 \<Rightarrow> [W (tx ''$t$t$tr->''), W fname, W (tx '' = d.value;$n'')]
        | SCALAR_SFIXED64 \<Rightarrow> [W (tx ''$t$t$tr->''), W fname, W (tx '' = (int64_t)d.value;$n'')]
        | SCALAR_DOUBLE \<Rightarrow> [W (tx ''$t$t$tr->''), W fname, W (tx '' = gremlin_f64_from_bits(d.value);$n'')]
        | _ \<Rightarrow> [])"

definition gremlinc_scalar_emit_reader_arm :: "gremlind_field \<Rightarrow> scalar_info \<Rightarrow> string \<Rightarrow> piece list" where
  "gremlinc_scalar_emit_reader_arm f si fname =
     [W (tx ''$t$tif (t.value == ''), WI (uint (packed_tag f (si_wire_type si))), W ''u /* field '',
      WI (nf_index f), W '', '', W (si_wire_type_tok si), W (tx '' */) {$n'')]
     @ (if is_varint (si_kind si) then
          (if gremlinc_kind_uses_varint32 (si_kind si) then scalar_reader_varint32 (si_kind si) fname
           else scalar_reader_varint (si_kind si) fname)
        else if is_fixed32 (si_kind si) then scalar_reader_fixed32 (si_kind si) fname
        else scalar_reader_fixed64 (si_kind si) fname)
     @ [W (tx ''$t$t$tr->_has.''), W fname, W (tx '' = true;$n''),
        W (tx ''$t$t$tcontinue;$n$t$t}$n'')]"

section \<open>Defaults of scalars\<close>

text \<open>No point, exponent or name: the loop over the characters.\<close>

definition float_printout_is_integer :: "string \<Rightarrow> bool" where
  "float_printout_is_integer s =
     list_all (\<lambda>c. \<not> (c = CHR ''.'' \<or> c = CHR ''e'' \<or> c = CHR ''E'' \<or> c = CHR ''n'' \<or> c = CHR ''N'')) s"

text \<open>The end of the function: \<open>buf\<close> holds a text that \<open>snprintf\<close> would have cut at 64.\<close>

definition copy_out :: "string \<Rightarrow> 'w pool \<Rightarrow> string option \<times> 'w pool" where
  "copy_out buf p =
     (if length buf = 0 \<or> length buf \<ge> 64 then (None, p)
      else case pool_alloc (length buf + 1) p of (ok, p1) \<Rightarrow> if ok then (Some buf, p1) else (None, p1))"

definition point_zero :: "string \<Rightarrow> string" where
  "point_zero buf =
     (if length buf > 0 \<and> float_printout_is_integer buf \<and> length buf + 2 < 64 then buf @ ''.0'' else buf)"

definition float_suffix :: "string \<Rightarrow> string" where
  "float_suffix buf = (if length buf + 1 < 64 then buf @ ''f'' else buf)"

text \<open>The literals \<open>3.4e38f\<close> and \<open>1e308\<close>, and their negations.\<close>

definition float_limit :: "bool \<Rightarrow> u32" where "float_limit neg = float_of_quotient neg (34 * 10 ^ 37) 1"
definition double_limit :: "bool \<Rightarrow> u64" where "double_limit neg = fst (double_of_quotient neg (10 ^ 308) 1)"

definition float_default :: "u32 \<Rightarrow> 'w pool \<Rightarrow> string option \<times> 'w pool" where
  "float_default r p =
     (if float_is_nan r then (Some ''(float)NAN'', p)
      else if float_rank r > float_rank (float_limit False) then (Some ''(float)INFINITY'', p)
      else if float_rank r < float_rank (float_limit True) then (Some ''(float)(-INFINITY)'', p)
      else copy_out (float_suffix (point_zero (printf_g 9 (double_of_float r)))) p)"

definition double_default :: "u64 \<Rightarrow> 'w pool \<Rightarrow> string option \<times> 'w pool" where
  "double_default d p =
     (if double_is_nan d then (Some ''(double)NAN'', p)
      else if double_rank d > double_rank (double_limit False) then (Some ''(double)INFINITY'', p)
      else if double_rank d < double_rank (double_limit True) then (Some ''(double)(-INFINITY)'', p)
      else copy_out (point_zero (printf_g 17 d)) p)"

definition gremlinc_scalar_resolve_default ::
    "parser_buffer \<Rightarrow> gremlind_field \<Rightarrow> scalar_info \<Rightarrow> 'w pool \<Rightarrow> string option \<times> 'w pool" where
  "gremlinc_scalar_resolve_default b f si p =
     (case nf_default f of
        None \<Rightarrow> (Some (gremlinc_default_check_rhs (si_kind si)), p)
      | Some c \<Rightarrow>
          if si_kind si \<in> {SCALAR_INT32, SCALAR_SINT32, SCALAR_SFIXED32} then
            (let r = gremlinc_const_to_int32 c in
             if cr_error r \<noteq> None then (None, p)
             else if cr_value r = INT32_MIN then (Some ''INT32_MIN'', p)
             else copy_out (show_int (cr_value r)) p)
          else if si_kind si \<in> {SCALAR_INT64, SCALAR_SINT64, SCALAR_SFIXED64} then
            (let r = gremlinc_const_to_int64 c in
             if cr_error r \<noteq> None then (None, p)
             else if cr_value r = - 9223372036854775808 then (Some ''INT64_MIN'', p)
             else copy_out (show_int (cr_value r) @ ''LL'') p)
          else if si_kind si \<in> {SCALAR_UINT32, SCALAR_FIXED32} then
            (let r = gremlinc_const_to_uint32 c in
             if cr_error r \<noteq> None then (None, p) else copy_out (show_int (cr_value r) @ ''u'') p)
          else if si_kind si \<in> {SCALAR_UINT64, SCALAR_FIXED64} then
            (let r = gremlinc_const_to_uint64 c in
             if cr_error r \<noteq> None then (None, p) else copy_out (show_int (cr_value r) @ ''ULL'') p)
          else if si_kind si = SCALAR_FLOAT then
            (let r = gremlinc_const_to_float c in
             if cr_error r \<noteq> None then (None, p) else float_default (cr_value r) p)
          else if si_kind si = SCALAR_DOUBLE then
            (let r = gremlinc_const_to_double c in
             if cr_error r \<noteq> None then (None, p) else double_default (cr_value r) p)
          else
            (let r = gremlinc_const_to_bool b c in
             if cr_error r \<noteq> None then (None, p)
             else (Some (if cr_value r then ''true'' else ''false''), p)))"

section \<open>Strings and bytes\<close>

abbreviation (input) WT_LEN_PREFIX_NUM :: u32 where "WT_LEN_PREFIX_NUM \<equiv> 2"

text \<open>The test around a string: it differs from its default, or is not empty.  A failed
  conversion of the default falls back to the second.\<close>

definition emit_presence_guard ::
    "parser_buffer \<Rightarrow> gremlind_field \<Rightarrow> string \<Rightarrow> 'w pool \<Rightarrow> piece list \<times> 'w pool" where
  "emit_presence_guard b f fname p =
     (let plain = [W (tx ''$tif (m->''), W fname, W (tx ''.len > 0) {$n'')] in
      case nf_default f of
        None \<Rightarrow> (plain, p)
      | Some c \<Rightarrow>
          (case gremlinc_const_to_bytes b c p of (r, p1) \<Rightarrow>
             (case (cr_error r, cr_value r) of
                (None, Some escaped) \<Rightarrow>
                  if length escaped > 0 then
                    ([W (tx ''$tif (m->''), W fname,
                      W (tx ''.len != sizeof($q''), W escaped, W (tx ''$q) - 1''),
                      W '' || memcmp(m->'', W fname,
                      W (tx ''.data, $q''), W escaped, W (tx ''$q, ''),
                      W (tx ''sizeof($q''), W escaped, W (tx ''$q) - 1) != 0) {$n'')], p1)
                  else (plain, p1)
              | _ \<Rightarrow> (plain, p1))))"

definition gremlinc_bytes_emit_size_field ::
    "bool \<Rightarrow> parser_buffer \<Rightarrow> gremlind_field \<Rightarrow> string \<Rightarrow> 'w pool \<Rightarrow> piece list \<times> 'w pool" where
  "gremlinc_bytes_emit_size_field gnu b f fname p =
     (case emit_presence_guard b f fname p of (guard, p1) \<Rightarrow>
        (guard
         @ [W (tx ''$t$ts += ''), WI (int (tag_bytes gnu f WT_LEN_PREFIX_NUM)),
            W (tx ''$n$t$t   + gremlin_varint_size(m->''), W fname, W ''.len)'',
            W (tx ''$n$t$t   + m->''), W fname, W (tx ''.len;$n''),
            W (tx ''$t}$n'')], p1))"

definition gremlinc_bytes_emit_encode_field ::
    "parser_buffer \<Rightarrow> gremlind_field \<Rightarrow> string \<Rightarrow> 'w pool \<Rightarrow> piece list \<times> 'w pool" where
  "gremlinc_bytes_emit_encode_field b f fname p =
     (case emit_presence_guard b f fname p of (guard, p1) \<Rightarrow>
        (guard
         @ [W (tx ''$t$t_off = gremlin_varint32_encode_at(_buf, _off, ''), WI (uint (packed_tag f WT_LEN_PREFIX_NUM)),
            W (tx ''u);$n''),
            W (tx ''$t$t_off = gremlin_varint_encode_at(_buf, _off, m->''), W fname, W (tx ''.len);$n''),
            W (tx ''$t$t_off = gremlin_write_bytes_at(_buf, _off, m->''), W fname, W ''.data, m->'',
            W fname, W (tx ''.len);$n''),
            W (tx ''$t}$n'')], p1))"

text \<open>The arm of a field that keeps a slice of the input; \<open>emit_msg_ref.c\<close> prints the same.\<close>

definition gremlinc_bytes_emit_reader_arm :: "gremlind_field \<Rightarrow> string \<Rightarrow> piece list" where
  "gremlinc_bytes_emit_reader_arm f fname =
     [W (tx ''$t$tif (t.value == ''), WI (uint (packed_tag f WT_LEN_PREFIX_NUM)),
      W ''u /* field '', WI (nf_index f), W (tx '', GREMLIN_WIRE_LEN_PREFIX */) {$n''),
      W (tx ''$t$t$tstruct gremlin_bytes_decode_result d =$n$t$t$t$tgremlin_bytes_decode_at(src, offset, len);$n$t$t$tif (d.error != GREMLIN_OK) return d.error;$n$t$t$toffset += d.consumed;$n''),
      W (tx ''$t$t$tr->''), W fname,
      W (tx ''.data = d.bytes.data;$n$t$t$tr->''), W fname,
      W (tx ''.len = d.bytes.len;$n$t$t$t/*@ assert gremlin_span_at((uint8_t *)r->''), W fname, W ''.data, r->'',
      W fname, W (tx ''.len, (uint8_t *)src, len); */$n''),
      W (tx ''$t$t$tr->_has.''), W fname, W (tx '' = 1;$n''),
      W (tx ''$t$t$tcontinue;$n$t$t}$n'')]"

text \<open>The buffer of the text is twice the escaped default and 128 more; it always suffices.\<close>

definition gremlinc_bytes_resolve_default ::
    "parser_buffer \<Rightarrow> gremlind_field \<Rightarrow> 'w pool \<Rightarrow> string option \<times> 'w pool" where
  "gremlinc_bytes_resolve_default b f p =
     (case nf_default f of
        None \<Rightarrow> (Some ''(struct gremlin_bytes){ NULL, 0 }'', p)
      | Some c \<Rightarrow>
          (case gremlinc_const_to_bytes b c p of (r, p1) \<Rightarrow>
             if cr_error r \<noteq> None then (None, p1)
             else
               (let escaped = the (cr_value r); needed = length escaped * 2 + 128 in
                case pool_alloc needed p1 of (ok, p2) \<Rightarrow>
                  if \<not> ok then (None, p2)
                  else
                    (let shown = c_str escaped;
                         text = tx ''(struct gremlin_bytes){ .data = (const uint8_t *)$q'' @ shown
                           @ tx ''$q, .len = sizeof($q'' @ shown @ tx ''$q) - 1 }'' in
                     if length text = 0 \<or> length text \<ge> needed then (None, p2) else (Some text, p2)))))"

section \<open>Enums\<close>

abbreviation (input) WT_VARINT_NUM :: u32 where "WT_VARINT_NUM \<equiv> 0"

definition gremlinc_enum_ref_emit_size_field :: "bool \<Rightarrow> gremlind_field \<Rightarrow> string \<Rightarrow> string \<Rightarrow> piece list" where
  "gremlinc_enum_ref_emit_size_field gnu f fname default_lit =
     [W (tx ''$tif (m->''), W fname, W '' != '', W default_lit, W (tx '') {$n''),
      W (tx ''$t$ts += ''), WI (int (tag_bytes gnu f WT_VARINT_NUM)),
      W (tx ''$n$t$t   + gremlin_varint_size(gremlin_enum_wire(m->''), W fname, W (tx ''));$n''),
      W (tx ''$t}$n'')]"

definition gremlinc_enum_ref_emit_encode_field :: "gremlind_field \<Rightarrow> string \<Rightarrow> string \<Rightarrow> piece list" where
  "gremlinc_enum_ref_emit_encode_field f fname default_lit =
     [W (tx ''$tif (m->''), W fname, W '' != '', W default_lit, W (tx '') {$n''),
      W (tx ''$t$t_off = gremlin_varint32_encode_at(_buf, _off, ''), WI (uint (packed_tag f WT_VARINT_NUM)),
      W (tx ''u);$n''),
      W (tx ''$t$t_off = gremlin_varint_encode_at(_buf, _off, gremlin_enum_wire(m->''), W fname, W (tx ''));$n''),
      W (tx ''$t}$n'')]"

text \<open>\<open>c_name\<close> is \<open>f->type.u.enumeration->c_name\<close>.\<close>

definition gremlinc_enum_ref_emit_reader_arm :: "string \<Rightarrow> gremlind_field \<Rightarrow> string \<Rightarrow> piece list" where
  "gremlinc_enum_ref_emit_reader_arm c_name f fname =
     [W (tx ''$t$tif (t.value == ''), WI (uint (packed_tag f WT_VARINT_NUM)),
      W ''u /* field '', WI (nf_index f), W (tx '', GREMLIN_WIRE_VARINT */) {$n''),
      W (tx ''$t$t$tstruct gremlin_varint_decode_result d =$n$t$t$t$tgremlin_varint_decode(src + offset, len - offset);$n$t$t$tif (d.error != GREMLIN_OK) return d.error;$n$t$t$toffset += d.consumed;$n''),
      W (tx ''$t$t$tr->''), W fname, W '' = ('', W c_name,
      W (tx '')(int32_t)(uint32_t)d.value;$n''),
      W (tx ''$t$t$tr->_has.''), W fname, W (tx '' = 1;$n''),
      W (tx ''$t$t$tcontinue;$n$t$t}$n'')]"

text \<open>\<open>target\<close> is the enum \<open>f->type\<close> refers to.\<close>

definition gremlinc_enum_ref_resolve_default ::
    "parser_buffer \<Rightarrow> gremlind_enum option \<Rightarrow> gremlind_field \<Rightarrow> 'w pool \<Rightarrow> string option \<times> 'w pool" where
  "gremlinc_enum_ref_resolve_default b target f p =
     (case nf_default f of
        None \<Rightarrow> (Some ''0'', p)
      | Some c \<Rightarrow>
          (let r = gremlinc_const_to_enum b c target in
           if cr_error r \<noteq> None then (None, p)
           else
             (let buf = show_int (cr_value r) in
              if length buf = 0 \<or> length buf \<ge> 32 then (None, p)
              else case pool_alloc (length buf + 1) p of (ok, p1) \<Rightarrow>
                if ok then (Some buf, p1) else (None, p1))))"

section \<open>An example\<close>

definition sample_field :: "int \<Rightarrow> gremlinp_const option \<Rightarrow> gremlind_field" where
  "sample_field n d = \<lparr>nf_name = ''ok'', nf_label = GREMLINP_FIELD_LABEL_NONE, nf_index = n,
     nf_written = Written_Named ''bool'', nf_options = \<lparr>ol_start = 0, ol_end = 0, ol_count = 0\<rparr>,
     nf_type = GREMLIND_TYPE_REF_BUILTIN ''bool'', nf_default = d, nf_packing = GREMLIND_PACKING_EXPANDED,
     nf_origin_file = None, nf_origin_scope = None\<rparr>"

end
