(* ===== verification/Emit_Correct.thy ===== *)
theory Emit_Correct
  imports Emit_Fields Runtime_Fixed
begin

text \<open>
  What the code printed for singular fields means: the tag its writer emits is the one
  its reader compares with and its size counts, a scalar goes through one codec of the
  runtime in all three, and a default is printed as a C constant of the right
  value and type.
\<close>

section \<open>Numbers in the printed text\<close>

text \<open>The value of a decimal C constant with the suffix \<open>u\<close>, perhaps behind a minus, which
  C takes modulo \<open>2 ^ 32\<close>.\<close>

definition c_unsigned :: "string \<Rightarrow> u32 option" where
  "c_unsigned s =
     (case split_sign s of (neg, ds) \<Rightarrow>
        if ds \<noteq> [] \<and> list_all is_digit ds \<and> digits_value 10 ds < 2 ^ 32
        then Some (if neg then - word_of_nat (digits_value 10 ds) else word_of_nat (digits_value 10 ds))
        else None)"

definition is_number :: "piece \<Rightarrow> bool" where
  "is_number x = (case x of W _ \<Rightarrow> False | WI _ \<Rightarrow> True)"

definition numbers :: "piece list \<Rightarrow> string list" where
  "numbers xs = map piece_text (filter is_number xs)"

lemma numbers_simps [simp]:
  "numbers [] = []"
  "numbers (W s # xs) = numbers xs"
  "numbers (WI v # xs) = show_int (int32_cast v) # numbers xs"
  "numbers (xs @ ys) = numbers xs @ numbers ys"
  by (simp_all add: numbers_def is_number_def piece_text_def)

lemma split_sign_digits: "list_all is_digit ds \<Longrightarrow> split_sign ds = (False, ds)"
  by (cases ds) (auto simp: split_sign_def is_digit_def char_le_iff)

lemma word_of_int_sint_cast: "word_of_int (sint (word_of_int v :: 32 word)) = (word_of_int v :: u32)"
  by simp

lemma c_unsigned_digits:
  "list_all is_digit ds \<Longrightarrow> ds \<noteq> [] \<Longrightarrow> digits_value 10 ds < 2 ^ 32 \<Longrightarrow>
   c_unsigned ds = Some (word_of_nat (digits_value 10 ds)) \<and>
   c_unsigned (CHR ''-'' # ds) = Some (- word_of_nat (digits_value 10 ds))"
  by (simp add: c_unsigned_def split_sign_digits) (simp add: split_sign_def)

lemma c_unsigned_show_nat:
  "n < 2 ^ 32 \<Longrightarrow> c_unsigned (show_nat n) = Some (word_of_nat n) \<and> c_unsigned (CHR ''-'' # show_nat n) = Some (- word_of_nat n)"
  using c_unsigned_digits [OF show_nat_digits show_nat_not_Nil] by (simp only: show_nat_value)

lemma c_unsigned_show: "c_unsigned (show_int (int32_cast v)) = Some (word_of_int v)"
proof -
  let ?i = "int32_cast v"
  have w: "word_of_int ?i = (word_of_int v :: u32)" unfolding int32_cast_def by (rule word_of_int_sint_cast)
  note r = int32_cast_range [of v]
  show ?thesis
  proof (cases "?i < 0")
    case True
    have "nat (- ?i) < 4294967296" using r True by linarith
    then have "nat (- ?i) < 2 ^ 32" by simp
    note c = c_unsigned_show_nat [OF this]
    have "(- word_of_nat (nat (- ?i)) :: u32) = - word_of_int (int (nat (- ?i)))" by (simp only: of_int_of_nat_eq)
    also have "\<dots> = word_of_int ?i" using True by (simp only: int_nat_eq) simp
    finally show ?thesis using c True w by (simp add: show_int_def)
  next
    case False
    have "nat ?i < 4294967296" using r False by linarith
    then have "nat ?i < 2 ^ 32" by simp
    note c = c_unsigned_show_nat [OF this]
    have "(word_of_nat (nat ?i) :: u32) = word_of_int (int (nat ?i))" by (simp only: of_int_of_nat_eq)
    also have "\<dots> = word_of_int ?i" using False by simp
    finally show ?thesis using c False w by (simp add: show_int_def)
  qed
qed

section \<open>Tags\<close>

unbundle bit_operations_syntax

lemma packed_tag_eq:
  assumes "wt < 8"
  shows "packed_tag f wt = word_of_int (nf_index f * 8 + uint wt)"
proof -
  let ?w = "word_of_int (nf_index f) :: u32"
  have "unat wt < 2 ^ 3" using assms by (simp add: word_less_nat_alt)
  note lt = this
  have "\<not> bit wt n" if n: "3 \<le> n" for n
  proof (rule notI)
    assume "bit wt n"
    then have "odd (unat wt div 2 ^ n)" by (simp add: bit_unsigned_iff flip: bit_iff_odd)
    moreover have "unat wt < 2 ^ n"
      using lt power_increasing [OF n, of "2 :: nat"] by linarith
    ultimately show False by simp
  qed
  then have "\<not> bit (push_bit 3 ?w) n \<or> \<not> bit wt n" for n by (auto simp: bit_push_bit_iff)
  then have "push_bit 3 ?w OR wt = push_bit 3 ?w + wt" by (rule disjunctive_add [symmetric])
  also have "\<dots> = word_of_int (nf_index f * 8 + uint wt)" by (simp add: push_bit_eq_mult)
  finally show ?thesis by (simp add: packed_tag_def)
qed

lemma mod_block: "0 \<le> b \<Longrightarrow> b < 8 \<Longrightarrow> (a * 8 + b) mod 2 ^ 32 = (a mod 2 ^ 29) * 8 + (b :: int)"
proof -
  assume b: "0 \<le> b" "b < 8"
  let ?q = "a div 2 ^ 29" and ?r = "a mod 2 ^ 29"
  have r: "0 \<le> ?r" "?r < 2 ^ 29" by simp_all
  have alg: "(q * 2 ^ 29 + r) * 8 + b = (r * 8 + b) + 2 ^ 32 * q" for q r :: int by simp
  have "a * 8 + b = (?r * 8 + b) + 2 ^ 32 * ?q" using alg [of ?q ?r] by (simp only: div_mult_mod_eq)
  then have "(a * 8 + b) mod 2 ^ 32 = (?r * 8 + b) mod 2 ^ 32" by (simp only: mod_mult_self2)
  also have "\<dots> = ?r * 8 + b" using r b by (intro mod_pos_pos_trivial) simp_all
  finally show ?thesis .
qed

lemma packed_tag_value:
  assumes "wt < 8"
  shows "uint (packed_tag f wt) = (nf_index f mod 2 ^ 29) * 8 + uint wt"
proof -
  have "0 \<le> uint wt" "uint wt < 8" using assms by (simp_all add: word_less_def)
  then show ?thesis
    using mod_block [of "uint wt" "nf_index f"] by (simp only: packed_tag_eq [OF assms] uint_word_of_int take_bit_eq_mod) simp
qed

lemma tag_bytes_eq: "tag_bytes gnu f wt = length (leb128 (unat (packed_tag f wt)))"
proof -
  have "unat (ucast (packed_tag f wt) :: u64) = unat (packed_tag f wt)" by (simp add: unsigned_ucast_eq take_bit_nat_eq_self_iff less_le_trans [OF unsigned_less])
  then show ?thesis unfolding tag_bytes_def by (simp only: varint.vsize_image)
qed

lemma tag_bytes_small: "int32_cast (int (tag_bytes gnu f wt)) = int (tag_bytes gnu f wt)"
proof -
  have "unat (packed_tag f wt) < 2 ^ 32" using unsigned_less [of "packed_tag f wt"] by simp
  then have "tag_bytes gnu f wt \<le> 5"
    using varint_size_32 [of "unat (packed_tag f wt)"] varint32.vsize_image [of "packed_tag f wt"]
    by (simp add: tag_bytes_eq varint32_size_spec)
  then show ?thesis by (intro int32_cast_id) simp_all
qed

lemma show_int_nat: "show_int (int n) = show_nat n"
  by (simp add: show_int_def)

text \<open>
  The code printed for one field: \<open>size\<close> counts the bytes of the tag, the writer emits the
  tag, the arm of the reader is entered on the tag and shows the number of the field.
\<close>

definition tag_agrees :: "gremlind_field \<Rightarrow> u32 \<Rightarrow> piece list \<Rightarrow> piece list \<Rightarrow> piece list \<Rightarrow> bool" where
  "tag_agrees f wt sz enc arm \<longleftrightarrow>
     (\<exists>t n lit shown. numbers sz = [show_nat n] \<and> numbers enc = [lit] \<and> numbers arm = [lit, shown] \<and>
        c_unsigned lit = Some t \<and> uint t = (nf_index f mod 2 ^ 29) * 8 + uint wt \<and>
        n = length (leb128 (unat t)) \<and>
        (\<forall>mem off. off + n \<le> length mem \<longrightarrow>
           gremlin_varint32_encode_at mem off t = Some (blit mem off (leb128 (unat t)), off + n)) \<and>
        (\<forall>rest. gremlin_varint32_decode (leb128 (unat t) @ rest) = Inr (t, n)))"

lemma tag_agreesI:
  assumes "wt < 8" and "numbers sz = [show_int (int32_cast (int (tag_bytes gnu f wt)))]"
    and "numbers enc = [show_int (int32_cast (uint (packed_tag f wt)))]"
    and "numbers arm = [show_int (int32_cast (uint (packed_tag f wt))), shown]"
  shows "tag_agrees f wt sz enc arm"
  unfolding tag_agrees_def
proof (intro exI conjI allI impI)
  let ?t = "packed_tag f wt"
  show "numbers sz = [show_nat (tag_bytes gnu f wt)]" using assms(2) by (simp only: tag_bytes_small show_int_nat)
  show "c_unsigned (show_int (int32_cast (uint ?t))) = Some ?t" by (simp add: c_unsigned_show)
  show "uint ?t = (nf_index f mod 2 ^ 29) * 8 + uint wt" by (rule packed_tag_value [OF assms(1)])
  show n: "tag_bytes gnu f wt = length (leb128 (unat ?t))" by (rule tag_bytes_eq)
  fix mem off rest
  show "gremlin_varint32_encode_at mem off ?t = Some (blit mem off (leb128 (unat ?t)), off + tag_bytes gnu f wt)"
    if "off + tag_bytes gnu f wt \<le> length mem"
    using varint32.enc_image [where v = ?t and off = off and mem = mem] that varint32.vsize_image [of ?t] by (simp add: n)
  show "gremlin_varint32_decode (leb128 (unat ?t) @ rest) = Inr (?t, tag_bytes gnu f wt)"
    using varint32_decode_image [of ?t rest] varint32.vsize_image [of ?t] by (simp add: n varint32_size_spec)
qed (use assms(3,4) in simp_all)

lemma SCALARS_wire: "si \<in> set SCALARS \<Longrightarrow> si_wire_type si < 8"
  by (auto simp: SCALARS_def scalar_row_def)

lemma numbers_values [simp]:
  "numbers (scalar_size_value k fname) = []"
  "numbers (scalar_encode_value k fname) = []"
  "numbers (scalar_reader_varint k fname) = []"
  "numbers (scalar_reader_varint32 k fname) = []"
  "numbers (scalar_reader_fixed32 k fname) = []"
  "numbers (scalar_reader_fixed64 k fname) = []"
  by (cases k; simp add: scalar_size_value_def scalar_encode_value_def scalar_reader_varint_def scalar_reader_varint32_def
      scalar_reader_fixed32_def scalar_reader_fixed64_def)+

lemma numbers_guard [simp]: "numbers (fst (emit_presence_guard b f fname p)) = []"
  by (simp add: emit_presence_guard_def Let_def split: option.split prod.split)

text \<open>C10. The tag in the code of a singular field, for each of the three families: the constant
  that the writer passes to \<open>gremlin_varint32_encode_at\<close> and the one that the arm of the
  reader compares with are the same text, a C constant whose value is the number of the
  field times 8 plus the wire type, whatever the sign it is printed with; the number
  that the size adds is the number of bytes that the runtime writes for this tag, and
  the runtime reads them back as this tag.  Numbers from \<open>2 ^ 29\<close> on, which the
  parser accepts, lose their upper bits: two fields of one wire type have the
  same tag exactly when their numbers agree modulo \<open>2 ^ 29\<close>.\<close>
theorem tags_agree:
  "(si \<in> set SCALARS \<longrightarrow>
      tag_agrees f (si_wire_type si) (gremlinc_scalar_emit_size_field gnu f si fname d)
        (gremlinc_scalar_emit_encode_field f si fname d) (gremlinc_scalar_emit_reader_arm f si fname)) \<and>
   tag_agrees f 2 (fst (gremlinc_bytes_emit_size_field gnu b f fname p))
     (fst (gremlinc_bytes_emit_encode_field b f fname p)) (gremlinc_bytes_emit_reader_arm f fname) \<and>
   tag_agrees f 0 (gremlinc_enum_ref_emit_size_field gnu f fname d)
     (gremlinc_enum_ref_emit_encode_field f fname d) (gremlinc_enum_ref_emit_reader_arm c_name f fname) \<and>
   (wt < 8 \<longrightarrow> (packed_tag f wt = packed_tag g wt \<longleftrightarrow> nf_index f mod 2 ^ 29 = nf_index g mod 2 ^ 29))"
proof (intro conjI impI)
  assume si: "si \<in> set SCALARS"
  show "tag_agrees f (si_wire_type si) (gremlinc_scalar_emit_size_field gnu f si fname d)
        (gremlinc_scalar_emit_encode_field f si fname d) (gremlinc_scalar_emit_reader_arm f si fname)"
    by (rule tag_agreesI [OF SCALARS_wire [OF si]])
      (simp_all add: gremlinc_scalar_emit_size_field_def gremlinc_scalar_emit_encode_field_def gremlinc_scalar_emit_reader_arm_def)
next
  show "tag_agrees f 2 (fst (gremlinc_bytes_emit_size_field gnu b f fname p))
     (fst (gremlinc_bytes_emit_encode_field b f fname p)) (gremlinc_bytes_emit_reader_arm f fname)"
    by (rule tag_agreesI [where gnu = gnu]) (simp_all add: gremlinc_bytes_emit_size_field_def
        gremlinc_bytes_emit_encode_field_def gremlinc_bytes_emit_reader_arm_def case_prod_unfold)
next
  show "tag_agrees f 0 (gremlinc_enum_ref_emit_size_field gnu f fname d)
     (gremlinc_enum_ref_emit_encode_field f fname d) (gremlinc_enum_ref_emit_reader_arm c_name f fname)"
    by (rule tag_agreesI) (simp_all add: gremlinc_enum_ref_emit_size_field_def gremlinc_enum_ref_emit_encode_field_def
        gremlinc_enum_ref_emit_reader_arm_def)
next
  assume wt: "wt < 8"
  have "packed_tag f wt = packed_tag g wt \<longleftrightarrow> uint (packed_tag f wt) = uint (packed_tag g wt)"
    by (rule word_uint_eq_iff)
  then show "packed_tag f wt = packed_tag g wt \<longleftrightarrow> nf_index f mod 2 ^ 29 = nf_index g mod 2 ^ 29"
    by (simp add: packed_tag_value [OF wt])
qed

lemma tags_agree_witness:
  "tag_agrees (sample_field 16 None) 0
     (gremlinc_scalar_emit_size_field True (sample_field 16 None) (scalar_row ''bool'' ''bool'' 0 ''GREMLIN_WIRE_VARINT'' SCALAR_BOOL) ''ok'' ''false'')
     (gremlinc_scalar_emit_encode_field (sample_field 16 None) (scalar_row ''bool'' ''bool'' 0 ''GREMLIN_WIRE_VARINT'' SCALAR_BOOL) ''ok'' ''false'')
     (gremlinc_scalar_emit_reader_arm (sample_field 16 None) (scalar_row ''bool'' ''bool'' 0 ''GREMLIN_WIRE_VARINT'' SCALAR_BOOL) ''ok'')
   \<and> packed_tag (sample_field 1 None) 5 = packed_tag (sample_field 536870913 None) 5"
  (is "tag_agrees ?f _ (gremlinc_scalar_emit_size_field True ?f ?si _ _) _ _ \<and> packed_tag ?g _ = packed_tag ?h _")
proof -
  have si: "?si \<in> set SCALARS" by (simp add: SCALARS_def)
  have "si_wire_type ?si = 0" by (simp add: scalar_row_def)
  then show ?thesis
    using conjunct1 [OF tags_agree [where si = ?si and f = ?f and gnu = True and fname = "''ok''" and d = "''false''"
          and p = "sample_pool 0"]] si
      conjunct2 [OF conjunct2 [OF conjunct2 [OF tags_agree [where f = ?g and g = ?h and wt = 5 and p = "sample_pool 0"]]]]
    by (simp add: sample_field_def)
qed

section \<open>One codec for each scalar\<close>

text \<open>The codec of a kind and the expression that is encoded, around the name of the member.\<close>

definition scalar_codec :: "scalar_kind \<Rightarrow> string \<times> string \<times> string" where
  "scalar_codec k = (case k of
     SCALAR_INT32 \<Rightarrow> (''varint'', ''(uint64_t)(int64_t)m->'', '''')
   | SCALAR_INT64 \<Rightarrow> (''varint'', ''(uint64_t)m->'', '''')
   | SCALAR_UINT32 \<Rightarrow> (''varint32'', ''m->'', '''')
   | SCALAR_UINT64 \<Rightarrow> (''varint'', ''m->'', '''')
   | SCALAR_SINT32 \<Rightarrow> (''varint32'', ''gremlin_zigzag32(m->'', '')'')
   | SCALAR_SINT64 \<Rightarrow> (''varint'', ''gremlin_zigzag64(m->'', '')'')
   | SCALAR_FIXED32 \<Rightarrow> (''fixed32'', ''m->'', '''')
   | SCALAR_FIXED64 \<Rightarrow> (''fixed64'', ''m->'', '''')
   | SCALAR_SFIXED32 \<Rightarrow> (''fixed32'', ''(uint32_t)m->'', '''')
   | SCALAR_SFIXED64 \<Rightarrow> (''fixed64'', ''(uint64_t)m->'', '''')
   | SCALAR_DOUBLE \<Rightarrow> (''fixed64'', ''gremlin_f64_bits(m->'', '')'')
   | SCALAR_FLOAT \<Rightarrow> (''fixed32'', ''gremlin_f32_bits(m->'', '')'')
   | SCALAR_BOOL \<Rightarrow> (''varint32'', ''m->'', '' ? 1u : 0u''))"

text \<open>The number of bytes that the size adds where it does not ask the runtime.\<close>

definition constant_size :: "scalar_kind \<Rightarrow> nat option" where
  "constant_size k = (if fst (scalar_codec k) = ''fixed32'' then Some gremlin_fixed32_size
     else if fst (scalar_codec k) = ''fixed64'' then Some gremlin_fixed64_size
     else if k = SCALAR_BOOL then Some (length (leb128 1)) else None)"

definition codec_wire_type :: "string \<Rightarrow> u32" where
  "codec_wire_type codec = (if codec = ''fixed32'' then 5 else if codec = ''fixed64'' then 1 else 0)"

lemma tx_plain: "CHR ''$'' \<notin> set s \<Longrightarrow> tx s = s"
  by (induction s) (auto simp: tx.simps)

definition size_call :: "scalar_kind \<Rightarrow> string \<Rightarrow> string" where
  "size_call k fname = (case scalar_codec k of (codec, pre, post) \<Rightarrow>
     (case constant_size k of
        Some n \<Rightarrow> ''+ '' @ show_nat n
      | None \<Rightarrow> ''+ gremlin_'' @ codec @ ''_size('' @ pre @ fname @ post @ '')''))"

definition encode_call :: "scalar_kind \<Rightarrow> string \<Rightarrow> string" where
  "encode_call k fname = (case scalar_codec k of (codec, pre, post) \<Rightarrow>
     ''_off = gremlin_'' @ codec @ ''_encode_at(_buf, _off, '' @ pre @ fname @ post @ '');'')"

definition decode_call :: "scalar_kind \<Rightarrow> string" where
  "decode_call k = (case scalar_codec k of (codec, _) \<Rightarrow> ''gremlin_'' @ codec @ ''_decode(src + offset, len - offset);'')"

lemma show_digits: "show_nat (Suc 0) = ''1''" "show_nat 4 = ''4''" "show_nat 8 = ''8''"
  by code_simp+

lemma size_value_text:
  "text_of (scalar_size_value k fname) =
     (if fst (scalar_codec k) = ''varint'' then tx ''$n$t$t   '' else '' '') @ size_call k (c_str fname)"
  by (cases k; simp add: scalar_size_value_def size_call_def scalar_codec_def constant_size_def piece_text_def
      tx.simps c_str_def gremlin_fixed32_size_def gremlin_fixed64_size_def show_digits)

lemma encode_value_text:
  "text_of (scalar_encode_value k fname) = tx ''$t$t'' @ encode_call k (c_str fname) @ [newline]"
  by (cases k; simp add: scalar_encode_value_def encode_call_def scalar_codec_def piece_text_def tx.simps c_str_def)

lemma sublist_first: "sublist call (c_str s) \<Longrightarrow> sublist call (text_of (W s # ys))"
  by (auto simp: piece_text_def sublist_def) (metis append.assoc)

lemma reader_literals:
  "sublist (''gremlin_varint32_decode(src + offset, len - offset);'')
     (c_str (tx ''$t$t$tstruct gremlin_varint32_decode_result d =$n$t$t$t$tgremlin_varint32_decode(src + offset, len - offset);$n$t$t$tif (d.error != GREMLIN_OK) return d.error;$n$t$t$toffset += d.consumed;$n''))"
  "sublist (''gremlin_varint_decode(src + offset, len - offset);'')
     (c_str (tx ''$t$t$tstruct gremlin_varint_decode_result d =$n$t$t$t$tgremlin_varint_decode(src + offset, len - offset);$n$t$t$tif (d.error != GREMLIN_OK) return d.error;$n$t$t$toffset += d.consumed;$n''))"
  "sublist (''gremlin_fixed32_decode(src + offset, len - offset);'')
     (c_str (tx ''$t$t$tstruct gremlin_fixed32_decode_result d =$n$t$t$t$tgremlin_fixed32_decode(src + offset, len - offset);$n$t$t$tif (d.error != GREMLIN_OK) return d.error;$n$t$t$toffset += 4;$n''))"
  "sublist (''gremlin_fixed64_decode(src + offset, len - offset);'')
     (c_str (tx ''$t$t$tstruct gremlin_fixed64_decode_result d =$n$t$t$t$tgremlin_fixed64_decode(src + offset, len - offset);$n$t$t$tif (d.error != GREMLIN_OK) return d.error;$n$t$t$toffset += 8;$n''))"
  by code_simp+

lemma sublist_middle: "sublist x ys \<Longrightarrow> sublist x (xs @ ys @ zs)"
  unfolding sublist_def by (metis append.assoc)

definition scalar_reader :: "scalar_kind \<Rightarrow> string \<Rightarrow> piece list" where
  "scalar_reader k fname =
     (if is_varint k then
        (if gremlinc_kind_uses_varint32 k then scalar_reader_varint32 k fname else scalar_reader_varint k fname)
      else if is_fixed32 k then scalar_reader_fixed32 k fname
      else scalar_reader_fixed64 k fname)"

lemma reader_starts:
  "sublist ''gremlin_varint32_decode(src + offset, len - offset);'' (text_of (scalar_reader_varint32 k fname))"
  "sublist ''gremlin_varint_decode(src + offset, len - offset);'' (text_of (scalar_reader_varint k fname))"
  "sublist ''gremlin_fixed32_decode(src + offset, len - offset);'' (text_of (scalar_reader_fixed32 k fname))"
  "sublist ''gremlin_fixed64_decode(src + offset, len - offset);'' (text_of (scalar_reader_fixed64 k fname))"
  unfolding scalar_reader_varint32_def scalar_reader_varint_def scalar_reader_fixed32_def scalar_reader_fixed64_def
    append_Cons append_Nil
  by (rule sublist_first, rule reader_literals)+

lemma scalar_reader_text: "sublist (decode_call k) (text_of (scalar_reader k fname))"
  using reader_starts by (cases k; simp add: scalar_reader_def is_varint_def is_fixed32_def gremlinc_kind_uses_varint32_def
      decode_call_def scalar_codec_def)

lemma reader_arm_text: "sublist (decode_call (si_kind si)) (text_of (gremlinc_scalar_emit_reader_arm f si fname))"
  unfolding gremlinc_scalar_emit_reader_arm_def text_of_simps(3) scalar_reader_def [symmetric]
  by (rule sublist_middle [OF scalar_reader_text])

lemma size_field_text:
  "text_of (gremlinc_scalar_emit_size_field gnu f si fname d) =
     tx ''$tif (m->'' @ c_str fname @ '' != '' @ c_str d @ tx '') {$n$t$ts += '' @ show_nat (tag_bytes gnu f (si_wire_type si))
     @ text_of (scalar_size_value (si_kind si) fname) @ tx '';$n$t}$n''"
  by (simp add: gremlinc_scalar_emit_size_field_def piece_text_def tag_bytes_small show_int_nat tx.simps c_str_def)

lemma SCALARS_codec:
  "si \<in> set SCALARS \<Longrightarrow> si_wire_type si = codec_wire_type (fst (scalar_codec (si_kind si)))"
  by (auto simp: SCALARS_def scalar_row_def scalar_codec_def codec_wire_type_def)

text \<open>C18. The code of a scalar field goes through one codec of the runtime: the size adds
  what this codec says of an expression, or the constant that it says of every value,
  the writer encodes the same expression with it, the reader decodes with it, and the
  wire type in the tag is that of the codec; the whole stands behind the same test
  of the member against its default in the size and in the writer.\<close>
theorem scalar_code_agrees:
  assumes "si \<in> set SCALARS"
  shows "text_of (gremlinc_scalar_emit_size_field gnu f si fname d) =
      tx ''$tif (m->'' @ c_str fname @ '' != '' @ c_str d @ tx '') {$n$t$ts += '' @ show_nat (tag_bytes gnu f (si_wire_type si))
      @ (if fst (scalar_codec (si_kind si)) = ''varint'' then tx ''$n$t$t   '' else '' '') @ size_call (si_kind si) (c_str fname)
      @ tx '';$n$t}$n''
    \<and> text_of (gremlinc_scalar_emit_encode_field f si fname d) =
      tx ''$tif (m->'' @ c_str fname @ '' != '' @ c_str d @ tx '') {$n$t$t_off = gremlin_varint32_encode_at(_buf, _off, ''
      @ show_int (int32_cast (uint (packed_tag f (si_wire_type si)))) @ tx ''u);$n$t$t''
      @ encode_call (si_kind si) (c_str fname) @ tx ''$n$t}$n''
    \<and> sublist (decode_call (si_kind si)) (text_of (gremlinc_scalar_emit_reader_arm f si fname))
    \<and> si_wire_type si = codec_wire_type (fst (scalar_codec (si_kind si)))"
proof (intro conjI)
  show "text_of (gremlinc_scalar_emit_encode_field f si fname d) =
      tx ''$tif (m->'' @ c_str fname @ '' != '' @ c_str d @ tx '') {$n$t$t_off = gremlin_varint32_encode_at(_buf, _off, ''
      @ show_int (int32_cast (uint (packed_tag f (si_wire_type si)))) @ tx ''u);$n$t$t''
      @ encode_call (si_kind si) (c_str fname) @ tx ''$n$t}$n''"
    by (simp add: gremlinc_scalar_emit_encode_field_def encode_value_text piece_text_def tx.simps c_str_def)
qed (simp_all only: size_field_text size_value_text append_assoc SCALARS_codec [OF assms] reader_arm_text)

lemma scalar_code_agrees_witness:
  "text_of (gremlinc_scalar_emit_size_field True (sample_field 1 None)
      (scalar_row ''bool'' ''bool'' 0 ''GREMLIN_WIRE_VARINT'' SCALAR_BOOL) ''ok'' ''false'') =
     tx ''$tif (m->ok != false) {$n$t$ts += '' @ show_nat (tag_bytes True (sample_field 1 None) 0) @ tx '' + 1;$n$t}$n''"
  (is "text_of (gremlinc_scalar_emit_size_field True ?f ?si ''ok'' ''false'') = _")
proof -
  have "?si \<in> set SCALARS" by (simp add: SCALARS_def)
  from conjunct1 [OF scalar_code_agrees [OF this, of True ?f "''ok''" "''false''"]] show ?thesis
    by (simp add: scalar_row_def scalar_codec_def size_call_def constant_size_def show_digits c_str_def tx.simps)
qed

end
