(* ===== verification/Emit_Defaults.thy ===== *)
theory Emit_Defaults
  imports Emit_Fields
begin

text \<open>
  The C constants that stand for the defaults of fields: an integer is printed with the
  value and the type of the member it is compared with, a float or double
  beyond a limit of the generator is printed as infinite.
\<close>

section \<open>C constants\<close>

datatype c_type = C_int32 | C_uint32 | C_int64 | C_uint64

text \<open>
  The value and type of a C integer constant on an LP64 target, perhaps behind a minus:
  decimal digits without a leading zero and a suffix, or a macro of \<open>stdint.h\<close>.
\<close>

definition signed_value :: "bool \<Rightarrow> nat \<Rightarrow> int" where
  "signed_value neg n = (if neg then - int n else int n)"

definition c_integer :: "string \<Rightarrow> (int \<times> c_type) option" where
  "c_integer s =
     (if s = ''INT32_MIN'' then Some (- 2147483648, C_int32)
      else if s = ''INT64_MIN'' then Some (- 9223372036854775808, C_int64)
      else
        (case split_sign s of (neg, r) \<Rightarrow>
           let ds = takeWhile is_digit r; sfx = dropWhile is_digit r; n = digits_value 10 ds in
           if ds = [] \<or> (1 < length ds \<and> hd ds = CHR ''0'') then None
           else if sfx = [] \<and> n < 2147483648 then Some (signed_value neg n, C_int32)
           else if (sfx = [] \<or> sfx = ''LL'') \<and> n < 9223372036854775808 then Some (signed_value neg n, C_int64)
           else if sfx = ''u'' \<and> n < 4294967296 \<and> \<not> neg then Some (int n, C_uint32)
           else if sfx = ''ULL'' \<and> n < 18446744073709551616 \<and> \<not> neg then Some (int n, C_uint64)
           else None))"

lemma show_nat_first: "0 < n \<Longrightarrow> hd (show_nat n) \<noteq> CHR ''0''"
proof (induction n rule: show_nat.induct)
  case (1 n)
  show ?case
  proof (cases "n < 10")
    case True
    then have "n \<in> {1, 2, 3, 4, 5, 6, 7, 8, 9}" using "1.prems" by auto
    then show ?thesis by (elim insertE emptyE; simp add: show_nat.simps [of n]; code_simp)
  next
    case False
    then show ?thesis using 1 by (subst show_nat.simps) (simp add: hd_append)
  qed
qed

lemma show_nat_leading: "1 < length (show_nat n) \<Longrightarrow> hd (show_nat n) \<noteq> CHR ''0''"
  using show_nat_first [of n] by (cases n) (auto simp: show_nat.simps [of 0])

lemma split_shown:
  assumes "sfx = [] \<or> \<not> is_digit (hd sfx)"
  shows "takeWhile is_digit (show_nat n @ sfx) = show_nat n" "dropWhile is_digit (show_nat n @ sfx) = sfx"
proof -
  have d: "\<forall>c \<in> set (show_nat n). is_digit c" using show_nat_digits [of n] by (simp add: list_all_iff)
  show "takeWhile is_digit (show_nat n @ sfx) = show_nat n"
    using d assms by (cases sfx) (simp_all add: takeWhile_append2 takeWhile_eq_all_conv)
  show "dropWhile is_digit (show_nat n @ sfx) = sfx"
    using d assms by (cases sfx) (simp_all add: dropWhile_append2 dropWhile_eq_self_iff)
qed

lemma split_sign_shown: "split_sign (show_int v @ sfx) = (v < 0, show_nat (nat \<bar>v\<bar>) @ sfx)"
proof (cases "v < 0")
  case True
  then show ?thesis by (simp add: show_int_def split_sign_def)
next
  case False
  have "is_digit (hd (show_nat (nat v)))" using show_nat_digits [of "nat v"] by (cases "show_nat (nat v)") auto
  then show ?thesis using False
    by (cases "show_nat (nat v)") (auto simp: show_int_def split_sign_def is_digit_def char_le_iff)
qed

lemma shown_no_macro: "hd (show_int v @ sfx) \<noteq> CHR ''I''"
proof (cases "v < 0")
  case False
  have "is_digit (hd (show_nat (nat v)))" using show_nat_digits [of "nat v"] by (cases "show_nat (nat v)") auto
  then show ?thesis using False by (auto simp: show_int_def is_digit_def char_le_iff)
qed (simp add: show_int_def)

lemma c_integer_shown:
  assumes "sfx \<in> {[], ''LL'', ''u'', ''ULL''}"
  shows "c_integer (show_int v @ sfx) =
    (if sfx = [] \<and> \<bar>v\<bar> < 2147483648 then Some (v, C_int32)
     else if (sfx = [] \<or> sfx = ''LL'') \<and> \<bar>v\<bar> < 9223372036854775808 then Some (v, C_int64)
     else if sfx = ''u'' \<and> \<bar>v\<bar> < 4294967296 \<and> 0 \<le> v then Some (v, C_uint32)
     else if sfx = ''ULL'' \<and> \<bar>v\<bar> < 18446744073709551616 \<and> 0 \<le> v then Some (v, C_uint64)
     else None)"
proof -
  have m: "show_int v @ sfx \<noteq> ''INT32_MIN''" "show_int v @ sfx \<noteq> ''INT64_MIN''"
    using shown_no_macro [of v sfx] by fastforce+
  have s: "sfx = [] \<or> \<not> is_digit (hd sfx)" using assms by (auto simp: is_digit_def char_le_iff)
  have v: "signed_value (v < 0) (nat \<bar>v\<bar>) = v" by (simp add: signed_value_def)
  have n: "nat \<bar>v\<bar> < 2147483648 \<longleftrightarrow> \<bar>v\<bar> < 2147483648" "nat \<bar>v\<bar> < 9223372036854775808 \<longleftrightarrow> \<bar>v\<bar> < 9223372036854775808"
    "nat \<bar>v\<bar> < 4294967296 \<longleftrightarrow> \<bar>v\<bar> < 4294967296" "nat \<bar>v\<bar> < 18446744073709551616 \<longleftrightarrow> \<bar>v\<bar> < 18446744073709551616"
    by linarith+
  have l: "(show_nat (nat \<bar>v\<bar>) = [] \<or> (1 < length (show_nat (nat \<bar>v\<bar>)) \<and> hd (show_nat (nat \<bar>v\<bar>)) = CHR ''0'')) = False"
    using show_nat_leading by auto
  have pos: "\<not> v < 0 \<Longrightarrow> int (nat \<bar>v\<bar>) = v" by simp
  have e: "c_integer (show_int v @ sfx) =
    (if sfx = [] \<and> \<bar>v\<bar> < 2147483648 then Some (v, C_int32)
     else if (sfx = [] \<or> sfx = ''LL'') \<and> \<bar>v\<bar> < 9223372036854775808 then Some (v, C_int64)
     else if sfx = ''u'' \<and> \<bar>v\<bar> < 4294967296 \<and> \<not> v < 0 then Some (int (nat \<bar>v\<bar>), C_uint32)
     else if sfx = ''ULL'' \<and> \<bar>v\<bar> < 18446744073709551616 \<and> \<not> v < 0 then Some (int (nat \<bar>v\<bar>), C_uint64)
     else None)"
    unfolding c_integer_def if_not_P [OF m(1)] if_not_P [OF m(2)] split_sign_shown prod.case split_shown [OF s] Let_def
      show_nat_value l if_False v n ..
  show ?thesis unfolding e using pos by (simp only: not_less cong: if_cong)
qed

section \<open>Integers\<close>

text \<open>The range of the member's type and that type.\<close>

definition integer_member :: "scalar_kind \<Rightarrow> (int \<times> int \<times> c_type) option" where
  "integer_member k =
     (if k \<in> {SCALAR_INT32, SCALAR_SINT32, SCALAR_SFIXED32} then Some (- (2 ^ 31), 2 ^ 31, C_int32)
      else if k \<in> {SCALAR_INT64, SCALAR_SINT64, SCALAR_SFIXED64} then Some (- (2 ^ 63), 2 ^ 63, C_int64)
      else if k \<in> {SCALAR_UINT32, SCALAR_FIXED32} then Some (0, 2 ^ 32, C_uint32)
      else if k \<in> {SCALAR_UINT64, SCALAR_FIXED64} then Some (0, 2 ^ 64, C_uint64)
      else None)"

text \<open>The text is a constant of value \<open>v\<close> and type \<open>t\<close>, or its copy could not be allocated.\<close>

definition printed_as :: "string option \<Rightarrow> 'w pool \<Rightarrow> int \<Rightarrow> c_type \<Rightarrow> bool" where
  "printed_as r p v t \<longleftrightarrow>
     (case r of Some lit \<Rightarrow> c_integer lit = Some (v, t)
      | None \<Rightarrow> (\<exists>lit. c_integer lit = Some (v, t) \<and> \<not> fst (pool_alloc (length lit + 1) p)))"

lemma printed_as_macro: "c_integer lit = Some (v, t) \<Longrightarrow> printed_as (Some lit) p v t"
  by (simp add: printed_as_def)

lemma length_shown: "\<bar>v\<bar> < 10 ^ Suc k \<Longrightarrow> length (show_int v) \<le> Suc (Suc k)"
proof -
  assume "\<bar>v\<bar> < 10 ^ Suc k"
  then have "nat \<bar>v\<bar> < 10 ^ Suc k" by (simp add: nat_less_iff)
  from length_show_nat [OF this] show ?thesis by (auto simp: show_int_def abs_if split: if_splits)
qed

lemma printed_as_copy:
  assumes "c_integer lit = Some (v, t)" and "lit \<noteq> []" and "length lit < 64"
  shows "printed_as (fst (copy_out lit p)) p v t"
  using assms by (auto simp: printed_as_def copy_out_def split: prod.split)

lemma copy_shown:
  assumes "sfx \<in> {[], ''LL'', ''u'', ''ULL''}" and "\<bar>v\<bar> < 18446744073709551616"
    and "c_integer (show_int v @ sfx) = Some (v, t)"
  shows "printed_as (fst (copy_out (show_int v @ sfx) p)) p v t"
proof (rule printed_as_copy [OF assms(3)])
  have "\<bar>v\<bar> < 10 ^ Suc 19" using assms(2) by simp
  from length_shown [OF this] show "length (show_int v @ sfx) < 64" using assms(1) by auto
  show "show_int v @ sfx \<noteq> []" by (simp add: show_int_def)
qed

lemma c_integer_macros:
  "c_integer ''INT32_MIN'' = Some (- 2147483648, C_int32)" "c_integer ''INT64_MIN'' = Some (- 9223372036854775808, C_int64)"
  by (simp_all add: c_integer_def)

lemma integer_default:
  assumes "holds_integer c v" and "nf_default f = Some c" and "integer_member (si_kind si) = Some (lo, hi, t)"
  shows "if lo \<le> v \<and> v < hi then printed_as (fst (gremlinc_scalar_resolve_default b f si p)) p v t
    else gremlinc_scalar_resolve_default b f si p = (None, p)"
proof -
  note conv = integer_conversions [OF assms(1)] in_range_or_overflow_def converted_def rejected_def
  consider (i32) "si_kind si \<in> {SCALAR_INT32, SCALAR_SINT32, SCALAR_SFIXED32}" "lo = - (2 ^ 31)" "hi = 2 ^ 31" "t = C_int32"
    | (i64) "si_kind si \<in> {SCALAR_INT64, SCALAR_SINT64, SCALAR_SFIXED64}" "lo = - (2 ^ 63)" "hi = 2 ^ 63" "t = C_int64"
    | (u32) "si_kind si \<in> {SCALAR_UINT32, SCALAR_FIXED32}" "lo = 0" "hi = 2 ^ 32" "t = C_uint32"
    | (u64) "si_kind si \<in> {SCALAR_UINT64, SCALAR_FIXED64}" "lo = 0" "hi = 2 ^ 64" "t = C_uint64"
    using assms(3) by (auto simp: integer_member_def split: if_splits)
  then show ?thesis
  proof cases
    case i32
    have r: "gremlinc_scalar_resolve_default b f si p =
        (if - 2147483648 \<le> v \<and> v \<le> 2147483647
         then (if v = - 2147483648 then (Some ''INT32_MIN'', p) else copy_out (show_int v) p) else (None, p))"
      using i32(1) by (auto simp: gremlinc_scalar_resolve_default_def assms(2) Let_def conv)
    have "c_integer (show_int v @ []) = Some (v, C_int32)" if "- 2147483648 < v" "v < 2147483648"
      using that by (subst c_integer_shown) simp_all
    then show ?thesis unfolding r i32(2-4)
      using copy_shown [of "[]" v C_int32 p] printed_as_macro [OF c_integer_macros(1), of p] by auto
  next
    case i64
    have r: "gremlinc_scalar_resolve_default b f si p =
        (if - 9223372036854775808 \<le> v \<and> v \<le> 9223372036854775807
         then (if v = - 9223372036854775808 then (Some ''INT64_MIN'', p) else copy_out (show_int v @ ''LL'') p) else (None, p))"
      using i64(1) by (auto simp: gremlinc_scalar_resolve_default_def assms(2) Let_def conv)
    have "c_integer (show_int v @ ''LL'') = Some (v, C_int64)" if "- 9223372036854775808 < v" "v < 9223372036854775808"
      using that by (subst c_integer_shown) simp_all
    then show ?thesis unfolding r i64(2-4)
      using copy_shown [of "''LL''" v C_int64 p] printed_as_macro [OF c_integer_macros(2), of p] by auto
  next
    case u32
    have r: "gremlinc_scalar_resolve_default b f si p =
        (if 0 \<le> v \<and> v \<le> 4294967295 then copy_out (show_int v @ ''u'') p else (None, p))"
      using u32(1) by (auto simp: gremlinc_scalar_resolve_default_def assms(2) Let_def conv)
    have "c_integer (show_int v @ ''u'') = Some (v, C_uint32)" if "0 \<le> v" "v < 4294967296"
      using that by (subst c_integer_shown) simp_all
    then show ?thesis unfolding r u32(2-4) using copy_shown [of "''u''" v C_uint32 p] by auto
  next
    case u64
    have r: "gremlinc_scalar_resolve_default b f si p =
        (if 0 \<le> v \<and> v \<le> 18446744073709551615 then copy_out (show_int v @ ''ULL'') p else (None, p))"
      using u64(1) by (auto simp: gremlinc_scalar_resolve_default_def assms(2) Let_def conv)
    have "c_integer (show_int v @ ''ULL'') = Some (v, C_uint64)" if "0 \<le> v" "v < 18446744073709551616"
      using that by (subst c_integer_shown) simp_all
    then show ?thesis unfolding r u64(2-4) using copy_shown [of "''ULL''" v C_uint64 p] by auto
  qed
qed

text \<open>An enum goes through \<open>int32_t\<close> with no macro: the least value is a constant of 64 bits.\<close>

lemma enum_default:
  assumes "holds_integer c v" and "nf_default f = Some c"
  shows "if - (2 ^ 31) \<le> v \<and> v < 2 ^ 31
    then printed_as (fst (gremlinc_enum_ref_resolve_default b target f p)) p v (if v = - (2 ^ 31) then C_int64 else C_int32)
    else gremlinc_enum_ref_resolve_default b target f p = (None, p)"
proof (cases "- (2 ^ 31) \<le> v \<and> v < 2 ^ 31")
  case True
  note conv = integer_conversions [OF assms(1)] in_range_or_overflow_def converted_def rejected_def
  have "\<bar>v\<bar> < 10000000000" using True by (simp add: abs_if)
  then have "\<bar>v\<bar> < 10 ^ Suc 9" by simp
  from length_shown [OF this] have len: "length (show_int v) < 32" by simp
  have ne: "show_int v \<noteq> []" by (simp add: show_int_def)
  have "c_integer (show_int v @ []) = Some (v, if v = - (2 ^ 31) then C_int64 else C_int32)"
    using True by (subst c_integer_shown) auto
  then have c: "c_integer (show_int v) = Some (v, if v = - (2 ^ 31) then C_int64 else C_int32)" by simp
  have "gremlinc_enum_ref_resolve_default b target f p = copy_out (show_int v) p"
    using True len ne by (simp add: gremlinc_enum_ref_resolve_default_def assms(2) Let_def conv copy_out_def)
  then show ?thesis using True printed_as_copy [OF c ne, of p] len by simp
next
  case False
  note conv = integer_conversions [OF assms(1)] in_range_or_overflow_def converted_def rejected_def
  show ?thesis using False by (auto simp: gremlinc_enum_ref_resolve_default_def assms(2) Let_def conv)
qed

text \<open>C17. From the text of an integer default to its constant in the generated code: the
  parser reads the decimal number, and the default of a member of an integer type is
  printed as a C constant of just this value and of the type of the member, the least
  values of the signed types as macros, when the number is in the range of the
  type, and is refused otherwise; only the copy of the text can fail for want of
  memory.  For an enum the value is right too, but its least value has 64 bits.\<close>
theorem integer_default_printed:
  assumes "valid_buffer b" and "ahead b = show_int v @ r" and "ends_number r"
    and "- (2 ^ 63) \<le> v" and "v < 2 ^ 64" and "integer_member (si_kind si) = Some (lo, hi, t)"
  shows "\<exists>c b'. gremlinp_lexems_parse_const_value b = (Inr c, b') \<and>
    (nf_default f = Some c \<longrightarrow>
      (if lo \<le> v \<and> v < hi then printed_as (fst (gremlinc_scalar_resolve_default b f si p)) p v t
       else gremlinc_scalar_resolve_default b f si p = (None, p)) \<and>
      (if - (2 ^ 31) \<le> v \<and> v < 2 ^ 31
       then printed_as (fst (gremlinc_enum_ref_resolve_default b target f p)) p v (if v = - (2 ^ 31) then C_int64 else C_int32)
       else gremlinc_enum_ref_resolve_default b target f p = (None, p)))"
proof -
  have "- 9223372036854775808 \<le> v" "v \<le> 18446744073709551615" using assms(4,5) by simp_all
  then obtain c b' where c: "gremlinp_lexems_parse_const_value b = (Inr c, b')" "holds_integer c v"
    using const_value_holds [OF assms(1-3)] by blast
  then show ?thesis using integer_default [OF c(2) _ assms(6)] enum_default [OF c(2)] by blast
qed

lemma integer_default_printed_witness:
  "printed_as (fst (gremlinc_scalar_resolve_default \<lparr>pb_buf = ''-42]'', pb_size = 4, pb_offset = 0\<rparr>
      (sample_field 1 (Some (GREMLINP_CONST_INT (- 42)))) (scalar_row ''int32'' ''int32_t'' 0 ''GREMLIN_WIRE_VARINT'' SCALAR_INT32)
      (sample_pool 8))) (sample_pool 8) (- 42) C_int32"
proof -
  let ?b = "\<lparr>pb_buf = ''-42]'', pb_size = 4, pb_offset = 0\<rparr>"
  let ?si = "scalar_row ''int32'' ''int32_t'' 0 ''GREMLIN_WIRE_VARINT'' SCALAR_INT32"
  let ?f = "sample_field 1 (Some (GREMLINP_CONST_INT (- 42)))"
  have b: "valid_buffer ?b" "ends_number '']''" "ahead ?b = show_int (- 42) @ '']''" by code_simp+
  have k: "integer_member (si_kind ?si) = Some (- (2 ^ 31), 2 ^ 31, C_int32)"
    by (simp add: integer_member_def scalar_row_def)
  obtain b' where p: "gremlinp_lexems_parse_const_value ?b = (Inr (GREMLINP_CONST_INT (- 42)), b')"
    using const_value_int [OF b(1,3,2)] by fastforce
  show ?thesis
    using integer_default_printed [OF b(1,3,2) _ _ k, of ?f "sample_pool 8" None] p by (auto simp: sample_field_def)
qed

section \<open>Floats\<close>

text \<open>The largest finite float and a double of \<open>1.7e308\<close> are printed as infinite.\<close>

lemma largest_float_is_infinite:
  "float_default 0x7F7FFFFF p = (Some ''(float)INFINITY'', p)"
proof -
  have "float_limit False = 0x7F7FC99E"
    by (simp add: float_limit_def float_of_quotient_def quotient_exponent_def round_quotient_def scale_up_def
        bit_length.simps Let_def)
  then have "float_rank (float_limit False) = 2139081118" by (simp add: float_rank_def float_sign_def)
  moreover have "float_rank 0x7F7FFFFF = 2139095039" by (simp add: float_rank_def float_sign_def)
  moreover have "\<not> float_is_nan 0x7F7FFFFF" by (simp add: float_is_nan_def float_exponent_def float_fraction_def)
  ultimately show ?thesis by (simp add: float_default_def)
qed

end
