(* ===== verification/Emit_Enum.thy ===== *)
theory Emit_Enum
  imports Emit_Text
begin

text \<open>
  The C type of an enum, \<open>gremlinc/src/emit_enum.c\<close>: each constant is claimed in the
  scope of names as it is printed.  The state is the text buffer and the scope with
  its arena; a writer that would not return has the value \<open>None\<close>.
\<close>

section \<open>Operations\<close>

type_synonym 'w printing = "(gremlinp_parsing_error option \<times> gremlinc_writer \<times> 'w naming) option"

text \<open>The macros, and what follows them.\<close>

definition emit_then :: "(nat \<Rightarrow> bool) \<Rightarrow> gremlinc_writer \<Rightarrow> 'w naming \<Rightarrow> piece list \<Rightarrow>
    (gremlinc_writer \<Rightarrow> 'w printing) \<Rightarrow> 'w printing" where
  "emit_then allocates w st xs k =
     (case emit allocates w xs of
        None \<Rightarrow> None
      | Some (err, w1) \<Rightarrow> if err \<noteq> None then Some (err, w1, st) else k w1)"

fun emit_enum_values :: "(nat \<Rightarrow> bool) \<Rightarrow> string \<Rightarrow> (string \<times> int) list \<Rightarrow> gremlinc_writer \<Rightarrow> 'w naming \<Rightarrow> 'w printing" where
  "emit_enum_values allocates tname [] w st = Some (None, w, st)"
| "emit_enum_values allocates tname ((name, index) # vs) w st =
     (let raw_len = length tname + 1 + length name in
      case pool_alloc (raw_len + 1) (snd st) of (ok, p1) \<Rightarrow>
        if \<not> ok then Some (Some GREMLINP_ERROR_OUT_OF_MEMORY, w, (fst st, p1))
        else
          (case gremlinc_name_scope_mangle (fst st, p1) (tname @ ''_'' @ name) of
             (None, st1) \<Rightarrow> Some (Some GREMLINP_ERROR_OUT_OF_MEMORY, w, st1)
           | (Some vname, st1) \<Rightarrow>
               emit_then allocates w st1 [W (tx ''$t''), W vname, W '' = '', WI index, W (tx '',$n'')]
                 (\<lambda>w1. emit_enum_values allocates tname vs w1 st1)))"

definition gremlinc_emit_enum :: "(nat \<Rightarrow> bool) \<Rightarrow> gremlinc_writer \<Rightarrow> 'w naming \<Rightarrow> gremlind_enum \<Rightarrow> 'w printing" where
  "gremlinc_emit_enum allocates w st e =
     (case ne_c_name e of
        None \<Rightarrow> Some (Some GREMLINP_ERROR_NULL_POINTER, w, st)
      | Some tname \<Rightarrow>
          emit_then allocates w st [W ''typedef enum '', W tname, W (tx '' {$n'')] (\<lambda>w1.
            (case emit_enum_values allocates tname (ne_values e) w1 st of
               None \<Rightarrow> None
             | Some (err, w2, st2) \<Rightarrow>
                 if err \<noteq> None then Some (err, w2, st2)
                 else emit_then allocates w2 st2 [W ''} '', W tname, W (tx '';$n$n'')]
                   (\<lambda>w3. Some (None, w3, st2)))))"

section \<open>What is printed\<close>

lemma emit_then_cases:
  assumes "valid_text_writer w"
  obtains (ok) w1 where "emit_then allocates w st xs k = k w1" and "valid_text_writer w1" and "tw_text w1 = tw_text w @ text_of xs"
  | (failed) w1 where "emit_then allocates w st xs k = Some (Some GREMLINP_ERROR_BUFFER_OVERFLOW, w1, st)"
proof -
  obtain err w1 j where e: "emit allocates w xs = Some (err, w1)" "valid_text_writer w1"
      "tw_text w1 = tw_text w @ text_of (take j xs)" "err = None \<longrightarrow> j = length xs"
      "err \<noteq> None \<longrightarrow> err = Some GREMLINP_ERROR_BUFFER_OVERFLOW"
    using emit_outcome [OF assms, of allocates xs] by blast
  then show ?thesis using ok [of w1] failed [of w1] by (cases err) (simp_all add: emit_then_def)
qed

text \<open>The names claimed one after the other, and a line of the type.\<close>

fun claimed :: "string \<Rightarrow> string list \<Rightarrow> string list \<Rightarrow> string list \<Rightarrow> bool" where
  "claimed tname names [] cs \<longleftrightarrow> cs = []"
| "claimed tname names (n # ns) cs \<longleftrightarrow> (\<exists>c ds. cs = c # ds \<and>
     smallest_free names (mangle_base (tname @ ''_'' @ n)) c \<and> claimed tname (c # names) ns ds)"

definition enum_line :: "string \<Rightarrow> int \<Rightarrow> string" where
  "enum_line c i = tx ''$t'' @ c @ '' = '' @ show_int (int32_cast i) @ tx '',$n''"

lemma claimed_length: "claimed tname names ns cs \<Longrightarrow> length cs = length ns"
  by (induction ns arbitrary: names cs) auto

lemma claimed_distinct: "claimed tname names ns cs \<Longrightarrow> distinct cs \<and> set cs \<inter> set names = {}"
proof (induction ns arbitrary: names cs)
  case (Cons n ns)
  then obtain c ds where "cs = c # ds" "smallest_free names (mangle_base (tname @ ''_'' @ n)) c" "claimed tname (c # names) ns ds"
    by auto
  then show ?case using Cons.IH [of "c # names" ds] by (auto simp: smallest_free_def)
qed simp

lemma smallest_free_no_nul: "smallest_free names (mangle_base raw) c \<Longrightarrow> nul \<notin> set c"
  using nul_notin_numbered by (auto simp: smallest_free_def)

lemma c_str_tx: "c_str (tx ''$t'') = tx ''$t''" "c_str (tx '',$n'') = tx '',$n''" "c_str (tx '' {$n'') = tx '' {$n''"
  "c_str (tx '';$n$n'') = tx '';$n$n''" "c_str '' = '' = '' = ''" "c_str ''} '' = ''} ''" "c_str ''typedef enum '' = ''typedef enum ''"
  by code_simp+

lemma emit_enum_values_correct:
  assumes "valid_text_writer w"
  shows "\<exists>err w' st'. emit_enum_values allocates tname vs w st = Some (err, w', st') \<and> (err = None \<longrightarrow>
    valid_text_writer w' \<and> (\<exists>cs. claimed tname (ns_names (fst st)) (map fst vs) cs \<and>
      ns_names (fst st') = rev cs @ ns_names (fst st) \<and>
      tw_text w' = tw_text w @ concat (map2 enum_line cs (map snd vs))))"
  using assms
proof (induction vs arbitrary: w st)
  case (Cons v vs)
  obtain name i where v: "v = (name, i)" by (cases v)
  obtain ok p1 where a: "pool_alloc (length tname + 1 + length name + 1) (snd st) = (ok, p1)" by (metis surj_pair)
  obtain r st1 where m: "gremlinc_name_scope_mangle (fst st, p1) (tname @ ''_'' @ name) = (r, st1)" by (metis surj_pair)
  show ?case
  proof (cases "ok \<and> r \<noteq> None")
    case False
    then show ?thesis using a m by (cases st1) (auto simp: v Let_def split: option.split)
  next
    case True
    then obtain c where c: "r = Some c" by blast
    note M = mangle_correct [OF m, unfolded c, simplified]
    let ?line = "[W (tx ''$t''), W c, W '' = '', WI i, W (tx '',$n'')]"
    have line: "text_of ?line = enum_line c i"
      using smallest_free_no_nul [of "ns_names (fst st)" "tname @ ''_'' @ name" c] M
      by (simp add: piece_text_def enum_line_def c_str_tx c_str_id)
    have run: "emit_enum_values allocates tname (v # vs) w st =
        emit_then allocates w st1 ?line (\<lambda>w1. emit_enum_values allocates tname vs w1 st1)"
      using a m True c by (simp add: v Let_def)
    from Cons.prems show ?thesis
    proof (cases rule: emit_then_cases [where allocates = allocates and st = st1 and xs = ?line
          and k = "\<lambda>w1. emit_enum_values allocates tname vs w1 st1"])
      case (ok w1)
      obtain err w' st' where I: "emit_enum_values allocates tname vs w1 st1 = Some (err, w', st')"
        "err = None \<longrightarrow> valid_text_writer w' \<and> (\<exists>cs. claimed tname (ns_names (fst st1)) (map fst vs) cs \<and>
          ns_names (fst st') = rev cs @ ns_names (fst st1) \<and>
          tw_text w' = tw_text w1 @ concat (map2 enum_line cs (map snd vs)))"
        using Cons.IH [OF ok(2)] by blast
      have "\<exists>cs. claimed tname (ns_names (fst st)) (map fst (v # vs)) cs \<and>
          ns_names (fst st') = rev cs @ ns_names (fst st) \<and>
          tw_text w' = tw_text w @ concat (map2 enum_line cs (map snd (v # vs)))" if none: "err = None"
      proof -
        obtain cs where cs: "claimed tname (ns_names (fst st1)) (map fst vs) cs"
            "ns_names (fst st') = rev cs @ ns_names (fst st1)" "tw_text w' = tw_text w1 @ concat (map2 enum_line cs (map snd vs))"
          using I(2) none by blast
        then show ?thesis using M ok(3) line by (intro exI [of _ "c # cs"]) (simp add: v)
      qed
      then show ?thesis using run ok(1) I by auto
    next
      case (failed w1)
      then show ?thesis using run by simp
    qed
  qed
qed simp

text \<open>C19. Printing an enum returns, and when it succeeds the buffer has grown by the C type:
  one line for each value in the order of the file, with the number of the value and a
  name that is new, so that the constants differ from each other and from every
  name of the run: the name of the type and of the value joined, or, where that is
  taken, with the first free number; the names are in the scope afterwards.\<close>
theorem emit_enum_correct:
  assumes "valid_text_writer w" and "ne_c_name e = Some tname"
  shows "\<exists>err w' st'. gremlinc_emit_enum allocates w st e = Some (err, w', st') \<and> (err = None \<longrightarrow>
    (\<exists>cs. claimed tname (ns_names (fst st)) (map fst (ne_values e)) cs \<and>
      length cs = length (ne_values e) \<and> distinct cs \<and> set cs \<inter> set (ns_names (fst st)) = {} \<and>
      ns_names (fst st') = rev cs @ ns_names (fst st) \<and>
      tw_text w' = tw_text w @ ''typedef enum '' @ c_str tname @ tx '' {$n''
        @ concat (map2 enum_line cs (map snd (ne_values e))) @ ''} '' @ c_str tname @ tx '';$n$n''))"
proof -
  let ?open = "[W ''typedef enum '', W tname, W (tx '' {$n'')]" and ?close = "[W ''} '', W tname, W (tx '';$n$n'')]"
  have texts: "text_of ?open = ''typedef enum '' @ c_str tname @ tx '' {$n''" "text_of ?close = ''} '' @ c_str tname @ tx '';$n$n''"
    by (simp_all add: piece_text_def c_str_tx)
  define k where "k = (\<lambda>w1. case emit_enum_values allocates tname (ne_values e) w1 st of
               None \<Rightarrow> None
             | Some (err, w2, st2) \<Rightarrow>
                 if err \<noteq> None then Some (err, w2, st2)
                 else emit_then allocates w2 st2 ?close (\<lambda>w3. Some (None, w3, st2)))"
  have run: "gremlinc_emit_enum allocates w st e = emit_then allocates w st ?open k"
    by (simp add: gremlinc_emit_enum_def assms(2) k_def)
  from assms(1) show ?thesis
  proof (cases rule: emit_then_cases [where allocates = allocates and st = st and xs = ?open and k = k])
    case (failed w1)
    then show ?thesis using run by simp
  next
    case (ok w1)
    obtain err w2 st2 where I: "emit_enum_values allocates tname (ne_values e) w1 st = Some (err, w2, st2)"
      "err = None \<longrightarrow> valid_text_writer w2 \<and> (\<exists>cs. claimed tname (ns_names (fst st)) (map fst (ne_values e)) cs \<and>
        ns_names (fst st2) = rev cs @ ns_names (fst st) \<and>
        tw_text w2 = tw_text w1 @ concat (map2 enum_line cs (map snd (ne_values e))))"
      using emit_enum_values_correct [OF ok(2), of allocates tname "ne_values e" st] by blast
    show ?thesis
    proof (cases err)
      case (Some x)
      then show ?thesis using run ok(1) I(1) by (simp add: k_def)
    next
      case None
      then obtain cs where v2: "valid_text_writer w2" and cs: "claimed tname (ns_names (fst st)) (map fst (ne_values e)) cs"
          "ns_names (fst st2) = rev cs @ ns_names (fst st)"
          "tw_text w2 = tw_text w1 @ concat (map2 enum_line cs (map snd (ne_values e)))"
        using I(2) by blast
      have k: "k w1 = emit_then allocates w2 st2 ?close (\<lambda>w3. Some (None, w3, st2))"
        using I(1) None by (simp add: k_def)
      from v2 show ?thesis
      proof (cases rule: emit_then_cases [where allocates = allocates and st = st2 and xs = ?close
            and k = "\<lambda>w3. Some (None, w3, st2)"])
        case (ok w3)
        then show ?thesis
          using run \<open>emit_then allocates w st ?open k = k w1\<close> k cs texts \<open>tw_text w1 = tw_text w @ text_of ?open\<close>
            claimed_length [OF cs(1)] claimed_distinct [OF cs(1)]
          by simp
      next
        case (failed w3)
        then show ?thesis using run ok(1) k by simp
      qed
    qed
  qed
qed

definition sample_enum :: gremlind_enum where
  "sample_enum = \<lparr>ne_parsed = \<lparr>em_name = \<lparr>span_start = 5, span_length = 1\<rparr>, em_body_start = 7, em_body_end = 17, em_start = 0, em_end = 18\<rparr>, ne_name = ''E'', ne_values = [(''A'', 0), (''B'', - 1)], ne_parent = None,
     ne_scoped_name = \<lparr>segments = [''E''], absolute = True\<rparr>, ne_c_name = Some ''E''\<rparr>"

lemma sample_enum_printed:
  "\<exists>w' st'. gremlinc_emit_enum (\<lambda>_. False) (gremlinc_writer_init 256) (gremlinc_name_scope_init, sample_pool 0) sample_enum =
     Some (None, w', st')"
proof -
  have "show_int (int32_cast 0) = ''0''" "show_int (int32_cast (- 1)) = ''-1''"
    by (simp_all add: int32_cast_id) (code_simp+)
  then show ?thesis
    by (simp add: gremlinc_emit_enum_def sample_enum_def emit_then_def emit_eq piece_text_def c_str_tx
        gremlinc_write_def ensure_cap_def gremlinc_writer_init_def sample_pool_alloc align_up_def
        gremlinc_name_scope_mangle_def arena_dup_with_suffix_def scope_register_def gremlinc_name_scope_init_def
        gremlinc_is_c_keyword_def C_KEYWORDS_def ACSL_RESERVED_def c_str_def tx.simps)
      (simp add: sample_pool_def)
qed

lemma emit_enum_correct_witness:
  "\<exists>w' st' cs. gremlinc_emit_enum (\<lambda>_. False) (gremlinc_writer_init 256) (gremlinc_name_scope_init, sample_pool 0) sample_enum =
       Some (None, w', st') \<and> length cs = 2 \<and> distinct cs \<and> ns_names (fst st') = rev cs \<and>
     tw_text w' = ''typedef enum E'' @ tx '' {$n'' @ concat (map2 enum_line cs [0, - 1]) @ ''} E'' @ tx '';$n$n''"
proof -
  obtain w' st' where run: "gremlinc_emit_enum (\<lambda>_. False) (gremlinc_writer_init 256)
      (gremlinc_name_scope_init, sample_pool 0) sample_enum = Some (None, w', st')"
    using sample_enum_printed by blast
  have e: "ne_c_name sample_enum = Some ''E''" "c_str ''E'' = ''E''" by (simp_all add: sample_enum_def c_str_def)
  obtain cs where "length cs = length (ne_values sample_enum)" "distinct cs"
      "ns_names (fst st') = rev cs @ ns_names gremlinc_name_scope_init"
      "tw_text w' = tw_text (gremlinc_writer_init 256) @ ''typedef enum '' @ c_str ''E'' @ tx '' {$n''
        @ concat (map2 enum_line cs (map snd (ne_values sample_enum))) @ ''} '' @ c_str ''E'' @ tx '';$n$n''"
    using emit_enum_correct [OF valid_init [of 256] e(1), where allocates = "\<lambda>_. False"
        and st = "(gremlinc_name_scope_init, sample_pool 0)"]
    unfolding run by auto
  then show ?thesis using run e(2)
    by (intro exI [of _ w'] exI [of _ st'] exI [of _ cs])
      (simp add: sample_enum_def gremlinc_name_scope_init_def gremlinc_writer_init_def)
qed

end
